(* ===== verification/Iris_Prelude.thy ===== *)
theory Iris_Prelude
  imports Main "HOL-Library.Word" "HOL-Library.Monad_Syntax"
begin

text \<open>
  Shared vocabulary of the development: the machine integer types of the C sources, the
  kernel's status codes (\<^verbatim>\<open>kernel/new_core/include/iris/nc/error.h\<close>), doubly linked
  segments over two pointer fields (the shape of every intrusive list of the kernel), and
  the generic facts on options, relations and cardinalities that the components share.

  An operation that may not return is a function into \<open>option\<close>: \<open>None\<close> stands for a
  machine that does not come back, because a loop runs forever or because
  \<^verbatim>\<open>IRIS_ASSERT\<close> or \<^verbatim>\<open>iris_panic\<close> halted it.
\<close>

unbundle bit_operations_syntax

type_synonym u8 = "8 word"
type_synonym u16 = "16 word"
type_synonym u32 = "32 word"
type_synonym u64 = "64 word"

named_theorems link_simps \<open>frame and update facts of pointer fields\<close>
named_theorems status_intros \<open>introduction rules for returning operations\<close>

datatype iris_status =
    IRIS_OK
  | IRIS_ERR_INVALID_ARG
  | IRIS_ERR_NO_MEMORY
  | IRIS_ERR_NOT_FOUND
  | IRIS_ERR_BAD_HANDLE
  | IRIS_ERR_ACCESS_DENIED
  | IRIS_ERR_TABLE_FULL
  | IRIS_ERR_ALREADY_EXISTS
  | IRIS_ERR_BUSY
  | IRIS_ERR_WRONG_TYPE
  | IRIS_ERR_OVERFLOW
  | IRIS_ERR_NOT_SUPPORTED
  | IRIS_ERR_CLOSED
  | IRIS_ERR_WOULD_BLOCK
  | IRIS_ERR_INTERNAL
  | IRIS_ERR_TIMED_OUT
  | IRIS_ERR_MISSING_TABLE

subsection \<open>Doubly linked segments\<close>

text \<open>
  \<open>dseg nx pv p xs q\<close>: the nodes \<open>xs\<close> are linked in this order through the
  fields \<open>nx\<close> and \<open>pv\<close>, the first one's \<open>pv\<close> is \<open>p\<close> and the last one's
  \<open>nx\<close> is \<open>q\<close>.
\<close>

definition head_or :: "'r list \<Rightarrow> 'r option \<Rightarrow> 'r option" where
  "head_or xs q = (case xs of [] \<Rightarrow> q | x # _ \<Rightarrow> Some x)"

definition last_or :: "'r list \<Rightarrow> 'r option \<Rightarrow> 'r option" where
  "last_or xs p = (if xs = [] then p else Some (last xs))"

fun dseg :: "('r \<Rightarrow> 'r option) \<Rightarrow> ('r \<Rightarrow> 'r option) \<Rightarrow> 'r option \<Rightarrow> 'r list \<Rightarrow> 'r option \<Rightarrow> bool" where
  "dseg nx pv p [] q = True"
| "dseg nx pv p (x # xs) q =
     (pv x = p \<and> nx x = head_or xs q \<and> dseg nx pv (Some x) xs q)"

lemma head_or_simps [simp]:
  "head_or [] q = q" "head_or (x # xs) q = Some x"
  by (simp_all add: head_or_def)

lemma last_or_simps [simp]:
  "last_or [] p = p" "last_or (xs @ [x]) p = Some x"
  by (simp_all add: last_or_def)

lemma last_or_Cons [simp]: "last_or (x # xs) p = last_or xs (Some x)"
  by (simp add: last_or_def)

lemma head_or_append [simp]: "head_or (xs @ ys) q = head_or xs (head_or ys q)"
  by (cases xs) simp_all

lemma last_or_append [simp]: "last_or (xs @ ys) p = last_or ys (last_or xs p)"
  by (simp add: last_or_def)

lemma last_or_eq_None [simp]: "last_or xs p = None \<longleftrightarrow> xs = [] \<and> p = None"
  by (simp add: last_or_def)

lemma head_or_eq_None [simp]: "head_or xs q = None \<longleftrightarrow> xs = [] \<and> q = None"
  by (cases xs) simp_all

lemma last_or_in: "last_or xs None = Some x \<Longrightarrow> x \<in> set xs"
  by (auto simp: last_or_def split: if_splits)

lemma head_or_in: "head_or xs None = Some x \<Longrightarrow> x \<in> set xs"
  by (cases xs) simp_all

lemma dseg_append [simp]:
  "dseg nx pv p (xs @ ys) q \<longleftrightarrow>
     dseg nx pv p xs (head_or ys q) \<and> dseg nx pv (last_or xs p) ys q"
  by (induction xs arbitrary: p) (auto simp: last_or_def)

lemma dseg_cong:
  assumes "\<And>x. x \<in> set xs \<Longrightarrow> nx x = nx' x" and "\<And>x. x \<in> set xs \<Longrightarrow> pv x = pv' x"
  shows "dseg nx pv p xs q \<longleftrightarrow> dseg nx' pv' p xs q"
  using assms by (induction xs arbitrary: p) auto

lemma dseg_upd_next [simp]:
  "a \<notin> set xs \<Longrightarrow> dseg (nx(a := v)) pv p xs q \<longleftrightarrow> dseg nx pv p xs q"
  by (rule dseg_cong) auto

lemma dseg_upd_prev [simp]:
  "a \<notin> set xs \<Longrightarrow> dseg nx (pv(a := v)) p xs q \<longleftrightarrow> dseg nx pv p xs q"
  by (rule dseg_cong) auto

lemma dseg_next_in:
  "dseg nx pv p xs None \<Longrightarrow> x \<in> set xs \<Longrightarrow> nx x = Some y \<Longrightarrow> y \<in> set xs"
proof (induction xs arbitrary: p)
  case (Cons a xs)
  then show ?case by (cases xs) auto
qed simp

lemma dseg_prev_in:
  "dseg nx pv p xs q \<Longrightarrow> x \<in> set xs \<Longrightarrow> pv x = Some y \<Longrightarrow> Some y = p \<or> y \<in> set xs"
proof (induction xs arbitrary: p)
  case (Cons a xs)
  show ?case
  proof (cases "x = a")
    case False
    with Cons.prems have "Some y = Some a \<or> y \<in> set xs" by (intro Cons.IH) auto
    then show ?thesis by auto
  qed (use Cons.prems in auto)
qed simp

lemma dseg_split:
  "dseg nx pv None (as @ s # bs) None \<Longrightarrow> pv s = last_or as None \<and> nx s = head_or bs None"
  by simp

lemma dseg_map:
  assumes "\<And>x. x \<in> set xs \<Longrightarrow> nx' (f x) = map_option f (nx x)"
    and "\<And>x. x \<in> set xs \<Longrightarrow> pv' (f x) = map_option f (pv x)"
    and "dseg nx pv p xs q"
  shows "dseg nx' pv' (map_option f p) (map f xs) (map_option f q)"
  using assms
proof (induction xs arbitrary: p)
  case (Cons a xs)
  have "map_option f (head_or xs q) = head_or (map f xs) (map_option f q)"
    by (cases xs) auto
  moreover have "dseg nx' pv' (map_option f (Some a)) (map f xs) (map_option f q)"
    using Cons.prems by (intro Cons.IH) auto
  ultimately show ?case using Cons.prems by simp
qed simp

text \<open>
  A forward walk over a segment: the loop
  \<^verbatim>\<open>for (c = first; c; c = c->next)\<close> as a function that may not return.
\<close>

partial_function (option) walk :: "('r \<Rightarrow> 'r option) \<Rightarrow> 'r option \<Rightarrow> 'r list option" where
  "walk nx c =
     (case c of None \<Rightarrow> Some []
      | Some x \<Rightarrow> Option.bind (walk nx (nx x)) (\<lambda>xs. Some (x # xs)))"

lemma walk_None [simp]: "walk nx None = Some []"
  by (simp add: walk.simps)

lemma walk_dseg: "dseg nx pv p xs None \<Longrightarrow> walk nx (head_or xs None) = Some xs"
proof (induction xs arbitrary: p)
  case (Cons a xs)
  then have "walk nx (nx a) = Some xs" by auto
  then show ?case by (subst walk.simps) simp
qed simp

subsection \<open>Relations\<close>

lemma acyclic_subset_trancl:
  assumes "acyclic r" and "r' \<subseteq> r\<^sup>+"
  shows "acyclic r'"
proof (rule acyclic_subset)
  show "acyclic (r\<^sup>+)" using assms(1) by (simp add: acyclic_def)
qed (rule assms(2))

lemma acyclic_insert_fresh:
  assumes "acyclic r" and "\<And>y. (s, y) \<notin> r" and "p \<noteq> s"
  shows "acyclic (insert (p, s) r)"
proof -
  have "(s, p) \<notin> r\<^sup>*"
  proof
    assume "(s, p) \<in> r\<^sup>*"
    then show False using assms(2,3) by (auto elim: converse_rtranclE)
  qed
  with assms(1) show ?thesis by simp
qed

lemma acyclic_inj_image:
  assumes "acyclic r" and "inj_on f (Field r)"
  shows "acyclic ((\<lambda>(x, y). (f x, f y)) ` r)"
proof (rule acyclicI, rule allI, rule notI)
  fix z assume "(z, z) \<in> ((\<lambda>(x, y). (f x, f y)) ` r)\<^sup>+"
  moreover have "(a, b) \<in> ((\<lambda>(x, y). (f x, f y)) ` r)\<^sup>+ \<Longrightarrow>
      \<exists>x y. a = f x \<and> b = f y \<and> (x, y) \<in> r\<^sup>+" for a b
  proof (induction rule: trancl_induct)
    case (base y)
    then show ?case by auto
  next
    case (step y z)
    then obtain x y0 u v where *: "a = f x" "y = f y0" "(x, y0) \<in> r\<^sup>+"
      "y = f u" "z = f v" "(u, v) \<in> r" by auto
    have "y0 \<in> Field r" using *(3) by (auto simp: Field_def dest: tranclD2)
    moreover have "u \<in> Field r" using *(6) by (auto simp: Field_def)
    ultimately have "y0 = u" using assms(2) * by (auto dest: inj_onD)
    with * show ?case by (auto intro: trancl_into_trancl)
  qed
  ultimately obtain x y where "z = f x" "z = f y" and xy: "(x, y) \<in> r\<^sup>+" by blast
  moreover have "x \<in> Field r" "y \<in> Field r"
    using xy by (auto simp: Field_def dest: tranclD tranclD2)
  ultimately have "x = y" using assms(2) by (auto dest: inj_onD)
  with xy assms(1) show False by (auto simp: acyclic_def)
qed

subsection \<open>Partial operations\<close>

lemma bindE:
  assumes "Option.bind m f = Some r"
  obtains x where "m = Some x" "f x = Some r"
  using assms by (auto simp: bind_eq_Some_conv)

text \<open>Bits of a bitmap word, and a bit index from its word and position.\<close>

lemma bit_set: "b < 64 \<Longrightarrow> bit (m OR 2 ^ a) b \<longleftrightarrow> bit m b \<or> b = a" for m :: u64
  by (auto simp: bit_simps)

lemma bit_clear: "b < 64 \<Longrightarrow> bit (m AND NOT (2 ^ a)) b \<longleftrightarrow> bit m b \<and> b \<noteq> a" for m :: u64
  by (auto simp: bit_simps)

lemma div_mod_eq: "p div 64 = q div 64 \<Longrightarrow> p mod 64 = q mod 64 \<Longrightarrow> p = (q :: nat)"
  by (metis div_mult_mod_eq)

text \<open>Rounding a word up to a power of two, and sums that stay in a word.\<close>

lemma clear_low_nat: "unat (x AND NOT (mask k)) = unat x div 2 ^ k * 2 ^ k" for x :: u64
proof -
  have "x AND NOT (mask k) = push_bit k (drop_bit k x)" by (rule bit_word_eqI) (auto simp: bit_simps)
  then have "unat (x AND NOT (mask k)) = take_bit 64 (push_bit k (drop_bit k (unat x)))"
    by (simp only: unsigned_push_bit_eq unat_drop_bit_eq len_num1 len_bit0 len_num0) simp
  also have "\<dots> = take_bit 64 (unat x div 2 ^ k * 2 ^ k)" by (simp only: push_bit_eq_mult drop_bit_eq_div)
  also have "\<dots> = unat x div 2 ^ k * 2 ^ k"
    using unsigned_less [of x] by (intro take_bit_nat_eq_self le_less_trans [OF div_times_less_eq_dividend]) simp
  finally show ?thesis .
qed

lemma round_up_nat:
  fixes n :: u64
  assumes "unat n + (2 ^ k - 1) < 2 ^ 64" "k < 64"
  shows "unat ((n + mask k) AND NOT (mask k)) = (unat n + (2 ^ k - 1)) div 2 ^ k * 2 ^ k"
proof -
  have "(2 :: nat) ^ k \<le> 2 ^ 63" using assms(2) by (intro power_increasing) auto
  then have "unat (word_of_nat (2 ^ k - 1) :: u64) = 2 ^ k - 1"
    unfolding unat_of_nat by (intro mod_less) (auto intro: le_less_trans)
  then have "unat (mask k :: u64) = 2 ^ k - 1" by (simp add: mask_eq_exp_minus_1 of_nat_diff)
  then have "unat (n + mask k) = unat n + (2 ^ k - 1)" using assms(1) by (simp add: unat_word_ariths)
  then show ?thesis by (simp only: clear_low_nat)
qed

lemma u64_bound: "unat x < 2 ^ 64" for x :: u64
  using unsigned_less [of x, where ?'a = nat] by simp

lemma unat_add_le: "unat a + unat b \<le> unat c \<Longrightarrow> unat (a + b) = unat a + unat b" for a b c :: u64
  using u64_bound [of c] by (simp add: unat_word_ariths)

end
