(* ===== verification/Iris_Rights.thy ===== *)
theory Iris_Rights
  imports Iris_Prelude
begin

text \<open>
  Rights, badges and object types: what a capability carries besides the object it names.
  Models \<^verbatim>\<open>nc/rights.h\<close>, the enumeration of \<^verbatim>\<open>nc/kobject.h\<close> and
  \<^verbatim>\<open>mdb_badge_derive\<close> of \<^verbatim>\<open>kcnode.c\<close>.  The locale \<open>attenuation\<close> states what a
  chain of derivations promises (authority only shrinks); it is interpreted on the rights
  rule alone and on the pair of rules a derivation applies.
\<close>

subsection \<open>Object types\<close>

datatype kobject_type =
    KOBJ_PROCESS | KOBJ_CHANNEL | KOBJ_NOTIFICATION | KOBJ_BOOTSTRAP_CAP | KOBJ_VMO
  | KOBJ_IRQ_CAP | KOBJ_IOPORT | KOBJ_INITRD_ENTRY | KOBJ_ENDPOINT | KOBJ_CNODE
  | KOBJ_SCHED_CONTEXT | KOBJ_UNTYPED | KOBJ_REPLY | KOBJ_TCB | KOBJ_VSPACE | KOBJ_FRAME
  | KOBJ_PAGE_TABLE | KOBJ_ASID_POOL | KOBJ_IOSPACE | KOBJ_IO_PAGE_TABLE

subsection \<open>Rights\<close>

type_synonym iris_rights = u32

definition RIGHT_NONE :: iris_rights where "RIGHT_NONE = 0x00000000"
definition RIGHT_READ :: iris_rights where "RIGHT_READ = 0x00000001"
definition RIGHT_WRITE :: iris_rights where "RIGHT_WRITE = 0x00000002"
definition RIGHT_DUPLICATE :: iris_rights where "RIGHT_DUPLICATE = 0x00000004"
definition RIGHT_TRANSFER :: iris_rights where "RIGHT_TRANSFER = 0x00000008"
definition RIGHT_WAIT :: iris_rights where "RIGHT_WAIT = 0x00000010"
definition RIGHT_ROUTE :: iris_rights where "RIGHT_ROUTE = 0x00000020"
definition RIGHT_MANAGE :: iris_rights where "RIGHT_MANAGE = 0x00000040"
definition RIGHT_SAME_RIGHTS :: iris_rights where "RIGHT_SAME_RIGHTS = 0x80000000"

lemmas right_defs = RIGHT_NONE_def RIGHT_READ_def RIGHT_WRITE_def RIGHT_DUPLICATE_def
  RIGHT_TRANSFER_def RIGHT_WAIT_def RIGHT_ROUTE_def RIGHT_MANAGE_def RIGHT_SAME_RIGHTS_def

definition rights_check :: "iris_rights \<Rightarrow> iris_rights \<Rightarrow> bool" where
  "rights_check rights required =
     (if required = RIGHT_NONE then False else rights AND required = required)"

definition rights_reduce :: "iris_rights \<Rightarrow> iris_rights \<Rightarrow> iris_rights" where
  "rights_reduce base requested =
     (if requested AND RIGHT_SAME_RIGHTS \<noteq> 0 then base AND NOT RIGHT_SAME_RIGHTS
      else base AND requested)"

text \<open>The order of authority: \<open>a\<close> carries no right that \<open>b\<close> lacks.\<close>

definition rights_le :: "iris_rights \<Rightarrow> iris_rights \<Rightarrow> bool" where
  "rights_le a b \<longleftrightarrow> a AND b = a"

lemma rights_le_bits: "rights_le a b \<longleftrightarrow> (\<forall>n. bit a n \<longrightarrow> bit b n)"
proof
  assume "rights_le a b"
  then have "bit (a AND b) n \<longleftrightarrow> bit a n" for n by (simp add: rights_le_def)
  then show "\<forall>n. bit a n \<longrightarrow> bit b n" by (auto simp: bit_and_iff)
qed (auto simp: rights_le_def bit_and_iff intro!: bit_eqI)

lemma rights_le_refl [simp]: "rights_le a a"
  by (simp add: rights_le_def)

lemma rights_le_trans: "rights_le a b \<Longrightarrow> rights_le b c \<Longrightarrow> rights_le a c"
  by (auto simp: rights_le_bits)

lemma rights_le_antisym: "rights_le a b \<Longrightarrow> rights_le b a \<Longrightarrow> a = b"
  by (auto simp: rights_le_bits bit_eq_iff)

lemma rights_reduce_le: "rights_le (rights_reduce base req) base"
  by (auto simp: rights_reduce_def rights_le_bits bit_simps)

lemma rights_check_le:
  "rights_check r req \<longleftrightarrow> req \<noteq> RIGHT_NONE \<and> rights_le req r"
  by (auto simp: rights_check_def rights_le_def and.commute)

lemma rights_check_mono: "rights_check r req \<Longrightarrow> rights_le r r' \<Longrightarrow> rights_check r' req"
  by (auto simp: rights_check_le intro: rights_le_trans)

lemma same_rights_bit: "bit RIGHT_SAME_RIGHTS n \<longleftrightarrow> n = 31"
proof -
  have "RIGHT_SAME_RIGHTS = 2 ^ 31" by (simp add: RIGHT_SAME_RIGHTS_def)
  moreover have "bit (2 ^ 31 :: u32) n \<longleftrightarrow> n = 31"
    using bit_exp_iff [where ?'a = u32, of 31 n] by auto
  ultimately show ?thesis by (simp only:)
qed

lemma and_same_rights_zero: "(r :: iris_rights) AND RIGHT_SAME_RIGHTS = 0 \<longleftrightarrow> \<not> bit r 31"
proof
  assume "r AND RIGHT_SAME_RIGHTS = 0"
  then have "\<not> bit (r AND RIGHT_SAME_RIGHTS) 31" by simp
  then show "\<not> bit r 31" by (simp add: bit_and_iff same_rights_bit)
qed (auto simp: bit_and_iff same_rights_bit intro!: bit_eqI)

lemma rights_reduce_no_flag: "\<not> bit (rights_reduce base req) 31"
  using and_same_rights_zero [of req]
  by (auto simp: rights_reduce_def bit_simps same_rights_bit)

subsection \<open>Badges\<close>

text \<open>
  \<^verbatim>\<open>mdb_badge_derive\<close>: the status and, on success, the badge of the derived capability.
\<close>

definition mdb_badge_derive :: "u64 \<Rightarrow> u64 \<Rightarrow> kobject_type \<Rightarrow> iris_status + u64" where
  "mdb_badge_derive src_badge requested obj_type =
     (if requested = 0 then Inr src_badge
      else if src_badge \<noteq> 0 \<and> src_badge \<noteq> requested then Inl IRIS_ERR_ACCESS_DENIED
      else if src_badge = 0 \<and> obj_type \<noteq> KOBJ_ENDPOINT \<and> obj_type \<noteq> KOBJ_NOTIFICATION
           then Inl IRIS_ERR_INVALID_ARG
      else Inr requested)"

lemma mdb_badge_derive_fixed:
  "mdb_badge_derive b req ty = Inr b' \<Longrightarrow> b \<noteq> 0 \<Longrightarrow> b' = b"
  by (auto simp: mdb_badge_derive_def split: if_splits)

lemma mdb_badge_derive_fresh:
  "mdb_badge_derive b req ty = Inr b' \<Longrightarrow> b' \<noteq> b \<Longrightarrow>
     b = 0 \<and> ty \<in> {KOBJ_ENDPOINT, KOBJ_NOTIFICATION} \<and> b' = req"
  by (auto simp: mdb_badge_derive_def split: if_splits)

subsection \<open>Attenuation along a chain of derivations\<close>

locale attenuation =
  fixes le :: "'a \<Rightarrow> 'a \<Rightarrow> bool"
    and derive :: "'a \<Rightarrow> 'req \<Rightarrow> 'a option"
  assumes le_refl: "le a a"
    and le_trans: "le a b \<Longrightarrow> le b c \<Longrightarrow> le a c"
    and derive_le: "derive a r = Some b \<Longrightarrow> le b a"
begin

fun derive_chain :: "'a \<Rightarrow> 'req list \<Rightarrow> 'a option" where
  "derive_chain a [] = Some a"
| "derive_chain a (r # rs) = Option.bind (derive a r) (\<lambda>b. derive_chain b rs)"

lemma derive_chain_le: "derive_chain a rs = Some b \<Longrightarrow> le b a"
proof (induction rs arbitrary: a)
  case Nil
  then show ?case by (simp add: le_refl)
next
  case (Cons r rs)
  then obtain c where c: "derive a r = Some c" "derive_chain c rs = Some b"
    by (auto split: bind_splits)
  from Cons.IH [OF c(2)] derive_le [OF c(1)] show ?case by (rule le_trans)
qed

lemma derive_chain_append:
  "derive_chain a (xs @ ys) = Option.bind (derive_chain a xs) (\<lambda>b. derive_chain b ys)"
  by (induction xs arbitrary: a) (auto split: bind_splits)

end

text \<open>
  The authority part of a capability, and the rule \<^verbatim>\<open>kcnode_slot_derive\<close> applies to it:
  the duplicate right gates, rights are intersected, an empty result is refused, the badge
  follows \<open>mdb_badge_derive\<close>.  The authority order adds to the rights order that a set badge
  never changes.
\<close>

type_synonym authority = "iris_rights \<times> u64"

definition authority_derive ::
    "kobject_type \<Rightarrow> authority \<Rightarrow> iris_rights \<times> u64 \<Rightarrow> iris_status + authority" where
  "authority_derive ty src req =
     (if \<not> rights_check (fst src) RIGHT_DUPLICATE then Inl IRIS_ERR_ACCESS_DENIED
      else if rights_reduce (fst src) (fst req) = RIGHT_NONE then Inl IRIS_ERR_INVALID_ARG
      else case mdb_badge_derive (snd src) (snd req) ty of
             Inl e \<Rightarrow> Inl e
           | Inr b \<Rightarrow> Inr (rights_reduce (fst src) (fst req), b))"

definition authority_le :: "authority \<Rightarrow> authority \<Rightarrow> bool" where
  "authority_le a b \<longleftrightarrow> rights_le (fst a) (fst b) \<and> (snd b \<noteq> 0 \<longrightarrow> snd a = snd b)"

definition authority_step ::
    "kobject_type \<Rightarrow> authority \<Rightarrow> iris_rights \<times> u64 \<Rightarrow> authority option" where
  "authority_step ty a r = (case authority_derive ty a r of Inl _ \<Rightarrow> None | Inr b \<Rightarrow> Some b)"

lemma authority_derive_le: "authority_derive ty a r = Inr b \<Longrightarrow> authority_le b a"
  by (auto simp: authority_derive_def authority_le_def rights_reduce_le
           dest: mdb_badge_derive_fixed split: if_splits sum.splits)

lemma authority_derive_nonempty:
  "authority_derive ty a r = Inr b \<Longrightarrow> fst b \<noteq> RIGHT_NONE \<and> \<not> bit (fst b) 31"
  by (auto simp: authority_derive_def rights_reduce_no_flag split: if_splits sum.splits)

lemma authority_le_trans: "authority_le a b \<Longrightarrow> authority_le b c \<Longrightarrow> authority_le a c"
  by (auto simp: authority_le_def intro: rights_le_trans)

interpretation ratt: attenuation rights_le "\<lambda>a r. Some (rights_reduce a r)"
  by unfold_locales (auto simp: rights_reduce_le intro: rights_le_trans)

interpretation aatt: attenuation authority_le "authority_step ty" for ty
  by unfold_locales
    (auto simp: authority_le_def authority_step_def intro: rights_le_trans
          dest: authority_derive_le [unfolded authority_le_def] split: sum.splits)

end
