(* ===== verification/Iris_Forest.thy ===== *)
theory Iris_Forest
  imports Iris_Prelude
begin

text \<open>
  Forests of intrusive sibling lists, as pointer functions.  A node set \<open>N\<close> carries four
  pointer fields: parent, first child, next and previous sibling.  \<open>forest\<close> relates them
  to a layout that gives every node's child list in order, and the sibling lists of the
  roots: \<open>Kids p\<close> is the child list of \<open>p\<close>, \<open>Grp g\<close> a list of parentless nodes.
  One lemma per pointer manipulation says which layout results; \<open>Iris_MDB\<close> applies them
  to the link surgery of \<^verbatim>\<open>kcnode.c\<close>.
\<close>

datatype 'r lkey = Kids 'r | Grp nat

type_synonym 'r layout = "'r lkey \<Rightarrow> 'r list"

fun owner :: "'r lkey \<Rightarrow> 'r option" where
  "owner (Kids p) = Some p"
| "owner (Grp g) = None"

definition opt_upd :: "('a \<Rightarrow> 'b) \<Rightarrow> 'a option \<Rightarrow> 'b \<Rightarrow> ('a \<Rightarrow> 'b)" where
  "opt_upd f r v = (case r of None \<Rightarrow> f | Some x \<Rightarrow> f(x := v))"

lemma opt_upd_simps [simp]:
  "opt_upd f None v = f" "opt_upd f (Some x) v = f(x := v)"
  by (simp_all add: opt_upd_def)

lemma opt_upd_apply: "opt_upd f r v x = (if r = Some x then v else f x)"
  by (cases r) auto

lemma fun_upd_cases: "P y \<Longrightarrow> (k \<noteq> a \<Longrightarrow> P (f k)) \<Longrightarrow> P ((f(a := y)) k)"
  by simp

definition parent_rel :: "('r \<Rightarrow> 'r option) \<Rightarrow> ('r \<times> 'r) set" where
  "parent_rel pa = {(p, s). pa s = Some p}"

lemma parent_rel_iff [simp]: "(p, s) \<in> parent_rel pa \<longleftrightarrow> pa s = Some p"
  by (simp add: parent_rel_def)

definition forest ::
    "'r set \<Rightarrow> ('r \<Rightarrow> 'r option) \<Rightarrow> ('r \<Rightarrow> 'r option) \<Rightarrow> ('r \<Rightarrow> 'r option) \<Rightarrow> ('r \<Rightarrow> 'r option)
      \<Rightarrow> 'r layout \<Rightarrow> bool" where
  "forest N pa fc nx pv L \<longleftrightarrow>
     finite N \<and>
     (\<forall>k. distinct (L k)) \<and>
     (\<forall>k. dseg nx pv None (L k) None) \<and>
     (\<forall>k k' s. s \<in> set (L k) \<longrightarrow> s \<in> set (L k') \<longrightarrow> k = k') \<and>
     (\<forall>s. s \<in> N \<longleftrightarrow> (\<exists>k. s \<in> set (L k))) \<and>
     (\<forall>k s. s \<in> set (L k) \<longrightarrow> pa s = owner k) \<and>
     (\<forall>p. fc p = head_or (L (Kids p)) None) \<and>
     (\<forall>p. L (Kids p) \<noteq> [] \<longrightarrow> p \<in> N) \<and>
     acyclic (parent_rel pa) \<and>
     (\<forall>s. s \<notin> N \<longrightarrow> pa s = None \<and> nx s = None \<and> pv s = None)"

lemma forestI:
  assumes "finite N" "\<And>k. distinct (L k)" "\<And>k. dseg nx pv None (L k) None"
    "\<And>k k' s. s \<in> set (L k) \<Longrightarrow> s \<in> set (L k') \<Longrightarrow> k = k'"
    "\<And>s k. s \<in> set (L k) \<Longrightarrow> s \<in> N" "\<And>s. s \<in> N \<Longrightarrow> \<exists>k. s \<in> set (L k)"
    "\<And>k s. s \<in> set (L k) \<Longrightarrow> pa s = owner k"
    "\<And>p. fc p = head_or (L (Kids p)) None" "\<And>p. L (Kids p) \<noteq> [] \<Longrightarrow> p \<in> N"
    "acyclic (parent_rel pa)"
    "\<And>s. s \<notin> N \<Longrightarrow> pa s = None" "\<And>s. s \<notin> N \<Longrightarrow> nx s = None" "\<And>s. s \<notin> N \<Longrightarrow> pv s = None"
  shows "forest N pa fc nx pv L"
  unfolding forest_def using assms by (intro conjI allI impI iffI) blast+

lemma forest_finite: "forest N pa fc nx pv L \<Longrightarrow> finite N"
  and forest_distinct: "forest N pa fc nx pv L \<Longrightarrow> distinct (L k)"
  and forest_dseg: "forest N pa fc nx pv L \<Longrightarrow> dseg nx pv None (L k) None"
  and forest_disj: "forest N pa fc nx pv L \<Longrightarrow> s \<in> set (L k) \<Longrightarrow> s \<in> set (L k') \<Longrightarrow> k = k'"
  and forest_mem: "forest N pa fc nx pv L \<Longrightarrow> s \<in> N \<longleftrightarrow> (\<exists>k. s \<in> set (L k))"
  and forest_par: "forest N pa fc nx pv L \<Longrightarrow> s \<in> set (L k) \<Longrightarrow> pa s = owner k"
  and forest_fc: "forest N pa fc nx pv L \<Longrightarrow> fc p = head_or (L (Kids p)) None"
  and forest_kids_node: "forest N pa fc nx pv L \<Longrightarrow> L (Kids p) \<noteq> [] \<Longrightarrow> p \<in> N"
  and forest_acyclic: "forest N pa fc nx pv L \<Longrightarrow> acyclic (parent_rel pa)"
  and forest_clean: "forest N pa fc nx pv L \<Longrightarrow> s \<notin> N \<Longrightarrow> pa s = None \<and> nx s = None \<and> pv s = None"
  unfolding forest_def by blast+

lemmas forestD = forest_finite forest_distinct forest_dseg forest_disj forest_mem forest_par
  forest_fc forest_kids_node forest_acyclic forest_clean

lemma forest_in: "forest N pa fc nx pv L \<Longrightarrow> s \<in> set (L k) \<Longrightarrow> s \<in> N"
  by (auto simp: forest_mem)

lemma forest_kids:
  assumes "forest N pa fc nx pv L"
  shows "c \<in> set (L (Kids p)) \<longleftrightarrow> pa c = Some p"
proof
  assume "pa c = Some p"
  then have "c \<in> N" using forest_clean [OF assms, of c] by auto
  then obtain k where k: "c \<in> set (L k)" using assms by (auto simp: forest_mem)
  then have "owner k = Some p" using forest_par [OF assms k] \<open>pa c = Some p\<close> by simp
  then show "c \<in> set (L (Kids p))" using k by (cases k) auto
qed (use forest_par [OF assms] in force)

lemma forest_no_self: "forest N pa fc nx pv L \<Longrightarrow> pa s \<noteq> Some s"
  using forest_acyclic [of N pa fc nx pv L]
  by (auto simp: acyclic_def dest!: spec [of _ s])

lemma forest_parent_node: "forest N pa fc nx pv L \<Longrightarrow> pa s = Some p \<Longrightarrow> p \<in> N"
  using forest_kids [of N pa fc nx pv L s p] forest_kids_node [of N pa fc nx pv L p]
  by (cases "L (Kids p)") auto

lemma forest_leaf:
  assumes "forest N pa fc nx pv L" and "L (Kids s) = []"
  shows "pa c \<noteq> Some s"
  using forest_kids [OF assms(1), of c s] assms(2) by auto

lemma forest_sibs:
  assumes "forest N pa fc nx pv L" and "L k = as @ s # bs"
  shows "pv s = last_or as None" and "nx s = head_or bs None"
  using forest_dseg [OF assms(1), of k] by (simp_all add: assms(2))

subsection \<open>Inserting a node\<close>

lemma forest_link_child:
  assumes f: "forest N pa fc nx pv L" and s: "s \<notin> N" and p: "p \<in> N"
  shows "forest (insert s N) (pa(s := Some p)) (fc(p := Some s)) (nx(s := fc p))
           ((opt_upd pv (fc p) (Some s))(s := None)) (L(Kids p := s # L (Kids p)))"
proof -
  let ?L = "L(Kids p := s # L (Kids p))"
  have sL: "s \<notin> set (L k)" for k using forest_in [OF f] s by auto
  have sp: "s \<noteq> p" using s p by auto
  have fcp: "fc p = head_or (L (Kids p)) None" by (rule forest_fc [OF f])
  have Ls: "L (Kids s) = []" using forest_kids_node [OF f, of s] s by auto
  have new: "dseg (nx(s := fc p)) ((opt_upd pv (fc p) (Some s))(s := None)) None
      (s # L (Kids p)) None"
  proof (cases "L (Kids p)")
    case Nil
    then show ?thesis by (simp add: fcp)
  next
    case (Cons c cs)
    have "dseg nx pv None (c # cs) None" using forest_dseg [OF f, of "Kids p"] Cons by simp
    moreover have "c \<notin> set cs" "s \<noteq> c" "s \<notin> set cs"
      using forest_distinct [OF f, of "Kids p"] sL [of "Kids p"] Cons by auto
    ultimately show ?thesis by (simp add: fcp Cons)
  qed
  have old: "dseg (nx(s := fc p)) ((opt_upd pv (fc p) (Some s))(s := None)) None (L k) None"
    if "k \<noteq> Kids p" for k
  proof -
    have "x \<notin> set (L k)" if "fc p = Some x" for x
      using that forest_disj [OF f, of x k "Kids p"] \<open>k \<noteq> Kids p\<close>
      by (cases "L (Kids p)") (auto simp: fcp)
    then show ?thesis
      using forest_dseg [OF f, of k] sL [of k] by (cases "fc p") auto
  qed
  show ?thesis
  proof (rule forestI)
    show "finite (insert s N)" using forest_finite [OF f] by simp
    show "distinct (?L k)" for k using forest_distinct [OF f] sL by simp
    show "dseg (nx(s := fc p)) ((opt_upd pv (fc p) (Some s))(s := None)) None (?L k) None" for k
      by (rule fun_upd_cases [where P = "\<lambda>xs. dseg (nx(s := fc p))
            ((opt_upd pv (fc p) (Some s))(s := None)) None xs None"]) (rule new, rule old)
    show "k = k'" if "x \<in> set (?L k)" "x \<in> set (?L k')" for k k' x
      using that sL forest_disj [OF f, of x k k'] by (auto split: if_splits)
    show "x \<in> insert s N" if "x \<in> set (?L k)" for x k
      using that forest_in [OF f, of x k] by (auto split: if_splits)
    show "\<exists>k. x \<in> set (?L k)" if "x \<in> insert s N" for x
    proof (cases "x = s")
      case True
      then show ?thesis by (auto intro: exI [of _ "Kids p"])
    next
      case False
      with that obtain k where "x \<in> set (L k)" using f by (auto simp: forest_mem)
      then show ?thesis by (auto intro: exI [of _ k])
    qed
    show "(pa(s := Some p)) x = owner k" if "x \<in> set (?L k)" for k x
      using that forest_par [OF f, of x k] sL by (auto split: if_splits)
    show "(fc(p := Some s)) q = head_or (?L (Kids q)) None" for q
      using forest_fc [OF f, of q] by simp
    show "q \<in> insert s N" if "?L (Kids q) \<noteq> []" for q
      using that forest_kids_node [OF f, of q] p by (auto split: if_splits)
    have "parent_rel (pa(s := Some p)) = insert (p, s) (parent_rel pa)"
      using forest_clean [OF f s] by (auto simp: parent_rel_def)
    moreover have "(s, y) \<notin> parent_rel pa" for y
      using forest_leaf [OF f Ls] by simp
    ultimately show "acyclic (parent_rel (pa(s := Some p)))"
      using acyclic_insert_fresh [OF forest_acyclic [OF f], of s p] sp by simp
    fix x assume x: "x \<notin> insert s N"
    have "fc p \<noteq> Some x"
      using x forest_in [OF f, of x "Kids p"] by (cases "L (Kids p)") (auto simp: fcp)
    then show "((opt_upd pv (fc p) (Some s))(s := None)) x = None"
      using x forest_clean [OF f, of x] by (auto simp: opt_upd_apply)
    show "(pa(s := Some p)) x = None" "(nx(s := fc p)) x = None"
      using x forest_clean [OF f, of x] by auto
  qed
qed

lemma forest_new_root:
  assumes f: "forest N pa fc nx pv L" and s: "s \<notin> N" and g: "L (Grp g) = []"
  shows "forest (insert s N) pa fc nx pv (L(Grp g := [s]))"
proof -
  let ?L = "L(Grp g := [s])"
  have sL: "s \<notin> set (L k)" for k using forest_in [OF f] s by auto
  show ?thesis
  proof (rule forestI)
    show "\<exists>k. x \<in> set (?L k)" if "x \<in> insert s N" for x
    proof (cases "x = s")
      case False
      with that obtain k where "x \<in> set (L k)" using f by (auto simp: forest_mem)
      then show ?thesis using g by (auto intro: exI [of _ k])
    qed (auto intro: exI [of _ "Grp g"])
    show "dseg nx pv None (?L k) None" for k
      using forest_dseg [OF f, of k] forest_clean [OF f s] by simp
    show "k = k'" if "x \<in> set (?L k)" "x \<in> set (?L k')" for k k' x
      using that sL forest_disj [OF f, of x k k'] by (auto split: if_splits)
    show "x \<in> insert s N" if "x \<in> set (?L k)" for x k
      using that forest_in [OF f, of x k] by (auto split: if_splits)
    show "pa x = owner k" if "x \<in> set (?L k)" for k x
      using that forest_par [OF f, of x k] forest_clean [OF f s] by (auto split: if_splits)
    show "q \<in> insert s N" if "?L (Kids q) \<noteq> []" for q
      using that forest_kids_node [OF f, of q] by simp
    show "pa x = None" "nx x = None" "pv x = None" if "x \<notin> insert s N" for x
      using that forest_clean [OF f, of x] by auto
  qed (use forest_finite [OF f] forest_distinct [OF f] forest_fc [OF f] forest_acyclic [OF f]
       in auto)
qed

lemma forest_fresh_group:
  assumes f: "forest N pa fc nx pv L"
  shows "\<exists>g. L (Grp g) = []"
proof (rule ccontr)
  assume "\<not> ?thesis"
  then have ne: "L (Grp g) \<noteq> []" for g by auto
  let ?h = "\<lambda>g. hd (L (Grp g))"
  have "inj ?h"
  proof (rule injI)
    fix g g' assume "?h g = ?h g'"
    moreover have "?h g \<in> set (L (Grp g))" "?h g' \<in> set (L (Grp g'))" using ne by auto
    ultimately show "g = g'" using forest_disj [OF f, of "?h g" "Grp g" "Grp g'"] by simp
  qed
  moreover have "range ?h \<subseteq> N"
  proof
    fix x assume "x \<in> range ?h"
    then obtain g where "x = ?h g" by blast
    then show "x \<in> N" using forest_in [OF f, of x "Grp g"] hd_in_set [OF ne [of g]] by simp
  qed
  then have "finite (range ?h)" using forest_finite [OF f] by (rule finite_subset)
  ultimately show False by (simp add: finite_image_iff)
qed

subsection \<open>Removing a leaf\<close>

lemma forest_unlink:
  assumes f: "forest N pa fc nx pv L" and k: "L k = as @ s # bs" and leaf: "L (Kids s) = []"
  shows "forest (N - {s}) (pa(s := None))
           (if pv s = None then opt_upd fc (pa s) (nx s) else fc)
           ((opt_upd nx (pv s) (nx s))(s := None)) ((opt_upd pv (nx s) (pv s))(s := None))
           (L(k := as @ bs))"
proof -
  let ?L = "L(k := as @ bs)"
  let ?nx = "(opt_upd nx (pv s) (nx s))(s := None)"
  let ?pv = "(opt_upd pv (nx s) (pv s))(s := None)"
  let ?fc = "if pv s = None then opt_upd fc (pa s) (nx s) else fc"
  have dk: "distinct (as @ s # bs)" using forest_distinct [OF f, of k] k by simp
  have sib: "pv s = last_or as None" "nx s = head_or bs None" by (rule forest_sibs [OF f k])+
  have sk: "s \<in> set (L k)" using k by simp
  have seg: "dseg nx pv None (as @ s # bs) None" using forest_dseg [OF f, of k] k by simp
  have kin: "x \<in> set (L j) \<longleftrightarrow> x \<in> set (?L j) \<or> (x = s \<and> j = k)" for x j
    using k by auto
  have sno: "s \<notin> set (?L j)" for j
    using dk forest_disj [OF f sk, of j] by auto
  have pvin: "x \<in> set (L k)" if "pv s = Some x" for x
    using that k by (cases as rule: rev_cases) (auto simp: sib)
  have nxin: "x \<in> set (L k)" if "nx s = Some x" for x
    using that k by (cases bs) (auto simp: sib)
  have other: "dseg ?nx ?pv None (L j) None" if "j \<noteq> k" for j
  proof -
    have "pv s \<noteq> Some x" "nx s \<noteq> Some x" "x \<noteq> s" if "x \<in> set (L j)" for x
      using pvin nxin sk forest_disj [OF f that, of k] \<open>j \<noteq> k\<close> by blast+
    then have "dseg ?nx ?pv None (L j) None \<longleftrightarrow> dseg nx pv None (L j) None"
      by (intro dseg_cong) (auto simp: opt_upd_apply)
    then show ?thesis using forest_dseg [OF f] by simp
  qed
  have self: "dseg ?nx ?pv None (as @ bs) None"
  proof -
    have A: "dseg ?nx ?pv None as (head_or bs None)"
    proof (cases as rule: rev_cases)
      case (snoc as' a)
      have "dseg ?nx ?pv None as' (Some a) \<longleftrightarrow> dseg nx pv None as' (Some a)"
      proof (rule dseg_cong)
        fix x assume x: "x \<in> set as'"
        show "?nx x = nx x" using x dk snoc by (auto simp: opt_upd_apply sib)
        have "nx s \<noteq> Some x" using x dk snoc by (cases bs) (auto simp: sib)
        then show "?pv x = pv x" using x dk snoc by (auto simp: opt_upd_apply)
      qed
      moreover have "nx s \<noteq> Some a" using dk snoc by (cases bs) (auto simp: sib)
      ultimately show ?thesis using seg dk snoc by (auto simp: opt_upd_apply sib)
    qed simp
    moreover have B: "dseg ?nx ?pv (last_or as None) bs None"
    proof (cases bs)
      case (Cons b bs')
      have ne: "pv s \<noteq> Some x" "x \<noteq> s" if "x \<in> set bs" for x
        using that dk by (cases as rule: rev_cases; auto simp: sib)+
      have "dseg ?nx ?pv (Some b) bs' None \<longleftrightarrow> dseg nx pv (Some b) bs' None"
      proof (rule dseg_cong)
        fix x assume x: "x \<in> set bs'"
        show "?nx x = nx x" using x ne [of x] Cons by (auto simp: opt_upd_apply)
        show "?pv x = pv x" using x dk Cons by (auto simp: opt_upd_apply sib)
      qed
      then show ?thesis using seg dk Cons ne [of b] by (auto simp: opt_upd_apply sib)
    qed simp
    ultimately show ?thesis by simp
  qed
  show ?thesis
  proof (rule forestI)
    show "finite (N - {s})" using forest_finite [OF f] by simp
    show "distinct (?L j)" for j using forest_distinct [OF f, of j] dk by auto
    show "dseg ?nx ?pv None (?L j) None" for j
      by (rule fun_upd_cases [where P = "\<lambda>xs. dseg ?nx ?pv None xs None"])
        (rule self, rule other)
    show "j = j'" if "x \<in> set (?L j)" "x \<in> set (?L j')" for j j' x
      using that kin forest_disj [OF f, of x j j'] by blast
    show "x \<in> N - {s}" if "x \<in> set (?L j)" for x j
      using that kin [of x j] sno [of j] forest_in [OF f, of x j] by auto
    show "\<exists>j. x \<in> set (?L j)" if "x \<in> N - {s}" for x
      using that kin forest_mem [OF f, of x] by blast
    show "(pa(s := None)) x = owner j" if "x \<in> set (?L j)" for j x
      using that kin [of x j] sno [of j] forest_par [OF f, of x j] by auto
    show "?fc q = head_or (?L (Kids q)) None" for q
    proof (cases "k = Kids q")
      case True
      then have "pa s = Some q" using forest_par [OF f sk] by simp
      moreover have "fc q = head_or (as @ s # bs) None" using True forest_fc [OF f, of q] k by simp
      ultimately show ?thesis using True by (cases as) (auto simp: sib)
    next
      case False
      then have "pa s \<noteq> Some q" using forest_par [OF f sk] by (cases k) auto
      then show ?thesis using False forest_fc [OF f, of q] by (auto simp: opt_upd_apply)
    qed
    show "q \<in> N - {s}" if "?L (Kids q) \<noteq> []" for q
      using that forest_kids_node [OF f, of q] leaf k by (auto split: if_splits)
    have "parent_rel (pa(s := None)) \<subseteq> parent_rel pa" by (auto simp: parent_rel_def)
    then show "acyclic (parent_rel (pa(s := None)))"
      using acyclic_subset forest_acyclic [OF f] by blast
    fix x assume x: "x \<notin> N - {s}"
    show "(pa(s := None)) x = None" using x forest_clean [OF f, of x] by auto
    have "x = s \<or> (pv s \<noteq> Some x \<and> nx s \<noteq> Some x)"
      using x pvin nxin forest_in [OF f, of x k] by blast
    then show "?nx x = None" "?pv x = None"
      using x forest_clean [OF f, of x] by (auto simp: opt_upd_apply)
  qed
qed

subsection \<open>Handing the children to the grandparent\<close>

lemma dseg_glue:
  assumes seg1: "dseg nx pv None xs None" and seg2: "dseg nx pv None ys None"
    and ne: "xs \<noteq> []" "ys \<noteq> []" and d: "distinct (xs @ ys)"
  shows "dseg (nx(last xs := Some (hd ys))) (pv(hd ys := Some (last xs))) None (xs @ ys) None"
proof -
  obtain xs' x where xs: "xs = xs' @ [x]" using ne(1) by (cases xs rule: rev_cases) auto
  obtain y ys' where ys: "ys = y # ys'" using ne(2) by (cases ys) auto
  have "dseg (nx(x := Some y)) (pv(y := Some x)) None xs' (Some x) \<longleftrightarrow> dseg nx pv None xs' (Some x)"
    "dseg (nx(x := Some y)) (pv(y := Some x)) (Some y) ys' None \<longleftrightarrow> dseg nx pv (Some y) ys' None"
    using d by (auto simp: xs ys intro!: dseg_cong)
  then show ?thesis using seg1 seg2 d by (auto simp: xs ys)
qed

lemma forest_splice:
  assumes f: "forest N pa fc nx pv L" and cs: "L (Kids s) = cs" "cs \<noteq> []"
    and s: "pa s = Some p" and h: "fc p = Some h"
  shows "forest N (\<lambda>x. if x \<in> set cs then Some p else pa x) (fc(p := Some (hd cs), s := None))
           (nx(last cs := Some h)) (pv(h := Some (last cs)))
           (L(Kids p := cs @ L (Kids p), Kids s := []))"
proof -
  let ?L = "L(Kids p := cs @ L (Kids p), Kids s := [])"
  let ?pa = "\<lambda>x. if x \<in> set cs then Some p else pa x"
  let ?nx = "nx(last cs := Some h)" and ?pv = "pv(h := Some (last cs))"
  have sp: "s \<noteq> p" using forest_no_self [OF f, of s] s by auto
  have smem: "s \<in> set (L (Kids p))" using forest_kids [OF f] s by simp
  have hh: "h = hd (L (Kids p))" "L (Kids p) \<noteq> []"
    using h forest_fc [OF f, of p] by (cases "L (Kids p)"; auto)+
  have inN: "p \<in> N" "s \<in> N" using forest_parent_node [OF f s] forest_in [OF f smem] by auto
  have csk: "x \<in> set cs \<longleftrightarrow> x \<in> set (L (Kids s))" for x using cs by simp
  have disj: "x \<in> set cs \<Longrightarrow> x \<in> set (L k) \<Longrightarrow> k = Kids s" for x k
    using forest_disj [OF f, of x k "Kids s"] cs by auto
  have lastin: "last cs \<in> set cs" and hin: "h \<in> set (L (Kids p))" using cs(2) hh by auto
  have d: "distinct (cs @ L (Kids p))"
    using forest_distinct [OF f, of "Kids s"] forest_distinct [OF f, of "Kids p"] disj [of _ "Kids p"] sp cs
    by auto
  have glued: "dseg ?nx ?pv None (cs @ L (Kids p)) None"
    using dseg_glue [of nx pv cs "L (Kids p)"] forest_dseg [OF f, of "Kids s"]
      forest_dseg [OF f, of "Kids p"] cs hh d by simp
  have other: "dseg ?nx ?pv None (L k) None" if "k \<noteq> Kids p" "k \<noteq> Kids s" for k
  proof -
    have "last cs \<notin> set (L k)" "h \<notin> set (L k)"
      using that disj [OF lastin, of k] forest_disj [OF f hin, of k] by auto
    then show ?thesis using forest_dseg [OF f, of k] by simp
  qed
  have kin: "x \<in> set (?L k) \<longleftrightarrow> (if x \<in> set cs then k = Kids p else x \<in> set (L k))" for x k
  proof -
    consider "k = Kids s" | "k = Kids p" "k \<noteq> Kids s" | "k \<noteq> Kids s" "k \<noteq> Kids p" by blast
    then show ?thesis using sp cs(1) disj [of x k] by cases auto
  qed
  show ?thesis
  proof (rule forestI)
    show "finite N" by (rule forest_finite [OF f])
    show "distinct (?L k)" for k using forest_distinct [OF f, of k] d by simp
    show "dseg ?nx ?pv None (?L k) None" for k
    proof -
      consider "k = Kids s" | "k = Kids p" | "k \<noteq> Kids s" "k \<noteq> Kids p" by blast
      then show ?thesis using sp glued other [of k] by cases (simp_all del: dseg_append)
    qed
    show "k = k'" if "x \<in> set (?L k)" "x \<in> set (?L k')" for k k' x
      using that forest_disj [OF f, of x k k'] unfolding kin by (auto split: if_splits)
    show "x \<in> N" if "x \<in> set (?L k)" for x k
      using that forest_in [OF f, of x] cs unfolding kin by (auto split: if_splits)
    show "\<exists>k. x \<in> set (?L k)" if "x \<in> N" for x
      using that forest_mem [OF f, of x] unfolding kin by auto
    show "?pa x = owner k" if "x \<in> set (?L k)" for k x
      using that forest_par [OF f, of x k] unfolding kin by (auto split: if_splits)
    show "(fc(p := Some (hd cs), s := None)) q = head_or (?L (Kids q)) None" for q
      using forest_fc [OF f, of q] cs sp by (cases cs) auto
    show "q \<in> N" if "?L (Kids q) \<noteq> []" for q
      using that forest_kids_node [OF f, of q] inN by (auto split: if_splits)
    have "parent_rel ?pa \<subseteq> (parent_rel pa)\<^sup>+"
    proof
      fix e assume "e \<in> parent_rel ?pa"
      then obtain a b where e: "e = (a, b)" and ab: "?pa b = Some a" by (cases e) auto
      show "e \<in> (parent_rel pa)\<^sup>+"
      proof (cases "b \<in> set cs")
        case True
        then have "pa b = Some s" using forest_kids [OF f, of b s] cs by simp
        moreover have "a = p" using ab True by simp
        ultimately have "(p, s) \<in> parent_rel pa" "(s, b) \<in> parent_rel pa" using s by simp_all
        then have "(p, b) \<in> (parent_rel pa)\<^sup>+" by (meson trancl.simps)
        then show ?thesis using e \<open>a = p\<close> by simp
      qed (use ab e in auto)
    qed
    then show "acyclic (parent_rel ?pa)"
      by (rule acyclic_subset_trancl [OF forest_acyclic [OF f]])
    fix x assume x: "x \<notin> N"
    have "x \<notin> set cs" "x \<noteq> h" "x \<noteq> last cs"
      using x forest_in [OF f, of x "Kids s"] forest_in [OF f hin] cs lastin by auto
    then show "?pa x = None" "?nx x = None" "?pv x = None"
      using x forest_clean [OF f, of x] by auto
  qed
qed

subsection \<open>Promoting the children of a root\<close>

lemma forest_promote:
  assumes f: "forest N pa fc nx pv L" and cs: "L (Kids s) = cs" "cs \<noteq> []"
    and g: "L (Grp g) = as @ s # bs"
  shows "forest (N - {s}) (\<lambda>x. if x \<in> set cs then None else pa x) (fc(s := None))
           ((opt_upd (nx(last cs := nx s)) (pv s) (Some (hd cs)))(s := None))
           ((opt_upd (pv(hd cs := pv s)) (nx s) (Some (last cs)))(s := None))
           (L(Grp g := as @ cs @ bs, Kids s := []))"
proof -
  let ?L = "L(Grp g := as @ cs @ bs, Kids s := [])"
  let ?pa = "\<lambda>x. if x \<in> set cs then None else pa x"
  let ?nx = "(opt_upd (nx(last cs := nx s)) (pv s) (Some (hd cs)))(s := None)"
  let ?pv = "(opt_upd (pv(hd cs := pv s)) (nx s) (Some (last cs)))(s := None)"
  have sg: "s \<in> set (L (Grp g))" using g by simp
  have sib: "pv s = last_or as None" "nx s = head_or bs None" by (rule forest_sibs [OF f g])+
  have disj: "x \<in> set cs \<Longrightarrow> x \<in> set (L k) \<Longrightarrow> k = Kids s" for x k
    using forest_disj [OF f, of x k "Kids s"] cs by auto
  have dg: "distinct (as @ s # bs)" and dc: "distinct cs"
    using forest_distinct [OF f, of "Grp g"] forest_distinct [OF f, of "Kids s"] g cs by simp_all
  have dcg: "x \<notin> set as" "x \<notin> set bs" "x \<noteq> s" if "x \<in> set cs" for x
    using disj [OF that, of "Grp g"] g by auto
  have seg: "dseg nx pv None (as @ s # bs) None" "dseg nx pv None cs None"
    using forest_dseg [OF f, of "Grp g"] forest_dseg [OF f, of "Kids s"] g cs by simp_all
  have pa0: "pa s = None" using forest_par [OF f sg] by simp
  have nxs: "nx s = Some b \<Longrightarrow> b \<in> set bs" and pvs: "pv s = Some a \<Longrightarrow> a \<in> set as" for a b
    using sib by (cases bs; simp) (cases as rule: rev_cases; auto simp: sib)
  have A: "dseg ?nx ?pv None as (Some (hd cs))"
  proof (cases as rule: rev_cases)
    case (snoc as' a)
    have "dseg ?nx ?pv None as' (Some a) \<longleftrightarrow> dseg nx pv None as' (Some a)"
      using snoc dg cs(2) dcg hd_in_set [OF cs(2)] last_in_set [OF cs(2)] nxs
      by (intro dseg_cong) (auto simp: opt_upd_apply sib)
    then show ?thesis
      using seg(1) snoc dg dcg [OF hd_in_set [OF cs(2)]] nxs [of a]
      by (auto simp: opt_upd_apply sib)
  qed simp
  have C: "dseg ?nx ?pv (last_or as None) cs (head_or bs None)"
  proof -
    obtain c cs' where c: "cs = c # cs'" using cs(2) by (cases cs) auto
    have off: "pv s \<noteq> Some x" "nx s \<noteq> Some x" "x \<noteq> s" if "x \<in> set cs" for x
      using dcg [OF that] nxs [of x] pvs [of x] by auto
    have e: "dseg ?nx ?pv (last_or as None) cs (head_or bs None) \<longleftrightarrow>
        dseg (nx(last cs := head_or bs None)) (pv(hd cs := last_or as None))
          (last_or as None) cs (head_or bs None)"
      using off by (intro dseg_cong) (auto simp: opt_upd_apply sib)
    have "dseg (nx(last cs := q)) (pv(hd cs := p)) p cs q" for p q
    proof (cases cs' rule: rev_cases)
      case (snoc ds d)
      have "dseg (nx(d := q)) (pv(c := p)) (Some c) ds (Some d) \<longleftrightarrow> dseg nx pv (Some c) ds (Some d)"
        using dc snoc c by (intro dseg_cong) auto
      then show ?thesis using seg(2) dc snoc c by auto
    qed (simp add: c)
    then show ?thesis using e by simp
  qed
  have B: "dseg ?nx ?pv (Some (last cs)) bs None"
  proof (cases bs)
    case (Cons b bs')
    have "dseg ?nx ?pv (Some b) bs' None \<longleftrightarrow> dseg nx pv (Some b) bs' None"
    proof (rule dseg_cong)
      fix x assume x: "x \<in> set bs'"
      then have "x \<noteq> s" "x \<noteq> last cs" "x \<noteq> hd cs" "pv s \<noteq> Some x" "x \<noteq> b"
        using Cons dg dcg last_in_set [OF cs(2)] hd_in_set [OF cs(2)] pvs [of x] by auto
      then show "?nx x = nx x" "?pv x = pv x" using Cons by (auto simp: opt_upd_apply sib)
    qed
    moreover have "b \<noteq> s" "b \<noteq> last cs" "pv s \<noteq> Some b"
      using Cons dg dcg [OF last_in_set [OF cs(2)]] pvs [of b] by auto
    ultimately show ?thesis using seg(1) Cons by (auto simp: opt_upd_apply sib)
  qed simp
  have main: "dseg ?nx ?pv None (as @ cs @ bs) None"
    using A B C cs(2) by (cases cs) (auto simp: last_or_def)
  have other: "dseg ?nx ?pv None (L k) None" if "k \<noteq> Grp g" "k \<noteq> Kids s" for k
  proof -
    have "x \<noteq> s \<and> x \<noteq> last cs \<and> x \<noteq> hd cs \<and> pv s \<noteq> Some x \<and> nx s \<noteq> Some x"
      if "x \<in> set (L k)" for x
      using that \<open>k \<noteq> Grp g\<close> \<open>k \<noteq> Kids s\<close> disj [of x k] last_in_set [OF cs(2)] hd_in_set [OF cs(2)]
        pvs [of x] nxs [of x] g forest_disj [OF f, of x k "Grp g"] by auto
    then have "dseg ?nx ?pv None (L k) None \<longleftrightarrow> dseg nx pv None (L k) None"
      by (intro dseg_cong) (auto simp: opt_upd_apply)
    then show ?thesis using forest_dseg [OF f] by simp
  qed
  have kin: "x \<in> set (?L k) \<longleftrightarrow> x \<noteq> s \<and> (if x \<in> set cs then k = Grp g else x \<in> set (L k))" for x k
  proof -
    have scs: "s \<notin> set cs" using dcg by blast
    consider (a) "k = Kids s" | (b) "k = Grp g" | (c) "k \<noteq> Kids s" "k \<noteq> Grp g" by blast
    then show ?thesis
    proof cases
      case a
      then show ?thesis by (simp add: cs(1))
    next
      case b
      then show ?thesis using scs dg by (auto simp: g)
    next
      case c
      then have "x \<notin> set cs \<or> x \<notin> set (L k)" "s \<notin> set (L k)"
        using disj [of x k] forest_disj [OF f sg, of k] by auto
      then show ?thesis using c by auto
    qed
  qed
  show ?thesis
  proof (rule forestI)
    show "finite (N - {s})" using forest_finite [OF f] by simp
    show "distinct (?L k)" for k using forest_distinct [OF f, of k] dg dc dcg by auto
    show "dseg ?nx ?pv None (?L k) None" for k
    proof -
      consider "k = Kids s" | "k = Grp g" | "k \<noteq> Kids s" "k \<noteq> Grp g" by blast
      then show ?thesis using main other [of k] by cases (simp_all del: dseg_append)
    qed
    show "k = k'" if "x \<in> set (?L k)" "x \<in> set (?L k')" for k k' x
      using that forest_disj [OF f, of x k k'] unfolding kin by (auto split: if_splits)
    show "x \<in> N - {s}" if "x \<in> set (?L k)" for x k
      using that forest_in [OF f, of x] cs unfolding kin by (auto split: if_splits)
    show "\<exists>k. x \<in> set (?L k)" if "x \<in> N - {s}" for x
      using that forest_mem [OF f, of x] unfolding kin by auto
    show "?pa x = owner k" if "x \<in> set (?L k)" for k x
      using that forest_par [OF f, of x k] unfolding kin by (auto split: if_splits)
    show "(fc(s := None)) q = head_or (?L (Kids q)) None" for q
      using forest_fc [OF f, of q] by simp
    show "q \<in> N - {s}" if "?L (Kids q) \<noteq> []" for q
      using that forest_kids_node [OF f, of q] by (auto split: if_splits)
    have "parent_rel ?pa \<subseteq> parent_rel pa" by (auto simp: parent_rel_def split: if_splits)
    then show "acyclic (parent_rel ?pa)" using acyclic_subset forest_acyclic [OF f] by blast
    fix x assume x: "x \<notin> N - {s}"
    have inN: "y \<in> N" if "y \<in> set cs \<or> y \<in> set as \<or> y \<in> set bs" for y
      using that forest_in [OF f, of y "Kids s"] forest_in [OF f, of y "Grp g"]
      by (auto simp: cs(1) g)
    have "x \<notin> set cs \<and> x \<noteq> last cs \<and> x \<noteq> hd cs \<and> pv s \<noteq> Some x \<and> nx s \<noteq> Some x" if "x \<noteq> s"
    proof -
      have "x \<notin> N" using x that by simp
      then have "x \<notin> set cs" "x \<notin> set as" "x \<notin> set bs" using inN [of x] by blast+
      then show ?thesis
        using last_in_set [OF cs(2)] hd_in_set [OF cs(2)] pvs [of x] nxs [of x] by metis
    qed
    then show "?pa x = None" "?nx x = None" "?pv x = None"
      using x forest_clean [OF f, of x] pa0 by (auto simp: opt_upd_apply)
  qed
qed

subsection \<open>Renaming nodes\<close>

fun map_key :: "('r \<Rightarrow> 'r) \<Rightarrow> 'r lkey \<Rightarrow> 'r lkey" where
  "map_key t (Kids p) = Kids (t p)"
| "map_key t (Grp g) = Grp g"

definition conj_ptr :: "('r \<Rightarrow> 'r) \<Rightarrow> ('r \<Rightarrow> 'r option) \<Rightarrow> ('r \<Rightarrow> 'r option)" where
  "conj_ptr t h = (\<lambda>x. map_option t (h (t x)))"

definition conj_layout :: "('r \<Rightarrow> 'r) \<Rightarrow> 'r layout \<Rightarrow> 'r layout" where
  "conj_layout t L = (\<lambda>k. map t (L (map_key t k)))"

lemma owner_map_key [simp]: "owner (map_key t k) = map_option t (owner k)"
  by (cases k) auto

lemma map_key_invol: "(\<And>x. t (t x) = x) \<Longrightarrow> map_key t (map_key t k) = k"
  by (cases k) auto

lemma forest_rename:
  assumes f: "forest N pa fc nx pv L" and inv: "\<And>x. t (t x) = x"
  shows "forest (t ` N) (conj_ptr t pa) (conj_ptr t fc) (conj_ptr t nx) (conj_ptr t pv)
           (conj_layout t L)"
proof -
  have inj: "inj_on t A" for A using inv by (metis inj_onI)
  have mem: "x \<in> t ` A \<longleftrightarrow> t x \<in> A" for x A using inv by (metis image_iff)
  have km: "map_option t (head_or xs None) = head_or (map t xs) None" for xs by (cases xs) auto
  show ?thesis
  proof (rule forestI)
    show "finite (t ` N)" using forest_finite [OF f] by simp
    show "distinct (conj_layout t L k)" for k
      using forest_distinct [OF f] inj by (simp add: conj_layout_def distinct_map)
    show "dseg (conj_ptr t nx) (conj_ptr t pv) None (conj_layout t L k) None" for k
      using dseg_map [of "L (map_key t k)" "conj_ptr t nx" t nx "conj_ptr t pv" pv None None]
        forest_dseg [OF f, of "map_key t k"] by (simp add: conj_layout_def conj_ptr_def inv)
    show "k = k'" if "x \<in> set (conj_layout t L k)" "x \<in> set (conj_layout t L k')" for k k' x
    proof -
      have "map_key t k = map_key t k'"
        using that forest_disj [OF f, of "t x"] by (auto simp: conj_layout_def mem inv)
      then show ?thesis using map_key_invol [OF inv] by metis
    qed
    show "x \<in> t ` N" if "x \<in> set (conj_layout t L k)" for x k
      using that forest_in [OF f] by (auto simp: conj_layout_def)
    show "\<exists>k. x \<in> set (conj_layout t L k)" if x: "x \<in> t ` N" for x
    proof -
      obtain k where "t x \<in> set (L k)"
        using x mem [of x N] forest_mem [OF f, of "t x"] by blast
      then have "x \<in> set (conj_layout t L (map_key t k))"
        by (simp add: conj_layout_def map_key_invol [OF inv] mem)
      then show ?thesis ..
    qed
    show "conj_ptr t pa x = owner k" if "x \<in> set (conj_layout t L k)" for k x
    proof -
      have "t x \<in> set (L (map_key t k))" using that by (auto simp: conj_layout_def inv)
      from forest_par [OF f this] show ?thesis
        by (simp add: conj_ptr_def option.map_comp comp_def inv option.map_ident)
    qed
    show "conj_ptr t fc q = head_or (conj_layout t L (Kids q)) None" for q
      using forest_fc [OF f, of "t q"] by (simp add: conj_ptr_def conj_layout_def km)
    show "q \<in> t ` N" if "conj_layout t L (Kids q) \<noteq> []" for q
      using that forest_kids_node [OF f, of "t q"] by (simp add: conj_layout_def mem)
    have "parent_rel (conj_ptr t pa) \<subseteq> (\<lambda>(x, y). (t x, t y)) ` parent_rel pa"
    proof
      fix e assume "e \<in> parent_rel (conj_ptr t pa)"
      then obtain p x where e: "e = (p, x)" "conj_ptr t pa x = Some p" by (cases e) auto
      then obtain q where "pa (t x) = Some q" "p = t q" by (auto simp: conj_ptr_def)
      then have "(q, t x) \<in> parent_rel pa" "e = (t q, t (t x))" using e inv by simp_all
      then show "e \<in> (\<lambda>(x, y). (t x, t y)) ` parent_rel pa" by force
    qed
    then show "acyclic (parent_rel (conj_ptr t pa))"
      using acyclic_inj_image [OF forest_acyclic [OF f] inj] acyclic_subset by blast
    show "conj_ptr t pa x = None" "conj_ptr t nx x = None" "conj_ptr t pv x = None"
      if "x \<notin> t ` N" for x
      using that forest_clean [OF f, of "t x"] by (auto simp: conj_ptr_def mem)
  qed
qed

text \<open>Every link has its inverse link, and no link leaves the node set.\<close>

lemma forest_next_prev:
  assumes f: "forest N pa fc nx pv L"
  shows "nx x = Some y \<longleftrightarrow> pv y = Some x"
proof
  assume nx: "nx x = Some y"
  then have "x \<in> N" using forest_clean [OF f, of x] by auto
  then obtain k as bs where k: "L k = as @ x # bs" using forest_mem [OF f] by (metis split_list)
  then obtain bs' where "bs = y # bs'"
    using forest_dseg [OF f, of k] nx by (cases bs) auto
  then show "pv y = Some x" using forest_dseg [OF f, of k] k by simp
next
  assume pv: "pv y = Some x"
  then have "y \<in> N" using forest_clean [OF f, of y] by auto
  then obtain k as bs where k: "L k = as @ y # bs" using forest_mem [OF f] by (metis split_list)
  then have "last_or as None = Some x" using forest_dseg [OF f, of k] pv by simp
  then obtain as' where "as = as' @ [x]" by (cases as rule: rev_cases) auto
  then show "nx x = Some y" using forest_dseg [OF f, of k] k by simp
qed

lemma forest_first_child:
  assumes f: "forest N pa fc nx pv L"
  shows "fc x = Some y \<longleftrightarrow> pa y = Some x \<and> pv y = None"
proof
  assume "fc x = Some y"
  then obtain ys where ys: "L (Kids x) = y # ys"
    using forest_fc [OF f, of x] by (cases "L (Kids x)") auto
  then show "pa y = Some x \<and> pv y = None"
    using forest_kids [OF f, of y x] forest_dseg [OF f, of "Kids x"] by simp
next
  assume y: "pa y = Some x \<and> pv y = None"
  then obtain as bs where k: "L (Kids x) = as @ y # bs"
    using forest_kids [OF f, of y x] by (metis split_list)
  then have "last_or as None = None" using forest_dseg [OF f, of "Kids x"] y by simp
  then have "as = []" by simp
  then show "fc x = Some y" using forest_fc [OF f, of x] k by simp
qed

lemma forest_no_link_out:
  assumes f: "forest N pa fc nx pv L" and b: "b \<notin> N"
  shows "pa x \<noteq> Some b" "fc x \<noteq> Some b" "nx x \<noteq> Some b" "pv x \<noteq> Some b"
    "pa b = None" "fc b = None" "nx b = None" "pv b = None"
proof -
  show c: "pa b = None" "nx b = None" "pv b = None" using forest_clean [OF f b] by auto
  show "pa x \<noteq> Some b" using forest_parent_node [OF f] b by blast
  show "fc x \<noteq> Some b" using forest_first_child [OF f, of x b] c by simp
  show "nx x \<noteq> Some b" "pv x \<noteq> Some b" 
    using forest_next_prev [OF f, of x b] forest_next_prev [OF f, of b x] c by simp_all
  show "fc b = None"
    using forest_kids_node [OF f, of b] forest_fc [OF f, of b] b by (cases "L (Kids b)") auto
qed

lemma forest_no_self_link:
  assumes f: "forest N pa fc nx pv L"
  shows "pa x \<noteq> Some x" "fc x \<noteq> Some x" "nx x \<noteq> Some x" "pv x \<noteq> Some x"
proof -
  show "pa x \<noteq> Some x" by (rule forest_no_self [OF f])
  then show "fc x \<noteq> Some x" using forest_first_child [OF f, of x x] by simp
  show nx: "nx x \<noteq> Some x"
  proof
    assume nx: "nx x = Some x"
    then have "x \<in> N" using forest_clean [OF f, of x] by auto
    then obtain k as bs where k: "L k = as @ x # bs" using forest_mem [OF f] by (metis split_list)
    then have "bs \<noteq> [] \<and> hd bs = x" using forest_dseg [OF f, of k] nx by (cases bs) auto
    then show False using forest_distinct [OF f, of k] k hd_in_set [of bs] by auto
  qed
  then show "pv x \<noteq> Some x" using forest_next_prev [OF f, of x x] by simp
qed

text \<open>Exchanging a node with an unused reference.\<close>

definition exch :: "'r \<Rightarrow> 'r \<Rightarrow> 'r \<Rightarrow> 'r" where
  "exch a b x = (if x = a then b else if x = b then a else x)"

lemma exch_invol [simp]: "exch a b (exch a b x) = x"
  by (simp add: exch_def)

lemma exch_simps [simp]: "exch a b a = b" "exch a b b = a" "x \<noteq> a \<Longrightarrow> x \<noteq> b \<Longrightarrow> exch a b x = x"
  by (simp_all add: exch_def)

lemma conj_ptr_exch:
  assumes "h b = None" "\<And>x. h x \<noteq> Some b" "h a \<noteq> Some a"
  shows "conj_ptr (exch a b) h =
    (\<lambda>x. if x = b then h a else if x = a then None else if h x = Some a then Some b else h x)"
proof (rule ext)
  fix x
  show "conj_ptr (exch a b) h x =
    (if x = b then h a else if x = a then None else if h x = Some a then Some b else h x)"
    using assms(1,3) assms(2) [of x] assms(2) [of a]
    by (cases "h x"; cases "h a") (auto simp: conj_ptr_def exch_def)
qed

lemma exch_image: "a \<in> N \<Longrightarrow> b \<notin> N \<Longrightarrow> exch a b ` N = insert b (N - {a})"
  by (auto simp: exch_def image_iff)

end
