(* ===== verification/Iris_MDB.thy ===== *)
theory Iris_MDB
  imports Iris_Rights Iris_Forest
begin

text \<open>
  The capability derivation tree of \<^verbatim>\<open>kernel/new_core/src/kcnode.c\<close>: slots with intrusive
  parent, first-child and sibling links (\<^verbatim>\<open>struct KCSlot\<close>), the counters the tree keeps, and
  the link surgery every slot mutator is built from.  A slot is addressed by the CNode that
  holds it and its index, or is the stack-resident temporary of a swap.  \<open>mdb_rep\<close> relates
  a store to the layout of \<open>Iris_Forest\<close>; each surgery routine has one refinement lemma
  that says which layout it produces and that it returns.
\<close>

type_synonym oid = nat

datatype slotref = Slot oid nat | Tmp

record kcslot =
  s_object :: "oid option"
  s_rights :: iris_rights
  s_badge :: u64
  mdb_parent :: "slotref option"
  mdb_first_child :: "slotref option"
  mdb_next_sib :: "slotref option"
  mdb_prev_sib :: "slotref option"
  mdb_cnode :: "oid option"
  mdb_flags :: u32
  s_guard :: u64
  s_guard_bits :: u8

definition MDB_FLAG_UNPARENTED :: u32 where "MDB_FLAG_UNPARENTED = 1"

definition empty_slot :: kcslot where
  "empty_slot = \<lparr>s_object = None, s_rights = RIGHT_NONE, s_badge = 0, mdb_parent = None,
     mdb_first_child = None, mdb_next_sib = None, mdb_prev_sib = None, mdb_cnode = None,
     mdb_flags = 0, s_guard = 0, s_guard_bits = 0\<rparr>"

record mdb_counters =
  cdt_derivation_count :: u32
  cdt_derivation_hwm :: u32
  cdt_derived_live :: u32
  cdt_revoke_count :: u32
  cdt_delete_count :: u32
  cdt_cross_cnode_desc :: u32
  cdt_ipc_transfer_count :: u32
  mdb_nodes_live :: u32
  mdb_nodes_hwm :: u32
  mdb_unparented_roots :: u32
  mdb_boot_roots :: u32
  mdb_orphan_promotions :: u32
  mdb_reparents :: u32
  mdb_revoked_nodes :: u32
  mdb_moves :: u32
  mdb_max_depth :: u32

record mdb_state =
  slots :: "slotref \<Rightarrow> kcslot"
  ctr :: mdb_counters

definition upd_slot ::
    "slotref \<Rightarrow> (kcslot \<Rightarrow> kcslot) \<Rightarrow> 'z mdb_state_scheme \<Rightarrow> 'z mdb_state_scheme" where
  "upd_slot r f \<sigma> = \<sigma>\<lparr>slots := (slots \<sigma>)(r := f (slots \<sigma> r))\<rparr>"

definition upd_opt_slot ::
    "slotref option \<Rightarrow> (kcslot \<Rightarrow> kcslot) \<Rightarrow> 'z mdb_state_scheme \<Rightarrow> 'z mdb_state_scheme" where
  "upd_opt_slot r f \<sigma> = (case r of None \<Rightarrow> \<sigma> | Some x \<Rightarrow> upd_slot x f \<sigma>)"

definition upd_ctr ::
    "(mdb_counters \<Rightarrow> mdb_counters) \<Rightarrow> 'z mdb_state_scheme \<Rightarrow> 'z mdb_state_scheme" where
  "upd_ctr f \<sigma> = \<sigma>\<lparr>ctr := f (ctr \<sigma>)\<rparr>"

abbreviation par :: "'z mdb_state_scheme \<Rightarrow> slotref \<Rightarrow> slotref option" where
  "par \<sigma> s \<equiv> mdb_parent (slots \<sigma> s)"
abbreviation fch :: "'z mdb_state_scheme \<Rightarrow> slotref \<Rightarrow> slotref option" where
  "fch \<sigma> s \<equiv> mdb_first_child (slots \<sigma> s)"
abbreviation nxt :: "'z mdb_state_scheme \<Rightarrow> slotref \<Rightarrow> slotref option" where
  "nxt \<sigma> s \<equiv> mdb_next_sib (slots \<sigma> s)"
abbreviation prv :: "'z mdb_state_scheme \<Rightarrow> slotref \<Rightarrow> slotref option" where
  "prv \<sigma> s \<equiv> mdb_prev_sib (slots \<sigma> s)"

subsection \<open>Counters\<close>

text \<open>\<^verbatim>\<open>mdb_note_max\<close>: the compare-exchange loop leaves the larger of the two values.\<close>

definition mdb_note_max :: "u32 \<Rightarrow> u32 \<Rightarrow> u32" where
  "mdb_note_max hwm v = (if v > hwm then v else hwm)"

definition mdb_node_count_inc :: "'z mdb_state_scheme \<Rightarrow> 'z mdb_state_scheme" where
  "mdb_node_count_inc \<sigma> =
     upd_ctr (\<lambda>c. let n = mdb_nodes_live c + 1
                  in c\<lparr>mdb_nodes_live := n, mdb_nodes_hwm := mdb_note_max (mdb_nodes_hwm c) n\<rparr>) \<sigma>"

definition kcnode_cdt_note_ipc_transfer :: "'z mdb_state_scheme \<Rightarrow> 'z mdb_state_scheme" where
  "kcnode_cdt_note_ipc_transfer \<sigma> =
     upd_ctr (\<lambda>c. c\<lparr>cdt_ipc_transfer_count := cdt_ipc_transfer_count c + 1\<rparr>) \<sigma>"

definition kcnode_mdb_freeze_boot_roots :: "'z mdb_state_scheme \<Rightarrow> 'z mdb_state_scheme" where
  "kcnode_mdb_freeze_boot_roots \<sigma> =
     upd_ctr (\<lambda>c. c\<lparr>mdb_boot_roots := mdb_unparented_roots c\<rparr>) \<sigma>"

subsection \<open>Link surgery\<close>

text \<open>\<^verbatim>\<open>mdb_depth_of\<close>: the length of the ancestor chain, \<open>None\<close> if it has no end.\<close>

definition mdb_depth_of :: "'z mdb_state_scheme \<Rightarrow> slotref \<Rightarrow> u32 option" where
  "mdb_depth_of \<sigma> s = map_option (\<lambda>ps. of_nat (length ps)) (walk (par \<sigma>) (par \<sigma> s))"

definition mdb_link_child ::
    "slotref \<Rightarrow> slotref \<Rightarrow> 'z mdb_state_scheme \<Rightarrow> 'z mdb_state_scheme" where
  "mdb_link_child parent child \<sigma> =
     (let \<sigma>1 = upd_slot child (\<lambda>x. x\<lparr>mdb_parent := Some parent, mdb_prev_sib := None,
                                     mdb_next_sib := fch \<sigma> parent\<rparr>) \<sigma>;
          \<sigma>2 = upd_opt_slot (fch \<sigma>1 parent) (\<lambda>x. x\<lparr>mdb_prev_sib := Some child\<rparr>) \<sigma>1
      in upd_slot parent (\<lambda>x. x\<lparr>mdb_first_child := Some child\<rparr>) \<sigma>2)"

definition mdb_unlink_from_parent ::
    "slotref \<Rightarrow> 'z mdb_state_scheme \<Rightarrow> 'z mdb_state_scheme" where
  "mdb_unlink_from_parent s \<sigma> =
     (let \<sigma>1 = (case prv \<sigma> s of
                   Some p \<Rightarrow> upd_slot p (\<lambda>x. x\<lparr>mdb_next_sib := nxt \<sigma> s\<rparr>) \<sigma>
                 | None \<Rightarrow> upd_opt_slot (par \<sigma> s) (\<lambda>x. x\<lparr>mdb_first_child := nxt \<sigma> s\<rparr>) \<sigma>);
          \<sigma>2 = upd_opt_slot (nxt \<sigma>1 s) (\<lambda>x. x\<lparr>mdb_prev_sib := prv \<sigma>1 s\<rparr>) \<sigma>1
      in upd_slot s (\<lambda>x. x\<lparr>mdb_prev_sib := None, mdb_next_sib := None\<rparr>) \<sigma>2)"

text \<open>\<^verbatim>\<open>mdb_clear_node\<close> asserts that no child is left; the assertion is the \<open>None\<close> case.\<close>

definition mdb_clear_node ::
    "slotref \<Rightarrow> 'z mdb_state_scheme \<Rightarrow> 'z mdb_state_scheme option" where
  "mdb_clear_node s \<sigma> =
     (if fch \<sigma> s \<noteq> None then None
      else Some (upd_slot s (\<lambda>x. x\<lparr>mdb_parent := None, mdb_first_child := None,
                   mdb_next_sib := None, mdb_prev_sib := None, mdb_cnode := None,
                   mdb_flags := 0, s_guard := 0, s_guard_bits := 0\<rparr>) \<sigma>))"

text \<open>
  The two child loops of \<^verbatim>\<open>mdb_detach_reparent\<close>: the first counts and remembers the last
  child, the second also moves the promotion counters.
\<close>

partial_function (option) reparent_loop ::
    "slotref option \<Rightarrow> slotref \<Rightarrow> slotref option \<Rightarrow> u32 \<Rightarrow> 'z mdb_state_scheme
      \<Rightarrow> (slotref option \<times> u32 \<times> 'z mdb_state_scheme) option" where
  "reparent_loop c parent lst n \<sigma> =
     (case c of
        None \<Rightarrow> Some (lst, n, \<sigma>)
      | Some x \<Rightarrow> reparent_loop (nxt (upd_slot x (\<lambda>y. y\<lparr>mdb_parent := Some parent\<rparr>) \<sigma>) x)
                   parent (Some x) (n + 1) (upd_slot x (\<lambda>y. y\<lparr>mdb_parent := Some parent\<rparr>) \<sigma>))"

definition promote_one :: "slotref \<Rightarrow> 'z mdb_state_scheme \<Rightarrow> 'z mdb_state_scheme" where
  "promote_one x \<sigma> =
     upd_ctr (\<lambda>c. c\<lparr>mdb_orphan_promotions := mdb_orphan_promotions c + 1,
                    cdt_derived_live := cdt_derived_live c - 1\<rparr>)
       (upd_slot x (\<lambda>y. y\<lparr>mdb_parent := None\<rparr>) \<sigma>)"

partial_function (option) promote_loop ::
    "slotref option \<Rightarrow> slotref option \<Rightarrow> 'z mdb_state_scheme
      \<Rightarrow> (slotref option \<times> 'z mdb_state_scheme) option" where
  "promote_loop c lst \<sigma> =
     (case c of
        None \<Rightarrow> Some (lst, \<sigma>)
      | Some x \<Rightarrow> promote_loop (nxt (promote_one x \<sigma>) x) (Some x) (promote_one x \<sigma>))"

definition mdb_adopt_children ::
    "slotref \<Rightarrow> slotref \<Rightarrow> slotref \<Rightarrow> 'z mdb_state_scheme \<Rightarrow> 'z mdb_state_scheme option" where
  "mdb_adopt_children s parent child \<sigma> = do {
     (lst, n, \<sigma>1) \<leftarrow> reparent_loop (Some child) parent None 0 \<sigma>;
     l \<leftarrow> lst;
     let \<sigma>2 = upd_slot l (\<lambda>x. x\<lparr>mdb_next_sib := fch \<sigma>1 parent\<rparr>) \<sigma>1;
     let \<sigma>3 = upd_opt_slot (fch \<sigma>2 parent) (\<lambda>x. x\<lparr>mdb_prev_sib := Some l\<rparr>) \<sigma>2;
     let \<sigma>4 = upd_slot parent (\<lambda>x. x\<lparr>mdb_first_child := Some child\<rparr>) \<sigma>3;
     Some (upd_ctr (\<lambda>c. c\<lparr>mdb_reparents := mdb_reparents c + n\<rparr>) \<sigma>4)
   }"

definition mdb_promote_children ::
    "slotref \<Rightarrow> slotref \<Rightarrow> 'z mdb_state_scheme \<Rightarrow> 'z mdb_state_scheme option" where
  "mdb_promote_children s child \<sigma> = do {
     (lst, \<sigma>1) \<leftarrow> promote_loop (Some child) None \<sigma>;
     l \<leftarrow> lst;
     let psib = prv \<sigma>1 s;
     let nsib = nxt \<sigma>1 s;
     let \<sigma>2 = upd_slot child (\<lambda>x. x\<lparr>mdb_prev_sib := psib\<rparr>) \<sigma>1;
     let \<sigma>3 = upd_opt_slot psib (\<lambda>x. x\<lparr>mdb_next_sib := Some child\<rparr>) \<sigma>2;
     let \<sigma>4 = upd_slot l (\<lambda>x. x\<lparr>mdb_next_sib := nsib\<rparr>) \<sigma>3;
     let \<sigma>5 = upd_opt_slot nsib (\<lambda>x. x\<lparr>mdb_prev_sib := Some l\<rparr>) \<sigma>4;
     Some (upd_slot s (\<lambda>x. x\<lparr>mdb_prev_sib := None, mdb_next_sib := None\<rparr>) \<sigma>5)
   }"

definition mdb_detach_reparent ::
    "slotref \<Rightarrow> 'z mdb_state_scheme \<Rightarrow> 'z mdb_state_scheme option" where
  "mdb_detach_reparent s \<sigma> = do {
     \<sigma>1 \<leftarrow> (case fch \<sigma> s of
              None \<Rightarrow> Some \<sigma>
            | Some child \<Rightarrow>
                map_option (upd_slot s (\<lambda>x. x\<lparr>mdb_first_child := None\<rparr>))
                  (case par \<sigma> s of
                     Some parent \<Rightarrow> mdb_adopt_children s parent child \<sigma>
                   | None \<Rightarrow> mdb_promote_children s child \<sigma>));
     let \<sigma>2 = (if par \<sigma>1 s \<noteq> None
                then upd_ctr (\<lambda>c. c\<lparr>cdt_derived_live := cdt_derived_live c - 1\<rparr>) \<sigma>1 else \<sigma>1);
     let \<sigma>3 = mdb_unlink_from_parent s \<sigma>2;
     let \<sigma>4 = (if mdb_flags (slots \<sigma>3 s) AND MDB_FLAG_UNPARENTED \<noteq> 0
                then upd_ctr (\<lambda>c. c\<lparr>mdb_unparented_roots := mdb_unparented_roots c - 1\<rparr>) \<sigma>3 else \<sigma>3);
     mdb_clear_node s (upd_ctr (\<lambda>c. c\<lparr>mdb_nodes_live := mdb_nodes_live c - 1\<rparr>) \<sigma>4)
   }"

text \<open>
  \<^verbatim>\<open>mdb_relocate\<close>: content first, then the links, then every neighbour's link to the moved
  node.  The guard fields of the source are not copied.
\<close>

partial_function (option) relink_loop ::
    "slotref option \<Rightarrow> slotref \<Rightarrow> 'z mdb_state_scheme \<Rightarrow> 'z mdb_state_scheme option" where
  "relink_loop c to \<sigma> =
     (case c of
        None \<Rightarrow> Some \<sigma>
      | Some x \<Rightarrow> relink_loop (nxt (upd_slot x (\<lambda>y. y\<lparr>mdb_parent := Some to\<rparr>) \<sigma>) x) to
                   (upd_slot x (\<lambda>y. y\<lparr>mdb_parent := Some to\<rparr>) \<sigma>))"

definition mdb_relocate ::
    "slotref \<Rightarrow> slotref \<Rightarrow> oid \<Rightarrow> 'z mdb_state_scheme \<Rightarrow> 'z mdb_state_scheme option" where
  "mdb_relocate from to to_cn \<sigma> = do {
     let \<sigma>1 = upd_slot to (\<lambda>x. x\<lparr>s_object := s_object (slots \<sigma> from),
                 s_rights := s_rights (slots \<sigma> from), s_badge := s_badge (slots \<sigma> from)\<rparr>) \<sigma>;
     let \<sigma>2 = upd_slot from (\<lambda>x. x\<lparr>s_object := None, s_rights := RIGHT_NONE, s_badge := 0\<rparr>) \<sigma>1;
     let f = slots \<sigma>2 from;
     let \<sigma>3 = upd_slot to (\<lambda>x. x\<lparr>mdb_parent := mdb_parent f, mdb_first_child := mdb_first_child f,
                 mdb_next_sib := mdb_next_sib f, mdb_prev_sib := mdb_prev_sib f,
                 mdb_flags := mdb_flags f, mdb_cnode := Some to_cn\<rparr>) \<sigma>2;
     let \<sigma>4 = (case prv \<sigma>3 to of
                  Some p \<Rightarrow> upd_slot p (\<lambda>x. x\<lparr>mdb_next_sib := Some to\<rparr>) \<sigma>3
                | None \<Rightarrow> upd_opt_slot (par \<sigma>3 to) (\<lambda>x. x\<lparr>mdb_first_child := Some to\<rparr>) \<sigma>3);
     let \<sigma>5 = upd_opt_slot (nxt \<sigma>4 to) (\<lambda>x. x\<lparr>mdb_prev_sib := Some to\<rparr>) \<sigma>4;
     \<sigma>6 \<leftarrow> relink_loop (fch \<sigma>5 to) to \<sigma>5;
     mdb_clear_node from (upd_slot from (\<lambda>x. x\<lparr>mdb_first_child := None\<rparr>) \<sigma>6)
   }"

text \<open>
  \<^verbatim>\<open>kcnode_slot_is_final_cap\<close>: parent, children, the siblings after and the siblings before
  are searched in this order, each search stopping at the first capability that names the
  same object.
\<close>

partial_function (option) chain_names ::
    "(slotref \<Rightarrow> slotref option) \<Rightarrow> (slotref \<Rightarrow> bool) \<Rightarrow> slotref option \<Rightarrow> bool option" where
  "chain_names nx P c =
     (case c of None \<Rightarrow> Some False
      | Some x \<Rightarrow> (if P x then Some True else chain_names nx P (nx x)))"

definition kcnode_slot_is_final_cap :: "'z mdb_state_scheme \<Rightarrow> slotref \<Rightarrow> bool option" where
  "kcnode_slot_is_final_cap \<sigma> s =
     (let names = (\<lambda>x. s_object (slots \<sigma> x) = s_object (slots \<sigma> s)) in
      if s_object (slots \<sigma> s) = None then Some False
      else if (case par \<sigma> s of None \<Rightarrow> False | Some p \<Rightarrow> names p) then Some False
      else do {
        ch \<leftarrow> chain_names (nxt \<sigma>) names (fch \<sigma> s);
        if ch then Some False else do {
          nx \<leftarrow> chain_names (nxt \<sigma>) names (nxt \<sigma> s);
          if nx then Some False else do {
            pv \<leftarrow> chain_names (prv \<sigma>) names (prv \<sigma> s);
            Some (\<not> pv)
          }
        }
      })"

subsection \<open>Views of the store\<close>

definition node :: "'z mdb_state_scheme \<Rightarrow> slotref \<Rightarrow> bool" where
  "node \<sigma> s \<longleftrightarrow> mdb_cnode (slots \<sigma> s) \<noteq> None"

definition mdb_rep :: "'z mdb_state_scheme \<Rightarrow> slotref layout \<Rightarrow> bool" where
  "mdb_rep \<sigma> L \<longleftrightarrow> forest (Collect (node \<sigma>)) (par \<sigma>) (fch \<sigma>) (nxt \<sigma>) (prv \<sigma>) L"

text \<open>What link surgery never touches: the capability itself, its owner and its flags.\<close>

definition content :: "kcslot \<Rightarrow> oid option \<times> iris_rights \<times> u64 \<times> oid option \<times> u32 \<times> u64 \<times> u8" where
  "content x = (s_object x, s_rights x, s_badge x, mdb_cnode x, mdb_flags x, s_guard x, s_guard_bits x)"

lemma slots_upd [simp, link_simps]:
  "slots (upd_slot r f \<sigma>) = (slots \<sigma>)(r := f (slots \<sigma> r))"
  "slots (upd_ctr g \<sigma>) = slots \<sigma>"
  "slots (upd_opt_slot q f \<sigma>) = opt_upd (slots \<sigma>) q (f (slots \<sigma> (the q)))"
  by (simp_all add: upd_slot_def upd_ctr_def upd_opt_slot_def split: option.split)

lemma ctr_upd [simp, link_simps]:
  "ctr (upd_slot r f \<sigma>) = ctr \<sigma>"
  "ctr (upd_ctr g \<sigma>) = g (ctr \<sigma>)"
  "ctr (upd_opt_slot q f \<sigma>) = ctr \<sigma>"
  by (simp_all add: upd_slot_def upd_ctr_def upd_opt_slot_def split: option.split)

lemma more_upd [simp, link_simps]:
  "mdb_state.more (upd_slot r f \<sigma>) = mdb_state.more \<sigma>"
  "mdb_state.more (upd_ctr g \<sigma>) = mdb_state.more \<sigma>"
  "mdb_state.more (upd_opt_slot q f \<sigma>) = mdb_state.more \<sigma>"
  by (simp_all add: upd_slot_def upd_ctr_def upd_opt_slot_def split: option.split)

text \<open>
  The same updates seen through one link field: used with the unfolding of \<open>slots\<close>
  switched off, so that a chain of updates stays a chain of updates of the field.
\<close>

lemma view_upd:
  "mdb_parent (slots (upd_slot r f \<sigma>) x) = ((par \<sigma>)(r := mdb_parent (f (slots \<sigma> r)))) x"
  "mdb_first_child (slots (upd_slot r f \<sigma>) x) = ((fch \<sigma>)(r := mdb_first_child (f (slots \<sigma> r)))) x"
  "mdb_next_sib (slots (upd_slot r f \<sigma>) x) = ((nxt \<sigma>)(r := mdb_next_sib (f (slots \<sigma> r)))) x"
  "mdb_prev_sib (slots (upd_slot r f \<sigma>) x) = ((prv \<sigma>)(r := mdb_prev_sib (f (slots \<sigma> r)))) x"
  by simp_all

lemma view_upd_opt:
  "mdb_parent (slots (upd_opt_slot q f \<sigma>) x) = opt_upd (par \<sigma>) q (mdb_parent (f (slots \<sigma> (the q)))) x"
  "mdb_first_child (slots (upd_opt_slot q f \<sigma>) x) =
     opt_upd (fch \<sigma>) q (mdb_first_child (f (slots \<sigma> (the q)))) x"
  "mdb_next_sib (slots (upd_opt_slot q f \<sigma>) x) = opt_upd (nxt \<sigma>) q (mdb_next_sib (f (slots \<sigma> (the q)))) x"
  "mdb_prev_sib (slots (upd_opt_slot q f \<sigma>) x) = opt_upd (prv \<sigma>) q (mdb_prev_sib (f (slots \<sigma> (the q)))) x"
  by (cases q; simp)+

lemma view_triv:
  "(\<lambda>x. h (slots \<sigma> x))(r := h (slots \<sigma> r)) = (\<lambda>x. h (slots \<sigma> x))"
  "opt_upd (\<lambda>x. h (slots \<sigma> x)) q (h (slots \<sigma> (the q))) = (\<lambda>x. h (slots \<sigma> x))"
  "opt_upd f q (f (the q)) = f"
  by (auto simp: fun_eq_iff opt_upd_apply)

lemma content_upd:
  assumes "\<And>x. content (f x) = content x"
  shows "content (slots (upd_slot r f \<sigma>) x) = content (slots \<sigma> x)"
    and "content (slots (upd_opt_slot q f \<sigma>) x) = content (slots \<sigma> x)"
  using assms by (auto simp: opt_upd_apply)

lemma content_links [simp]:
  "content (x\<lparr>mdb_parent := v\<rparr>) = content x" "content (x\<lparr>mdb_first_child := v\<rparr>) = content x"
  "content (x\<lparr>mdb_next_sib := v\<rparr>) = content x" "content (x\<lparr>mdb_prev_sib := v\<rparr>) = content x"
  by (simp_all add: content_def)

lemmas views = view_upd view_upd_opt view_triv content_upd

lemma mdb_rep_cong:
  assumes "\<And>x. node \<sigma>' x = node \<sigma> x" "\<And>x. par \<sigma>' x = par \<sigma> x" "\<And>x. fch \<sigma>' x = fch \<sigma> x"
    "\<And>x. nxt \<sigma>' x = nxt \<sigma> x" "\<And>x. prv \<sigma>' x = prv \<sigma> x"
  shows "mdb_rep \<sigma>' L \<longleftrightarrow> mdb_rep \<sigma> L"
  unfolding mdb_rep_def using assms by presburger

lemma mdb_rep_upd_ctr [simp]: "mdb_rep (upd_ctr g \<sigma>) L \<longleftrightarrow> mdb_rep \<sigma> L"
  by (rule mdb_rep_cong) (simp_all add: node_def)

lemma link_child_views:
  assumes "s \<noteq> p" "fch \<sigma> p \<noteq> Some s"
  shows "par (mdb_link_child p s \<sigma>) = (par \<sigma>)(s := Some p)"
    and "fch (mdb_link_child p s \<sigma>) = (fch \<sigma>)(p := Some s)"
    and "nxt (mdb_link_child p s \<sigma>) = (nxt \<sigma>)(s := fch \<sigma> p)"
    and "prv (mdb_link_child p s \<sigma>) = (opt_upd (prv \<sigma>) (fch \<sigma> p) (Some s))(s := None)"
    and "content (slots (mdb_link_child p s \<sigma>) x) = content (slots \<sigma> x)"
    and "ctr (mdb_link_child p s \<sigma>) = ctr \<sigma>"
    and "mdb_state.more (mdb_link_child p s \<sigma>) = mdb_state.more \<sigma>"
  using assms
  by (cases "fch \<sigma> p"; auto simp: mdb_link_child_def Let_def content_def fun_eq_iff)+

lemma unlink_views:
  shows "par (mdb_unlink_from_parent s \<sigma>) = par \<sigma>"
    and "fch (mdb_unlink_from_parent s \<sigma>) =
           (if prv \<sigma> s = None then opt_upd (fch \<sigma>) (par \<sigma> s) (nxt \<sigma> s) else fch \<sigma>)"
    and "nxt (mdb_unlink_from_parent s \<sigma>) = (opt_upd (nxt \<sigma>) (prv \<sigma> s) (nxt \<sigma> s))(s := None)"
    and "prv (mdb_unlink_from_parent s \<sigma>) = (opt_upd (prv \<sigma>) (nxt \<sigma> s) (prv \<sigma> s))(s := None)"
    and "content (slots (mdb_unlink_from_parent s \<sigma>) x) = content (slots \<sigma> x)"
    and "ctr (mdb_unlink_from_parent s \<sigma>) = ctr \<sigma>"
    and "mdb_state.more (mdb_unlink_from_parent s \<sigma>) = mdb_state.more \<sigma>"
  by (cases "prv \<sigma> s"; cases "par \<sigma> s"; cases "nxt \<sigma> s";
      auto simp: mdb_unlink_from_parent_def Let_def content_def fun_eq_iff opt_upd_apply)+

text \<open>Giving every node of a list the same parent: what the three child loops compute.\<close>

definition set_parents ::
    "slotref list \<Rightarrow> slotref option \<Rightarrow> 'z mdb_state_scheme \<Rightarrow> 'z mdb_state_scheme" where
  "set_parents cs v \<sigma> =
     \<sigma>\<lparr>slots := (\<lambda>x. if x \<in> set cs then (slots \<sigma> x)\<lparr>mdb_parent := v\<rparr> else slots \<sigma> x)\<rparr>"

lemma set_parents_Nil [simp]: "set_parents [] v \<sigma> = \<sigma>"
  by (simp add: set_parents_def)

lemma set_parents_Cons:
  "set_parents (c # cs) v \<sigma> = set_parents cs v (upd_slot c (\<lambda>y. y\<lparr>mdb_parent := v\<rparr>) \<sigma>)"
  by (auto simp: set_parents_def upd_slot_def fun_eq_iff intro!: arg_cong [where f = "\<lambda>g. \<sigma>\<lparr>slots := g\<rparr>"])

lemma set_parents_views [simp]:
  "par (set_parents cs v \<sigma>) = (\<lambda>x. if x \<in> set cs then v else par \<sigma> x)"
  "fch (set_parents cs v \<sigma>) = fch \<sigma>" "nxt (set_parents cs v \<sigma>) = nxt \<sigma>"
  "prv (set_parents cs v \<sigma>) = prv \<sigma>" "ctr (set_parents cs v \<sigma>) = ctr \<sigma>"
  "content (slots (set_parents cs v \<sigma>) x) = content (slots \<sigma> x)"
  "par (set_parents cs v \<sigma>) x = (if x \<in> set cs then v else par \<sigma> x)"
  "fch (set_parents cs v \<sigma>) x = fch \<sigma> x" "nxt (set_parents cs v \<sigma>) x = nxt \<sigma> x"
  "prv (set_parents cs v \<sigma>) x = prv \<sigma> x"
  "mdb_state.more (set_parents cs v \<sigma>) = mdb_state.more \<sigma>"
  by (auto simp: set_parents_def content_def)

lemma reparent_loop_dseg:
  "dseg (nxt \<sigma>) pv q cs None \<Longrightarrow>
     reparent_loop (head_or cs None) p l n \<sigma> =
       Some (last_or cs l, n + of_nat (length cs), set_parents cs (Some p) \<sigma>)"
proof (induction cs arbitrary: q l n \<sigma>)
  case Nil
  then show ?case by (simp add: reparent_loop.simps)
next
  case (Cons c cs)
  let ?\<sigma> = "upd_slot c (\<lambda>y. y\<lparr>mdb_parent := Some p\<rparr>) \<sigma>"
  have nx: "nxt ?\<sigma> = nxt \<sigma>" by (auto simp: fun_eq_iff)
  then have "dseg (nxt ?\<sigma>) pv (Some c) cs None" using Cons.prems by simp
  from Cons.IH [OF this] Cons.prems nx show ?case
    by (subst reparent_loop.simps) (auto simp: set_parents_Cons add.assoc)
qed

lemma relink_loop_dseg:
  "dseg (nxt \<sigma>) pv q cs None \<Longrightarrow>
     relink_loop (head_or cs None) p \<sigma> = Some (set_parents cs (Some p) \<sigma>)"
proof (induction cs arbitrary: q \<sigma>)
  case Nil
  then show ?case by (simp add: relink_loop.simps)
next
  case (Cons c cs)
  let ?\<sigma> = "upd_slot c (\<lambda>y. y\<lparr>mdb_parent := Some p\<rparr>) \<sigma>"
  have nx: "nxt ?\<sigma> = nxt \<sigma>" by (auto simp: fun_eq_iff)
  then have "dseg (nxt ?\<sigma>) pv (Some c) cs None" using Cons.prems by simp
  from Cons.IH [OF this] Cons.prems nx show ?case
    by (subst relink_loop.simps) (auto simp: set_parents_Cons)
qed

text \<open>The promotion loop, with its counters.\<close>

definition promoted :: "slotref list \<Rightarrow> 'z mdb_state_scheme \<Rightarrow> 'z mdb_state_scheme" where
  "promoted cs \<sigma> =
     upd_ctr (\<lambda>c. c\<lparr>mdb_orphan_promotions := mdb_orphan_promotions c + of_nat (length cs),
                    cdt_derived_live := cdt_derived_live c - of_nat (length cs)\<rparr>)
       (set_parents cs None \<sigma>)"

lemma set_parents_upd_ctr: "set_parents cs v (upd_ctr g \<sigma>) = upd_ctr g (set_parents cs v \<sigma>)"
  by (simp add: set_parents_def upd_ctr_def cong: if_cong)

lemma upd_ctr_upd_ctr: "upd_ctr g (upd_ctr h \<sigma>) = upd_ctr (\<lambda>c. g (h c)) \<sigma>"
  by (simp add: upd_ctr_def)

lemma promote_loop_dseg:
  "dseg (nxt \<sigma>) pv q cs None \<Longrightarrow>
     promote_loop (head_or cs None) l \<sigma> = Some (last_or cs l, promoted cs \<sigma>)"
proof (induction cs arbitrary: q l \<sigma>)
  case Nil
  then show ?case by (simp add: promote_loop.simps promoted_def upd_ctr_def)
next
  case (Cons c cs)
  have nx: "nxt (promote_one c \<sigma>) = nxt \<sigma>" by (auto simp: fun_eq_iff promote_one_def)
  then have "dseg (nxt (promote_one c \<sigma>)) pv (Some c) cs None" using Cons.prems by simp
  from Cons.IH [OF this]
  have "promote_loop (nxt (promote_one c \<sigma>) c) (Some c) (promote_one c \<sigma>) =
      Some (last_or cs (Some c), promoted cs (promote_one c \<sigma>))"
    using Cons.prems fun_cong [OF nx, of c] by simp
  moreover have "promoted cs (promote_one c \<sigma>) = promoted (c # cs) \<sigma>"
    by (simp add: promoted_def promote_one_def set_parents_Cons set_parents_upd_ctr
        upd_ctr_upd_ctr algebra_simps)
  ultimately show ?case by (subst promote_loop.simps) simp
qed

subsection \<open>Refinement: the layout each routine produces\<close>

definition links_of ::
    "kcslot \<Rightarrow> slotref option \<times> slotref option \<times> slotref option \<times> slotref option" where
  "links_of x = (mdb_parent x, mdb_first_child x, mdb_next_sib x, mdb_prev_sib x)"

lemma node_content: "content (slots \<sigma>' x) = content (slots \<sigma> x) \<Longrightarrow> node \<sigma>' x = node \<sigma> x"
  by (simp add: content_def node_def)

lemma rep_in: "mdb_rep \<sigma> L \<Longrightarrow> s \<in> set (L k) \<Longrightarrow> node \<sigma> s"
  unfolding mdb_rep_def by (drule forest_in) auto

lemma rep_node: "mdb_rep \<sigma> L \<Longrightarrow> node \<sigma> s \<longleftrightarrow> (\<exists>k. s \<in> set (L k))"
  unfolding mdb_rep_def by (drule forest_mem [of _ _ _ _ _ _ s]) simp

lemma rep_split:
  assumes "mdb_rep \<sigma> L" "node \<sigma> s"
  obtains k as bs where "L k = as @ s # bs"
  using assms rep_node [of \<sigma> L s] by (auto dest: split_list)

lemma rep_not_child: "mdb_rep \<sigma> L \<Longrightarrow> \<not> node \<sigma> s \<Longrightarrow> fch \<sigma> p \<noteq> Some s"
  using forest_fc [of "Collect (node \<sigma>)" "par \<sigma>" "fch \<sigma>" "nxt \<sigma>" "prv \<sigma>" L p]
    rep_in [of \<sigma> L s "Kids p"]
  by (cases "L (Kids p)") (auto simp: mdb_rep_def)

lemma rep_kids: "mdb_rep \<sigma> L \<Longrightarrow> c \<in> set (L (Kids p)) \<longleftrightarrow> par \<sigma> c = Some p"
  unfolding mdb_rep_def by (rule forest_kids)

lemma rep_par: "mdb_rep \<sigma> L \<Longrightarrow> s \<in> set (L k) \<Longrightarrow> par \<sigma> s = owner k"
  unfolding mdb_rep_def by (rule forest_par)

lemma rep_fch: "mdb_rep \<sigma> L \<Longrightarrow> fch \<sigma> p = head_or (L (Kids p)) None"
  unfolding mdb_rep_def by (rule forest_fc)

lemma rep_dseg: "mdb_rep \<sigma> L \<Longrightarrow> dseg (nxt \<sigma>) (prv \<sigma>) None (L k) None"
  unfolding mdb_rep_def by (rule forest_dseg)

lemma rep_finite: "mdb_rep \<sigma> L \<Longrightarrow> finite (Collect (node \<sigma>))"
  unfolding mdb_rep_def by (rule forest_finite)

lemma rep_distinct: "mdb_rep \<sigma> L \<Longrightarrow> distinct (L k)"
  unfolding mdb_rep_def by (rule forest_distinct)

lemma rep_disj: "mdb_rep \<sigma> L \<Longrightarrow> s \<in> set (L k) \<Longrightarrow> s \<in> set (L k') \<Longrightarrow> k = k'"
  unfolding mdb_rep_def by (rule forest_disj)

lemma rep_clean: "mdb_rep \<sigma> L \<Longrightarrow> \<not> node \<sigma> s \<Longrightarrow> links_of (slots \<sigma> s) = (None, None, None, None)"
  using forest_clean [of "Collect (node \<sigma>)" "par \<sigma>" "fch \<sigma>" "nxt \<sigma>" "prv \<sigma>" L s]
    forest_kids_node [of "Collect (node \<sigma>)" "par \<sigma>" "fch \<sigma>" "nxt \<sigma>" "prv \<sigma>" L s]
    rep_fch [of \<sigma> L s]
  by (auto simp: links_of_def mdb_rep_def)

lemma rep_acyclic: "mdb_rep \<sigma> L \<Longrightarrow> acyclic (parent_rel (par \<sigma>))"
  unfolding mdb_rep_def by (rule forest_acyclic)

text \<open>
  Occupying a slot: the slot's owner is recorded, then it is linked under its parent or
  left as a root of its own.
\<close>

lemma rep_link_child:
  assumes rep: "mdb_rep \<sigma> L" and s: "\<not> node \<sigma> s" and p: "node \<sigma> p"
    and f: "links_of (f (slots \<sigma> s)) = links_of (slots \<sigma> s)" "mdb_cnode (f (slots \<sigma> s)) \<noteq> None"
  shows "mdb_rep (mdb_link_child p s (upd_slot s f \<sigma>)) (L(Kids p := s # L (Kids p)))"
proof -
  let ?\<sigma> = "upd_slot s f \<sigma>"
  have sp: "s \<noteq> p" using s p by auto
  have v: "par ?\<sigma> = par \<sigma>" "fch ?\<sigma> = fch \<sigma>" "nxt ?\<sigma> = nxt \<sigma>" "prv ?\<sigma> = prv \<sigma>"
    using f(1) by (auto simp: fun_eq_iff links_of_def)
  have nc: "fch ?\<sigma> p \<noteq> Some s" using rep_not_child [OF rep s, of p] fun_cong [OF v(2), of p] by simp
  have N: "Collect (node (mdb_link_child p s ?\<sigma>)) = insert s (Collect (node \<sigma>))"
  proof -
    have "node (mdb_link_child p s ?\<sigma>) x = node ?\<sigma> x" for x
      by (rule node_content) (rule link_child_views(5) [OF sp nc])
    then show ?thesis using f(2) by (auto simp: node_def)
  qed
  show ?thesis
    unfolding mdb_rep_def N link_child_views(1-4) [OF sp nc] v
    using forest_link_child [OF rep [unfolded mdb_rep_def], of s p] s p sp by simp
qed

lemma rep_new_root:
  assumes rep: "mdb_rep \<sigma> L" and s: "\<not> node \<sigma> s" and g: "L (Grp g) = []"
    and f: "links_of (f (slots \<sigma> s)) = links_of (slots \<sigma> s)" "mdb_cnode (f (slots \<sigma> s)) \<noteq> None"
  shows "mdb_rep (upd_slot s f \<sigma>) (L(Grp g := [s]))"
proof -
  let ?\<sigma> = "upd_slot s f \<sigma>"
  have v: "par ?\<sigma> = par \<sigma>" "fch ?\<sigma> = fch \<sigma>" "nxt ?\<sigma> = nxt \<sigma>" "prv ?\<sigma> = prv \<sigma>"
    using f(1) by (auto simp: fun_eq_iff links_of_def)
  have N: "Collect (node ?\<sigma>) = insert s (Collect (node \<sigma>))" using f(2) by (auto simp: node_def)
  show ?thesis unfolding mdb_rep_def N v
    using forest_new_root [OF rep [unfolded mdb_rep_def], of s g] s g by simp
qed

lemma rep_fresh_group: "mdb_rep \<sigma> L \<Longrightarrow> \<exists>g. L (Grp g) = []"
  unfolding mdb_rep_def by (rule forest_fresh_group)

text \<open>Taking a leaf out of the tree and clearing its slot.\<close>

lemma rep_remove_leaf:
  assumes rep: "mdb_rep \<sigma> L" and k: "L k = as @ s # bs" and leaf: "L (Kids s) = []"
  shows "\<exists>\<sigma>'. mdb_clear_node s (upd_ctr g (mdb_unlink_from_parent s \<sigma>)) = Some \<sigma>' \<and>
           mdb_rep \<sigma>' (L(k := as @ bs)) \<and>
           (\<forall>x. x \<noteq> s \<longrightarrow> content (slots \<sigma>' x) = content (slots \<sigma> x)) \<and>
           slots \<sigma>' s = empty_slot\<lparr>s_object := s_object (slots \<sigma> s),
              s_rights := s_rights (slots \<sigma> s), s_badge := s_badge (slots \<sigma> s)\<rparr> \<and>
           ctr \<sigma>' = g (ctr \<sigma>) \<and> mdb_state.more \<sigma>' = mdb_state.more \<sigma>"
proof -
  let ?u = "upd_ctr g (mdb_unlink_from_parent s \<sigma>)"
  have fs: "fch \<sigma> s = None" using rep_fch [OF rep, of s] leaf by simp
  have "par \<sigma> s \<noteq> Some s" using rep unfolding mdb_rep_def by (rule forest_no_self)
  then have fu: "fch ?u s = None"
    using fs fun_cong [OF unlink_views(2), of s \<sigma> s] by (auto simp: opt_upd_apply)
  define \<sigma>' where "\<sigma>' = upd_slot s (\<lambda>x. x\<lparr>mdb_parent := None, mdb_first_child := None,
      mdb_next_sib := None, mdb_prev_sib := None, mdb_cnode := None, mdb_flags := 0,
      s_guard := 0, s_guard_bits := 0\<rparr>) ?u"
  have eq: "mdb_clear_node s ?u = Some \<sigma>'" using fu by (simp add: mdb_clear_node_def \<sigma>'_def)
  have v: "par \<sigma>' = (par \<sigma>)(s := None)"
    "fch \<sigma>' = (if prv \<sigma> s = None then opt_upd (fch \<sigma>) (par \<sigma> s) (nxt \<sigma> s) else fch \<sigma>)"
    "nxt \<sigma>' = (opt_upd (nxt \<sigma>) (prv \<sigma> s) (nxt \<sigma> s))(s := None)"
    "prv \<sigma>' = (opt_upd (prv \<sigma>) (nxt \<sigma> s) (prv \<sigma> s))(s := None)"
  proof -
    show "par \<sigma>' = (par \<sigma>)(s := None)"
      using fun_cong [OF unlink_views(1), of s \<sigma>] by (auto simp: \<sigma>'_def fun_eq_iff)
    show "fch \<sigma>' = (if prv \<sigma> s = None then opt_upd (fch \<sigma>) (par \<sigma> s) (nxt \<sigma> s) else fch \<sigma>)"
      using fun_cong [OF unlink_views(2), of s \<sigma>] fu by (auto simp: \<sigma>'_def fun_eq_iff)
    show "nxt \<sigma>' = (opt_upd (nxt \<sigma>) (prv \<sigma> s) (nxt \<sigma> s))(s := None)"
      using fun_cong [OF unlink_views(3), of s \<sigma>] by (auto simp: \<sigma>'_def fun_eq_iff)
    show "prv \<sigma>' = (opt_upd (prv \<sigma>) (nxt \<sigma> s) (prv \<sigma> s))(s := None)"
      using fun_cong [OF unlink_views(4), of s \<sigma>] by (auto simp: \<sigma>'_def fun_eq_iff)
  qed
  have c: "content (slots \<sigma>' x) = content (slots \<sigma> x)" if "x \<noteq> s" for x
    using that unlink_views(5) [of s \<sigma> x] by (simp add: \<sigma>'_def)
  have N: "Collect (node \<sigma>') = Collect (node \<sigma>) - {s}"
  proof -
    have "node \<sigma>' x \<longleftrightarrow> node \<sigma> x" if "x \<noteq> s" for x using c [OF that] by (rule node_content)
    moreover have "\<not> node \<sigma>' s" by (simp add: \<sigma>'_def node_def)
    ultimately have "node \<sigma>' x \<longleftrightarrow> node \<sigma> x \<and> x \<noteq> s" for x by metis
    then show ?thesis by blast
  qed
  have "mdb_rep \<sigma>' (L(k := as @ bs))"
    unfolding mdb_rep_def N v by (rule forest_unlink [OF rep [unfolded mdb_rep_def] k leaf])
  moreover have "slots \<sigma>' s = empty_slot\<lparr>s_object := s_object (slots \<sigma> s),
              s_rights := s_rights (slots \<sigma> s), s_badge := s_badge (slots \<sigma> s)\<rparr>"
    using unlink_views(5) [of s \<sigma> s] by (simp add: \<sigma>'_def empty_slot_def content_def)
  ultimately show ?thesis
    using eq c by (auto simp: \<sigma>'_def unlink_views(6,7))
qed

text \<open>
  Handing the children to the parent, and promoting them where there is none.  Both end with
  the deleted node childless.
\<close>

lemma rep_adopt:
  assumes rep: "mdb_rep \<sigma> L" and cs: "L (Kids s) = cs" "cs \<noteq> []" and s: "par \<sigma> s = Some p"
  shows "\<exists>\<sigma>'. map_option (upd_slot s (\<lambda>x. x\<lparr>mdb_first_child := None\<rparr>))
             (mdb_adopt_children s p (hd cs) \<sigma>) = Some \<sigma>' \<and>
           mdb_rep \<sigma>' (L(Kids p := cs @ L (Kids p), Kids s := [])) \<and>
           (\<forall>x. content (slots \<sigma>' x) = content (slots \<sigma> x)) \<and>
           ctr \<sigma>' = (ctr \<sigma>)\<lparr>mdb_reparents := mdb_reparents (ctr \<sigma>) + of_nat (length cs)\<rparr> \<and>
           mdb_state.more \<sigma>' = mdb_state.more \<sigma>"
proof -
  let ?l = "last cs"
  define \<sigma>1 where "\<sigma>1 = set_parents cs (Some p) \<sigma>"
  obtain h where h: "fch \<sigma> p = Some h"
    using rep_kids [OF rep, of s p] s rep_fch [OF rep, of p] by (cases "L (Kids p)") auto
  have head: "head_or cs None = Some (hd cs)" using cs(2) by (cases cs) auto
  have loop: "reparent_loop (Some (hd cs)) p None 0 \<sigma> = Some (Some ?l, of_nat (length cs), \<sigma>1)"
    using reparent_loop_dseg [of \<sigma> "prv \<sigma>" None cs p None 0] rep_dseg [OF rep, of "Kids s"] cs head
    by (simp add: last_or_def \<sigma>1_def)
  define \<sigma>2 where "\<sigma>2 = upd_slot ?l (\<lambda>x. x\<lparr>mdb_next_sib := Some h\<rparr>) \<sigma>1"
  define \<sigma>3 where "\<sigma>3 = upd_slot h (\<lambda>x. x\<lparr>mdb_prev_sib := Some ?l\<rparr>) \<sigma>2"
  define \<sigma>4 where "\<sigma>4 = upd_slot s (\<lambda>x. x\<lparr>mdb_first_child := None\<rparr>)
      (upd_ctr (\<lambda>c. c\<lparr>mdb_reparents := mdb_reparents c + of_nat (length cs)\<rparr>)
        (upd_slot p (\<lambda>x. x\<lparr>mdb_first_child := Some (hd cs)\<rparr>) \<sigma>3))"
  have f1: "fch \<sigma>1 = fch \<sigma>" by (simp add: \<sigma>1_def)
  have f1p: "fch \<sigma>1 p = Some h" using h fun_cong [OF f1, of p] by simp
  have f2: "fch \<sigma>2 p = Some h" using f1p by (auto simp: \<sigma>2_def)
  have eq: "map_option (upd_slot s (\<lambda>x. x\<lparr>mdb_first_child := None\<rparr>))
      (mdb_adopt_children s p (hd cs) \<sigma>) = Some \<sigma>4"
    unfolding mdb_adopt_children_def loop
    by (simp only: Option.bind.simps prod.case Let_def option.map f1p \<sigma>2_def [symmetric] f2
        upd_opt_slot_def option.case \<sigma>3_def \<sigma>4_def)
  have vs: "par \<sigma>4 = (\<lambda>x. if x \<in> set cs then Some p else par \<sigma> x)"
    "fch \<sigma>4 = (fch \<sigma>)(p := Some (hd cs), s := None)"
    "nxt \<sigma>4 = (nxt \<sigma>)(?l := Some h)" "prv \<sigma>4 = (prv \<sigma>)(h := Some ?l)"
  proof -
    have "par \<sigma>4 = par \<sigma>1" "fch \<sigma>4 = (fch \<sigma>1)(p := Some (hd cs), s := None)"
      "nxt \<sigma>4 = (nxt \<sigma>1)(?l := Some h)" "prv \<sigma>4 = (prv \<sigma>1)(h := Some ?l)"
      by (simp_all add: \<sigma>4_def \<sigma>3_def \<sigma>2_def views del: slots_upd(1,3) fun_upd_apply)
    then show "par \<sigma>4 = (\<lambda>x. if x \<in> set cs then Some p else par \<sigma> x)"
      "fch \<sigma>4 = (fch \<sigma>)(p := Some (hd cs), s := None)"
      "nxt \<sigma>4 = (nxt \<sigma>)(?l := Some h)" "prv \<sigma>4 = (prv \<sigma>)(h := Some ?l)"
      by (simp_all add: \<sigma>1_def)
  qed
  have c: "content (slots \<sigma>4 x) = content (slots \<sigma> x)" for x
    by (simp add: \<sigma>4_def \<sigma>3_def \<sigma>2_def \<sigma>1_def views del: slots_upd(1,3) fun_upd_apply)
  then have N: "Collect (node \<sigma>4) = Collect (node \<sigma>)" using node_content by blast
  have "mdb_rep \<sigma>4 (L(Kids p := cs @ L (Kids p), Kids s := []))"
    unfolding mdb_rep_def N vs by (rule forest_splice [OF rep [unfolded mdb_rep_def] cs s h])
  moreover have "ctr \<sigma>4 = (ctr \<sigma>)\<lparr>mdb_reparents := mdb_reparents (ctr \<sigma>) + of_nat (length cs)\<rparr>"
    "mdb_state.more \<sigma>4 = mdb_state.more \<sigma>"
    by (simp_all add: \<sigma>4_def \<sigma>3_def \<sigma>2_def \<sigma>1_def)
  ultimately show ?thesis using eq c by blast
qed

lemma rep_promote:
  assumes rep: "mdb_rep \<sigma> L" and cs: "L (Kids s) = cs" "cs \<noteq> []"
    and g: "L (Grp g) = as @ s # bs"
  shows "\<exists>\<sigma>1 \<sigma>'. map_option (upd_slot s (\<lambda>x. x\<lparr>mdb_first_child := None\<rparr>))
             (mdb_promote_children s (hd cs) \<sigma>) = Some \<sigma>1 \<and> par \<sigma>1 s = None \<and>
           (\<forall>x. content (slots \<sigma>1 x) = content (slots \<sigma> x)) \<and>
           ctr \<sigma>1 = (ctr \<sigma>)\<lparr>mdb_orphan_promotions := mdb_orphan_promotions (ctr \<sigma>) + of_nat (length cs),
             cdt_derived_live := cdt_derived_live (ctr \<sigma>) - of_nat (length cs)\<rparr> \<and>
           mdb_clear_node s (upd_ctr h (mdb_unlink_from_parent s \<sigma>1)) = Some \<sigma>' \<and>
           mdb_rep \<sigma>' (L(Grp g := as @ cs @ bs, Kids s := [])) \<and>
           (\<forall>x. x \<noteq> s \<longrightarrow> content (slots \<sigma>' x) = content (slots \<sigma> x)) \<and>
           slots \<sigma>' s = empty_slot\<lparr>s_object := s_object (slots \<sigma> s),
              s_rights := s_rights (slots \<sigma> s), s_badge := s_badge (slots \<sigma> s)\<rparr> \<and>
           ctr \<sigma>' = h (ctr \<sigma>1) \<and> mdb_state.more \<sigma>' = mdb_state.more \<sigma>"
proof -
  let ?l = "last cs" and ?c = "hd cs"
  note f = rep [unfolded mdb_rep_def]
  have sib: "prv \<sigma> s = last_or as None" "nxt \<sigma> s = head_or bs None"
    using forest_sibs [OF f g] by simp_all
  have par0: "par \<sigma> s = None" using rep_par [OF rep, of s "Grp g"] g by simp
  have csg: "x \<notin> set (as @ s # bs)" if "x \<in> set cs" for x
    using that rep_disj [OF rep, of x "Kids s" "Grp g"] cs g by auto
  have lc: "?l \<in> set cs" "?c \<in> set cs" using cs(2) by simp_all
  have ne: "prv \<sigma> s \<noteq> Some ?l" "nxt \<sigma> s \<noteq> Some ?c" "s \<noteq> ?l" "s \<noteq> ?c" "s \<notin> set cs"
    using csg [OF lc(1)] csg [OF lc(2)] csg [of s]
    by (auto simp: sib dest: last_or_in head_or_in)
  have head: "head_or cs None = Some ?c" using cs(2) by (cases cs) auto
  define \<sigma>1 where "\<sigma>1 = promoted cs \<sigma>"
  have loop: "promote_loop (Some ?c) None \<sigma> = Some (Some ?l, \<sigma>1)"
    using promote_loop_dseg [of \<sigma> "prv \<sigma>" None cs None] rep_dseg [OF rep, of "Kids s"] cs head
    by (simp add: last_or_def \<sigma>1_def)
  define \<sigma>2 where "\<sigma>2 = upd_slot s (\<lambda>x. x\<lparr>mdb_first_child := None\<rparr>)
     (upd_slot s (\<lambda>x. x\<lparr>mdb_prev_sib := None, mdb_next_sib := None\<rparr>)
     (upd_opt_slot (nxt \<sigma>1 s) (\<lambda>x. x\<lparr>mdb_prev_sib := Some ?l\<rparr>)
     (upd_slot ?l (\<lambda>x. x\<lparr>mdb_next_sib := nxt \<sigma>1 s\<rparr>)
     (upd_opt_slot (prv \<sigma>1 s) (\<lambda>x. x\<lparr>mdb_next_sib := Some ?c\<rparr>)
     (upd_slot ?c (\<lambda>x. x\<lparr>mdb_prev_sib := prv \<sigma>1 s\<rparr>) \<sigma>1)))))"
  have eq: "map_option (upd_slot s (\<lambda>x. x\<lparr>mdb_first_child := None\<rparr>))
      (mdb_promote_children s ?c \<sigma>) = Some \<sigma>2"
    unfolding mdb_promote_children_def loop \<sigma>2_def by (simp add: Let_def)
  have v1: "par \<sigma>1 = (\<lambda>x. if x \<in> set cs then None else par \<sigma> x)" "fch \<sigma>1 = fch \<sigma>"
    "nxt \<sigma>1 = nxt \<sigma>" "prv \<sigma>1 = prv \<sigma>" "content (slots \<sigma>1 x) = content (slots \<sigma> x)" for x
    by (simp_all add: \<sigma>1_def promoted_def)
  have n1: "nxt \<sigma>1 s = nxt \<sigma> s" "prv \<sigma>1 s = prv \<sigma> s"
    using fun_cong [OF v1(3), of s] fun_cong [OF v1(4), of s] by simp_all
  have v2: "par \<sigma>2 = par \<sigma>1" "fch \<sigma>2 = (fch \<sigma>1)(s := None)"
    "nxt \<sigma>2 = (opt_upd ((nxt \<sigma>1)(?l := nxt \<sigma>1 s)) (prv \<sigma>1 s) (Some ?c))(s := None)"
    "prv \<sigma>2 = (opt_upd ((prv \<sigma>1)(?c := prv \<sigma>1 s)) (nxt \<sigma>1 s) (Some ?l))(s := None)"
    "content (slots \<sigma>2 x) = content (slots \<sigma>1 x)" for x
  proof -
    have com: "(opt_upd f (prv \<sigma>1 s) v)(?l := w) = opt_upd (f(?l := w)) (prv \<sigma>1 s) v" for f v w
      using ne(1) n1 by (auto simp: fun_eq_iff opt_upd_apply)
    show "par \<sigma>2 = par \<sigma>1" "fch \<sigma>2 = (fch \<sigma>1)(s := None)"
      "nxt \<sigma>2 = (opt_upd ((nxt \<sigma>1)(?l := nxt \<sigma>1 s)) (prv \<sigma>1 s) (Some ?c))(s := None)"
      "prv \<sigma>2 = (opt_upd ((prv \<sigma>1)(?c := prv \<sigma>1 s)) (nxt \<sigma>1 s) (Some ?l))(s := None)"
      "content (slots \<sigma>2 x) = content (slots \<sigma>1 x)"
      by (simp_all add: \<sigma>2_def views com del: slots_upd(1,3) fun_upd_apply)
  qed
  have p2: "par \<sigma>2 s = None" "fch \<sigma>2 s = None" "nxt \<sigma>2 s = None" "prv \<sigma>2 s = None"
    using par0 ne fun_cong [OF v2(1), of s] fun_cong [OF v1(1), of s] by (simp_all add: \<sigma>2_def)
  let ?u = "upd_ctr h (mdb_unlink_from_parent s \<sigma>2)"
  have vu: "par ?u = par \<sigma>2" "fch ?u = fch \<sigma>2" "nxt ?u = nxt \<sigma>2" "prv ?u = prv \<sigma>2"
    using p2 by (simp_all add: unlink_views fun_upd_idem)
  define \<sigma>' where "\<sigma>' = upd_slot s (\<lambda>x. x\<lparr>mdb_parent := None, mdb_first_child := None,
      mdb_next_sib := None, mdb_prev_sib := None, mdb_cnode := None, mdb_flags := 0,
      s_guard := 0, s_guard_bits := 0\<rparr>) ?u"
  have eq': "mdb_clear_node s ?u = Some \<sigma>'"
    using fun_cong [OF vu(2), of s] p2 by (simp add: mdb_clear_node_def \<sigma>'_def)
  have v': "par \<sigma>' = par \<sigma>2" "fch \<sigma>' = fch \<sigma>2" "nxt \<sigma>' = nxt \<sigma>2" "prv \<sigma>' = prv \<sigma>2"
    using vu p2 by (auto simp: \<sigma>'_def fun_eq_iff)
  have c: "content (slots \<sigma>' x) = content (slots \<sigma> x)" if "x \<noteq> s" for x
    using that v1(5) [of x] v2(5) [of x] unlink_views(5) [of s \<sigma>2 x] by (simp add: \<sigma>'_def)
  have N: "Collect (node \<sigma>') = Collect (node \<sigma>) - {s}"
  proof -
    have "node \<sigma>' x \<longleftrightarrow> node \<sigma> x" if "x \<noteq> s" for x using c [OF that] by (rule node_content)
    moreover have "\<not> node \<sigma>' s" by (simp add: \<sigma>'_def node_def)
    ultimately have "node \<sigma>' x \<longleftrightarrow> node \<sigma> x \<and> x \<noteq> s" for x by metis
    then show ?thesis by blast
  qed
  have "mdb_rep \<sigma>' (L(Grp g := as @ cs @ bs, Kids s := []))"
    unfolding mdb_rep_def N v' v2(1-4) n1 v1(1-4) by (rule forest_promote [OF f cs g])
  moreover have "slots \<sigma>' s = empty_slot\<lparr>s_object := s_object (slots \<sigma> s),
              s_rights := s_rights (slots \<sigma> s), s_badge := s_badge (slots \<sigma> s)\<rparr>"
    using unlink_views(5) [of s \<sigma>2 s] v2(5) [of s] v1(5) [of s]
    by (simp add: \<sigma>'_def empty_slot_def content_def)
  moreover have "ctr \<sigma>2 = (ctr \<sigma>)\<lparr>mdb_orphan_promotions := mdb_orphan_promotions (ctr \<sigma>) + of_nat (length cs),
             cdt_derived_live := cdt_derived_live (ctr \<sigma>) - of_nat (length cs)\<rparr>"
    "mdb_state.more \<sigma>' = mdb_state.more \<sigma>" "ctr \<sigma>' = h (ctr \<sigma>2)"
    by (simp_all add: \<sigma>2_def \<sigma>1_def \<sigma>'_def promoted_def unlink_views(6,7))
  ultimately show ?thesis using eq eq' c p2(1) v2(5) v1(5) by (metis (no_types, lifting))
qed

subsection \<open>Detaching a node\<close>

text \<open>
  What \<^verbatim>\<open>mdb_detach_reparent\<close> promises, on layouts: under a parent the children go to the
  front of the parent's list and the node leaves it; at the top the children take the node's
  own place in its list of roots.
\<close>

fun lay_detach :: "'r layout \<Rightarrow> 'r \<Rightarrow> 'r layout" where
  "lay_detach L s (Kids p) =
     (if p = s then []
      else if s \<in> set (L (Kids p)) then L (Kids s) @ filter (\<lambda>x. x \<noteq> s) (L (Kids p))
      else L (Kids p))"
| "lay_detach L s (Grp g) =
     (if s \<in> set (L (Grp g)) then concat (map (\<lambda>x. if x = s then L (Kids s) else [x]) (L (Grp g)))
      else L (Grp g))"

definition detach_ctr :: "nat \<Rightarrow> bool \<Rightarrow> u32 \<Rightarrow> mdb_counters \<Rightarrow> mdb_counters" where
  "detach_ctr n child flags c =
     (let c1 = (if child then c\<lparr>mdb_reparents := mdb_reparents c + of_nat n,
                                 cdt_derived_live := cdt_derived_live c - 1\<rparr>
                else c\<lparr>mdb_orphan_promotions := mdb_orphan_promotions c + of_nat n,
                       cdt_derived_live := cdt_derived_live c - of_nat n\<rparr>);
          c2 = (if flags AND MDB_FLAG_UNPARENTED \<noteq> 0
                then c1\<lparr>mdb_unparented_roots := mdb_unparented_roots c1 - 1\<rparr> else c1)
      in c2\<lparr>mdb_nodes_live := mdb_nodes_live c2 - 1\<rparr>)"

definition drop_ctr :: "u32 \<Rightarrow> mdb_counters \<Rightarrow> mdb_counters" where
  "drop_ctr flags c =
     (let c2 = (if flags AND MDB_FLAG_UNPARENTED \<noteq> 0
                then c\<lparr>mdb_unparented_roots := mdb_unparented_roots c - 1\<rparr> else c)
      in c2\<lparr>mdb_nodes_live := mdb_nodes_live c2 - 1\<rparr>)"

definition detached ::
    "slotref \<Rightarrow> slotref layout \<Rightarrow> (mdb_counters \<Rightarrow> mdb_counters) \<Rightarrow> 'z mdb_state_scheme
       \<Rightarrow> 'z mdb_state_scheme \<Rightarrow> bool" where
  "detached s L g \<sigma> \<sigma>' \<longleftrightarrow> mdb_rep \<sigma>' L \<and>
     (\<forall>x. x \<noteq> s \<longrightarrow> content (slots \<sigma>' x) = content (slots \<sigma> x)) \<and>
     slots \<sigma>' s = empty_slot\<lparr>s_object := s_object (slots \<sigma> s),
        s_rights := s_rights (slots \<sigma> s), s_badge := s_badge (slots \<sigma> s)\<rparr> \<and>
     ctr \<sigma>' = g (ctr \<sigma>) \<and> mdb_state.more \<sigma>' = mdb_state.more \<sigma>"

lemma detach_tail:
  "(let \<sigma>3 = mdb_unlink_from_parent s \<sigma>;
        \<sigma>4 = (if mdb_flags (slots \<sigma>3 s) AND MDB_FLAG_UNPARENTED \<noteq> 0
                then upd_ctr (\<lambda>c. c\<lparr>mdb_unparented_roots := mdb_unparented_roots c - 1\<rparr>) \<sigma>3 else \<sigma>3)
    in mdb_clear_node s (upd_ctr (\<lambda>c. c\<lparr>mdb_nodes_live := mdb_nodes_live c - 1\<rparr>) \<sigma>4)) =
   mdb_clear_node s (upd_ctr (drop_ctr (mdb_flags (slots \<sigma> s))) (mdb_unlink_from_parent s \<sigma>))"
proof -
  have "mdb_flags (slots (mdb_unlink_from_parent s \<sigma>) s) = mdb_flags (slots \<sigma> s)"
    using unlink_views(5) [of s \<sigma> s] by (simp add: content_def)
  then show ?thesis
    by (auto simp: Let_def upd_ctr_upd_ctr drop_ctr_def [abs_def] cong: if_cong)
qed

lemmas mdb_detach_alt = mdb_detach_reparent_def [unfolded detach_tail]

lemma detach_child:
  assumes rep: "mdb_rep \<sigma> L" and k: "L (Kids p) = as @ s # bs"
  shows "\<exists>\<sigma>'. mdb_detach_reparent s \<sigma> = Some \<sigma>' \<and>
    detached s (L(Kids p := L (Kids s) @ as @ bs, Kids s := []))
      (detach_ctr (length (L (Kids s))) True (mdb_flags (slots \<sigma> s))) \<sigma> \<sigma>'"
proof -
  let ?fl = "mdb_flags (slots \<sigma> s)" and ?cs = "L (Kids s)"
  have ps: "par \<sigma> s = Some p" using rep_kids [OF rep, of s p] k by simp
  have sp: "s \<noteq> p" using forest_no_self [OF rep [unfolded mdb_rep_def], of s] ps by auto
  obtain \<sigma>1 where \<sigma>1: "(case fch \<sigma> s of None \<Rightarrow> Some \<sigma> | Some child \<Rightarrow>
        map_option (upd_slot s (\<lambda>x. x\<lparr>mdb_first_child := None\<rparr>))
          (case par \<sigma> s of Some parent \<Rightarrow> mdb_adopt_children s parent child \<sigma>
           | None \<Rightarrow> mdb_promote_children s child \<sigma>)) = Some \<sigma>1"
      and r1: "mdb_rep \<sigma>1 (L(Kids p := ?cs @ L (Kids p), Kids s := []))"
      and c1: "\<And>x. content (slots \<sigma>1 x) = content (slots \<sigma> x)"
      and t1: "ctr \<sigma>1 = (ctr \<sigma>)\<lparr>mdb_reparents := mdb_reparents (ctr \<sigma>) + of_nat (length ?cs)\<rparr>"
      and m1: "mdb_state.more \<sigma>1 = mdb_state.more \<sigma>"
  proof (cases "?cs = []")
    case True
    then have "L(Kids p := ?cs @ L (Kids p), Kids s := []) = L" by (auto simp: fun_eq_iff)
    then show ?thesis using that [of \<sigma>] rep True rep_fch [OF rep, of s] by simp
  next
    case False
    then have "fch \<sigma> s = Some (hd ?cs)" using rep_fch [OF rep, of s] by (cases ?cs) auto
    then show ?thesis using rep_adopt [OF rep refl False ps] ps that by auto
  qed
  have p1: "par \<sigma>1 s \<noteq> None" using rep_kids [OF r1, of s p] k sp by auto
  let ?g = "\<lambda>c. c\<lparr>cdt_derived_live := cdt_derived_live c - 1\<rparr>"
  let ?\<sigma>2 = "upd_ctr ?g \<sigma>1"
  have k2: "(L(Kids p := ?cs @ L (Kids p), Kids s := [])) (Kids p) = (?cs @ as) @ s # bs"
    and l2: "(L(Kids p := ?cs @ L (Kids p), Kids s := [])) (Kids s) = []"
    using k sp by simp_all
  have fl: "mdb_flags (slots \<sigma>1 s) = ?fl" using c1 [of s] by (simp add: content_def)
  have "mdb_rep ?\<sigma>2 (L(Kids p := ?cs @ L (Kids p), Kids s := []))" using r1 by simp
  from rep_remove_leaf [OF this k2 l2, of "drop_ctr ?fl"]
  obtain \<sigma>' where \<sigma>': "mdb_clear_node s (upd_ctr (drop_ctr ?fl) (mdb_unlink_from_parent s ?\<sigma>2)) = Some \<sigma>'"
    "mdb_rep \<sigma>' ((L(Kids p := ?cs @ L (Kids p), Kids s := []))(Kids p := (?cs @ as) @ bs))"
    "\<And>x. x \<noteq> s \<Longrightarrow> content (slots \<sigma>' x) = content (slots ?\<sigma>2 x)"
    "slots \<sigma>' s = empty_slot\<lparr>s_object := s_object (slots ?\<sigma>2 s),
              s_rights := s_rights (slots ?\<sigma>2 s), s_badge := s_badge (slots ?\<sigma>2 s)\<rparr>"
    "ctr \<sigma>' = drop_ctr ?fl (ctr ?\<sigma>2)" "mdb_state.more \<sigma>' = mdb_state.more ?\<sigma>2"
    by blast
  have "(L(Kids p := ?cs @ L (Kids p), Kids s := []))(Kids p := (?cs @ as) @ bs) =
      L(Kids p := ?cs @ as @ bs, Kids s := [])" using sp by (auto simp: fun_eq_iff)
  moreover have "mdb_detach_reparent s \<sigma> = Some \<sigma>'"
    unfolding mdb_detach_alt \<sigma>1 using \<sigma>'(1) p1 fl by (simp add: Let_def)
  moreover have "ctr \<sigma>' = detach_ctr (length ?cs) True ?fl (ctr \<sigma>)"
    using \<sigma>'(5) t1 by (simp add: drop_ctr_def detach_ctr_def Let_def)
  ultimately show ?thesis
    using \<sigma>'(2-4,6) c1 m1 c1 [of s] by (auto simp: detached_def content_def)
qed

lemma detach_root:
  assumes rep: "mdb_rep \<sigma> L" and k: "L (Grp g) = as @ s # bs"
  shows "\<exists>\<sigma>'. mdb_detach_reparent s \<sigma> = Some \<sigma>' \<and>
    detached s (L(Grp g := as @ L (Kids s) @ bs, Kids s := []))
      (detach_ctr (length (L (Kids s))) False (mdb_flags (slots \<sigma> s))) \<sigma> \<sigma>'"
proof (cases "L (Kids s) = []")
  case True
  let ?fl = "mdb_flags (slots \<sigma> s)"
  have p: "par \<sigma> s = None" using rep_par [OF rep, of s "Grp g"] k by simp
  have f: "fch \<sigma> s = None" using rep_fch [OF rep, of s] True by simp
  have "L(Grp g := as @ L (Kids s) @ bs, Kids s := []) = L(Grp g := as @ bs)"
    using True by (auto simp: fun_eq_iff)
  moreover have "detach_ctr 0 False ?fl (ctr \<sigma>) = drop_ctr ?fl (ctr \<sigma>)"
    by (simp add: detach_ctr_def drop_ctr_def Let_def)
  ultimately show ?thesis
    using rep_remove_leaf [OF rep k True, of "drop_ctr ?fl"] p f True
    by (auto simp: mdb_detach_alt detached_def Let_def)
next
  case False
  let ?fl = "mdb_flags (slots \<sigma> s)"
  have p: "par \<sigma> s = None" using rep_par [OF rep, of s "Grp g"] k by simp
  have f: "fch \<sigma> s = Some (hd (L (Kids s)))"
    using rep_fch [OF rep, of s] False by (cases "L (Kids s)") auto
  from rep_promote [OF rep refl False k, of "drop_ctr ?fl"] obtain \<sigma>1 \<sigma>' where
    1: "map_option (upd_slot s (\<lambda>x. x\<lparr>mdb_first_child := None\<rparr>))
          (mdb_promote_children s (hd (L (Kids s))) \<sigma>) = Some \<sigma>1" "par \<sigma>1 s = None"
    and c1: "\<And>x. content (slots \<sigma>1 x) = content (slots \<sigma> x)"
    and t1: "ctr \<sigma>1 = (ctr \<sigma>)\<lparr>
         mdb_orphan_promotions := mdb_orphan_promotions (ctr \<sigma>) + of_nat (length (L (Kids s))),
         cdt_derived_live := cdt_derived_live (ctr \<sigma>) - of_nat (length (L (Kids s)))\<rparr>"
    and 2: "mdb_clear_node s (upd_ctr (drop_ctr ?fl) (mdb_unlink_from_parent s \<sigma>1)) = Some \<sigma>'"
    and d: "mdb_rep \<sigma>' (L(Grp g := as @ L (Kids s) @ bs, Kids s := []))"
       "\<forall>x. x \<noteq> s \<longrightarrow> content (slots \<sigma>' x) = content (slots \<sigma> x)"
       "slots \<sigma>' s = empty_slot\<lparr>s_object := s_object (slots \<sigma> s),
          s_rights := s_rights (slots \<sigma> s), s_badge := s_badge (slots \<sigma> s)\<rparr>"
       "ctr \<sigma>' = drop_ctr ?fl (ctr \<sigma>1)" "mdb_state.more \<sigma>' = mdb_state.more \<sigma>" by metis
  have "mdb_flags (slots \<sigma>1 s) = ?fl" using c1 [of s] by (simp add: content_def)
  then have "mdb_detach_reparent s \<sigma> = Some \<sigma>'"
    unfolding mdb_detach_alt p f option.case 1(1) using 1(2) 2 by (simp add: Let_def)
  moreover have "ctr \<sigma>' = detach_ctr (length (L (Kids s))) False ?fl (ctr \<sigma>)"
    using d(4) t1 by (simp add: drop_ctr_def detach_ctr_def Let_def)
  ultimately show ?thesis using d by (simp add: detached_def)
qed

lemma lay_detach_eq:
  assumes "mdb_rep \<sigma> L" "L k = as @ s # bs"
  shows "lay_detach L s = (case k of
      Kids p \<Rightarrow> L(Kids p := L (Kids s) @ as @ bs, Kids s := [])
    | Grp g \<Rightarrow> L(Grp g := as @ L (Kids s) @ bs, Kids s := []))"
proof (rule ext)
  fix k'
  have only: "s \<in> set (L k') \<longleftrightarrow> k' = k"
    using rep_disj [OF assms(1), of s k' k] assms(2) by auto
  have d: "s \<notin> set as" "s \<notin> set bs" using rep_distinct [OF assms(1), of k] assms(2) by auto
  have self: "k \<noteq> Kids s"
    using rep_kids [OF assms(1), of s s] forest_no_self [OF assms(1) [unfolded mdb_rep_def], of s]
      assms(2) by auto
  have id: "concat (map (\<lambda>x. if x = s then ys else [x]) xs) = xs" if "s \<notin> set xs" for xs ys
    using that by (induction xs) auto
  have fl: "filter (\<lambda>x. x \<noteq> s) as = as" "filter (\<lambda>x. x \<noteq> s) bs = bs"
    using d by (auto simp: filter_id_conv)
  show "lay_detach L s k' = (case k of
      Kids p \<Rightarrow> L(Kids p := L (Kids s) @ as @ bs, Kids s := [])
    | Grp g \<Rightarrow> L(Grp g := as @ L (Kids s) @ bs, Kids s := [])) k'"
    using only self d fl assms(2) by (cases k'; cases k) (auto simp: id)
qed

text \<open>The refinement lemma of \<^verbatim>\<open>mdb_detach_reparent\<close>: it returns, and does what the layout says.\<close>

lemma mdb_detach_refines:
  assumes rep: "mdb_rep \<sigma> L" and s: "node \<sigma> s"
  shows "\<exists>\<sigma>'. mdb_detach_reparent s \<sigma> = Some \<sigma>' \<and>
    detached s (lay_detach L s)
      (detach_ctr (length (L (Kids s))) (par \<sigma> s \<noteq> None) (mdb_flags (slots \<sigma> s))) \<sigma> \<sigma>'"
proof -
  obtain k as bs where k: "L k = as @ s # bs" using rep_split [OF rep s] .
  have "par \<sigma> s = owner k" using rep_par [OF rep, of s k] k by simp
  then show ?thesis
    using detach_child [OF rep, of _ as s bs] detach_root [OF rep, of _ as s bs] k
      lay_detach_eq [OF rep k] by (cases k) auto
qed

subsection \<open>Moving a node\<close>

definition relocated ::
    "slotref \<Rightarrow> slotref \<Rightarrow> oid \<Rightarrow> 'z mdb_state_scheme \<Rightarrow> 'z mdb_state_scheme \<Rightarrow> bool" where
  "relocated from to cn \<sigma> \<sigma>' \<longleftrightarrow>
     (\<forall>x. x \<noteq> from \<longrightarrow> x \<noteq> to \<longrightarrow> content (slots \<sigma>' x) = content (slots \<sigma> x)) \<and>
     slots \<sigma>' from = empty_slot \<and>
     content (slots \<sigma>' to) = (s_object (slots \<sigma> from), s_rights (slots \<sigma> from), s_badge (slots \<sigma> from),
        Some cn, mdb_flags (slots \<sigma> from), s_guard (slots \<sigma> to), s_guard_bits (slots \<sigma> to)) \<and>
     ctr \<sigma>' = ctr \<sigma> \<and> mdb_state.more \<sigma>' = mdb_state.more \<sigma>"

lemma mdb_relocate_refines:
  assumes rep: "mdb_rep \<sigma> L" and fr: "node \<sigma> src" and ne: "\<not> node \<sigma> dst"
  shows "\<exists>\<sigma>'. mdb_relocate src dst cn \<sigma> = Some \<sigma>' \<and> relocated src dst cn \<sigma> \<sigma>' \<and>
           mdb_rep \<sigma>' (conj_layout (exch src dst) L)"
proof -
  note f = rep [unfolded mdb_rep_def]
  have ft: "src \<noteq> dst" using fr ne by auto
  have toN: "dst \<notin> Collect (node \<sigma>)" using ne by simp
  note out = forest_no_link_out [OF f toN] and self = forest_no_self_link [OF f, of src]
  let ?cs = "L (Kids src)"
  define \<sigma>2 where "\<sigma>2 = upd_slot src (\<lambda>x. x\<lparr>s_object := None, s_rights := RIGHT_NONE, s_badge := 0\<rparr>)
    (upd_slot dst (\<lambda>x. x\<lparr>s_object := s_object (slots \<sigma> src),
       s_rights := s_rights (slots \<sigma> src), s_badge := s_badge (slots \<sigma> src)\<rparr>) \<sigma>)"
  define \<sigma>3 where "\<sigma>3 = upd_slot dst (\<lambda>x. x\<lparr>mdb_parent := par \<sigma>2 src, mdb_first_child := fch \<sigma>2 src,
      mdb_next_sib := nxt \<sigma>2 src, mdb_prev_sib := prv \<sigma>2 src,
      mdb_flags := mdb_flags (slots \<sigma>2 src), mdb_cnode := Some cn\<rparr>) \<sigma>2"
  have s2: "par \<sigma>2 src = par \<sigma> src" "fch \<sigma>2 src = fch \<sigma> src" "nxt \<sigma>2 src = nxt \<sigma> src"
    "prv \<sigma>2 src = prv \<sigma> src" "mdb_flags (slots \<sigma>2 src) = mdb_flags (slots \<sigma> src)"
    using ft by (simp_all add: \<sigma>2_def)
  have v3: "par \<sigma>3 = (par \<sigma>)(dst := par \<sigma> src)" "fch \<sigma>3 = (fch \<sigma>)(dst := fch \<sigma> src)"
    "nxt \<sigma>3 = (nxt \<sigma>)(dst := nxt \<sigma> src)" "prv \<sigma>3 = (prv \<sigma>)(dst := prv \<sigma> src)"
    unfolding \<sigma>3_def s2 by (simp_all add: \<sigma>2_def views del: slots_upd(1,3) fun_upd_apply)
  define \<sigma>4 where "\<sigma>4 = (case prv \<sigma>3 dst of
        Some p \<Rightarrow> upd_slot p (\<lambda>x. x\<lparr>mdb_next_sib := Some dst\<rparr>) \<sigma>3
      | None \<Rightarrow> upd_opt_slot (par \<sigma>3 dst) (\<lambda>x. x\<lparr>mdb_first_child := Some dst\<rparr>) \<sigma>3)"
  define \<sigma>5 where "\<sigma>5 = upd_opt_slot (nxt \<sigma>4 dst) (\<lambda>x. x\<lparr>mdb_prev_sib := Some dst\<rparr>) \<sigma>4"
  have p3: "par \<sigma>3 dst = par \<sigma> src" "prv \<sigma>3 dst = prv \<sigma> src"
    using s2 by (simp_all add: \<sigma>3_def)
  note \<sigma>4 = \<sigma>4_def [unfolded p3]
  have v4: "par \<sigma>4 = par \<sigma>3"
    "fch \<sigma>4 = (if prv \<sigma> src = None then opt_upd (fch \<sigma>3) (par \<sigma> src) (Some dst) else fch \<sigma>3)"
    "nxt \<sigma>4 = opt_upd (nxt \<sigma>3) (prv \<sigma> src) (Some dst)" "prv \<sigma>4 = prv \<sigma>3"
    by (cases "prv \<sigma> src"; simp add: \<sigma>4 views del: slots_upd(1,3) fun_upd_apply)+
  have n4: "nxt \<sigma>4 dst = nxt \<sigma> src"
    using fun_cong [OF v4(3), of dst] fun_cong [OF v3(3), of dst] out(4) [of src]
    by (simp add: opt_upd_apply)
  have v5: "par \<sigma>5 = par \<sigma>3" "fch \<sigma>5 = fch \<sigma>4" "nxt \<sigma>5 = nxt \<sigma>4"
    "prv \<sigma>5 = opt_upd (prv \<sigma>3) (nxt \<sigma> src) (Some dst)"
  proof -
    have "par \<sigma>5 = par \<sigma>4" "fch \<sigma>5 = fch \<sigma>4" "nxt \<sigma>5 = nxt \<sigma>4"
      "prv \<sigma>5 = opt_upd (prv \<sigma>4) (nxt \<sigma> src) (Some dst)"
      unfolding \<sigma>5_def n4 by (simp_all add: views del: slots_upd(1,3) fun_upd_apply)
    then show "par \<sigma>5 = par \<sigma>3" "fch \<sigma>5 = fch \<sigma>4" "nxt \<sigma>5 = nxt \<sigma>4"
      "prv \<sigma>5 = opt_upd (prv \<sigma>3) (nxt \<sigma> src) (Some dst)" unfolding v4(1,4) by blast+
  qed
  have csp: "par \<sigma> x = Some src \<longleftrightarrow> x \<in> set ?cs" for x using rep_kids [OF rep] by simp
  have f5: "fch \<sigma>5 dst = head_or ?cs None"
    using fun_cong [OF v5(2), of dst] fun_cong [OF v4(2), of dst] fun_cong [OF v3(2), of dst]
      out(1) [of src] rep_fch [OF rep, of src] by (auto simp: opt_upd_apply split: if_splits)
  have "dseg (nxt \<sigma>5) (prv \<sigma>) None ?cs None \<longleftrightarrow> dseg (nxt \<sigma>) (prv \<sigma>) None ?cs None"
  proof (rule dseg_cong)
    fix x assume x: "x \<in> set ?cs"
    have "x \<noteq> dst" using x rep_in [OF rep] ne by blast
    moreover have "prv \<sigma> src \<noteq> Some x"
    proof
      assume "prv \<sigma> src = Some x"
      then have "nxt \<sigma> x = Some src" using forest_next_prev [OF f, of x src] by simp
      then have "src \<in> set ?cs" using dseg_next_in [OF rep_dseg [OF rep] x] by blast
      then show False using csp [of src] self(1) by simp
    qed
    ultimately show "nxt \<sigma>5 x = nxt \<sigma> x"
      using fun_cong [OF v5(3), of x] fun_cong [OF v4(3), of x] fun_cong [OF v3(3), of x]
      by (simp add: opt_upd_apply)
  qed simp
  then have "relink_loop (fch \<sigma>5 dst) dst \<sigma>5 = Some (set_parents ?cs (Some dst) \<sigma>5)"
    unfolding f5 using relink_loop_dseg rep_dseg [OF rep] by blast
  moreover define \<sigma>6 where "\<sigma>6 = set_parents ?cs (Some dst) \<sigma>5"
  ultimately have loop: "relink_loop (fch \<sigma>5 dst) dst \<sigma>5 = Some \<sigma>6" by simp
  define \<sigma>' where "\<sigma>' = upd_slot src (\<lambda>x. x\<lparr>mdb_parent := None, mdb_first_child := None,
      mdb_next_sib := None, mdb_prev_sib := None, mdb_cnode := None, mdb_flags := 0,
      s_guard := 0, s_guard_bits := 0\<rparr>) (upd_slot src (\<lambda>x. x\<lparr>mdb_first_child := None\<rparr>) \<sigma>6)"
  have eq: "mdb_relocate src dst cn \<sigma> = Some \<sigma>'"
  proof -
    have "mdb_relocate src dst cn \<sigma> = Option.bind (relink_loop (fch \<sigma>5 dst) dst \<sigma>5)
        (\<lambda>\<sigma>6. mdb_clear_node src (upd_slot src (\<lambda>x. x\<lparr>mdb_first_child := None\<rparr>) \<sigma>6))"
      unfolding mdb_relocate_def \<sigma>5_def \<sigma>4_def \<sigma>3_def \<sigma>2_def Let_def ..
    then show ?thesis by (simp add: loop mdb_clear_node_def \<sigma>'_def)
  qed
  have v': "par \<sigma>' = (par \<sigma>6)(src := None)" "fch \<sigma>' = (fch \<sigma>6)(src := None)"
    "nxt \<sigma>' = (nxt \<sigma>6)(src := None)" "prv \<sigma>' = (prv \<sigma>6)(src := None)"
    by (simp_all add: \<sigma>'_def views del: slots_upd(1,3) fun_upd_apply)
  have v6: "par \<sigma>6 = (\<lambda>x. if x \<in> set ?cs then Some dst else par \<sigma>3 x)" "fch \<sigma>6 = fch \<sigma>4"
    "nxt \<sigma>6 = nxt \<sigma>4" "prv \<sigma>6 = opt_upd (prv \<sigma>3) (nxt \<sigma> src) (Some dst)"
    using v5 fun_cong [OF v5(1)] by (simp_all add: \<sigma>6_def cong: if_cong)
  have w1: "par \<sigma>' = conj_ptr (exch src dst) (par \<sigma>)"
    unfolding conj_ptr_exch [of "par \<sigma>" dst src, OF out(5) out(1) self(1)]
  proof (rule ext)
    fix x
    show "par \<sigma>' x = (if x = dst then par \<sigma> src else if x = src then None
       else if par \<sigma> x = Some src then Some dst else par \<sigma> x)"
      using csp [of x] csp [of dst] out(5) ft
        fun_cong [OF v'(1), of x] fun_cong [OF v6(1), of x] fun_cong [OF v3(1), of x]
      by (cases "x = dst"; cases "x = src"; cases "prv \<sigma> src"; simp add: opt_upd_apply)
  qed
  have w2: "fch \<sigma>' = conj_ptr (exch src dst) (fch \<sigma>)"
    unfolding conj_ptr_exch [of "fch \<sigma>" dst src, OF out(6) out(2) self(2)]
  proof (rule ext)
    fix x
    show "fch \<sigma>' x = (if x = dst then fch \<sigma> src else if x = src then None
       else if fch \<sigma> x = Some src then Some dst else fch \<sigma> x)"
      using forest_first_child [OF f, of x src] out(1) [of src] ft fun_cong [OF v'(2), of x]
        fun_cong [OF v6(2), of x] fun_cong [OF v4(2), of x] fun_cong [OF v3(2), of x]
      by (cases "x = dst"; cases "x = src"; cases "prv \<sigma> src"; simp add: opt_upd_apply)
  qed
  have w3: "nxt \<sigma>' = conj_ptr (exch src dst) (nxt \<sigma>)"
    unfolding conj_ptr_exch [of "nxt \<sigma>" dst src, OF out(7) out(3) self(3)]
  proof (rule ext)
    fix x
    show "nxt \<sigma>' x = (if x = dst then nxt \<sigma> src else if x = src then None
       else if nxt \<sigma> x = Some src then Some dst else nxt \<sigma> x)"
      using forest_next_prev [OF f, of x src] out(4) [of src] ft fun_cong [OF v'(3), of x]
        fun_cong [OF v6(3), of x] fun_cong [OF v4(3), of x] fun_cong [OF v3(3), of x]
      by (cases "x = dst"; cases "x = src"; cases "prv \<sigma> src"; simp add: opt_upd_apply)
  qed
  have w4: "prv \<sigma>' = conj_ptr (exch src dst) (prv \<sigma>)"
    unfolding conj_ptr_exch [of "prv \<sigma>" dst src, OF out(8) out(4) self(4)]
  proof (rule ext)
    fix x
    show "prv \<sigma>' x = (if x = dst then prv \<sigma> src else if x = src then None
       else if prv \<sigma> x = Some src then Some dst else prv \<sigma> x)"
      using forest_next_prev [OF f, of src x] out(3) [of src] ft
        fun_cong [OF v'(4), of x] fun_cong [OF v6(4), of x] fun_cong [OF v3(4), of x]
      by (cases "x = dst"; cases "x = src"; cases "prv \<sigma> src"; simp add: opt_upd_apply)
  qed
  have c6: "content (slots \<sigma>6 x) = content (slots \<sigma>3 x)" for x
    by (cases "prv \<sigma> src"; simp add: \<sigma>6_def \<sigma>5_def \<sigma>4 views del: slots_upd(1,3) fun_upd_apply)
  have more6: "ctr \<sigma>6 = ctr \<sigma>" "mdb_state.more \<sigma>6 = mdb_state.more \<sigma>"
    by (cases "prv \<sigma> src"; simp add: \<sigma>6_def \<sigma>5_def \<sigma>4 \<sigma>3_def \<sigma>2_def)+
  have r: "relocated src dst cn \<sigma> \<sigma>'"
    using c6 [of dst] c6 [of src] c6 ft more6 s2
    by (auto simp: relocated_def \<sigma>'_def \<sigma>3_def \<sigma>2_def empty_slot_def content_def)
  have "node \<sigma>' x \<longleftrightarrow> x = dst \<or> x \<noteq> src \<and> node \<sigma> x" for x
    using r ft by (cases "x = src"; cases "x = dst")
      (auto simp: relocated_def node_def content_def empty_slot_def)
  then have "Collect (node \<sigma>') = exch src dst ` Collect (node \<sigma>)"
    using exch_image [of src "Collect (node \<sigma>)" dst] fr ne by auto
  then have "mdb_rep \<sigma>' (conj_layout (exch src dst) L)"
    unfolding mdb_rep_def w1 w2 w3 w4 by (simp add: forest_rename [OF f])
  then show ?thesis using eq r by blast
qed

end
