(* ===== verification/Iris_Tree.thy ===== *)
theory Iris_Tree
  imports Iris_MDB
begin

text \<open>
  The invariants of the derivation tree and what one tree operation does to them: a slot is
  either wholly empty or in the graph under its own CNode (\<open>mdb_wf\<close>), the three gauges count
  nodes, derived nodes and unparented roots (\<open>gauges_ok\<close>), and the capabilities to one object
  are connected (\<open>connected\<close>), which is what makes the neighbour-local
  \<^verbatim>\<open>kcnode_slot_is_final_cap\<close> exact.
\<close>

subsection \<open>Well-formedness\<close>

definition slot_ok :: "slotref \<Rightarrow> kcslot \<Rightarrow> bool" where
  "slot_ok s x =
     (case s of
        Tmp \<Rightarrow> x = empty_slot
      | Slot c i \<Rightarrow> if s_object x = None then x = empty_slot
                    else mdb_cnode x = Some c \<and> s_rights x \<noteq> RIGHT_NONE)"

definition slots_ok :: "'z mdb_state_scheme \<Rightarrow> bool" where
  "slots_ok \<sigma> \<longleftrightarrow> (\<forall>s. slot_ok s (slots \<sigma> s))"

definition mdb_wf :: "'z mdb_state_scheme \<Rightarrow> bool" where
  "mdb_wf \<sigma> \<longleftrightarrow> slots_ok \<sigma> \<and> (\<exists>L. mdb_rep \<sigma> L)"

lemma empty_slot_sel [simp]:
  "s_object empty_slot = None" "s_rights empty_slot = RIGHT_NONE" "s_badge empty_slot = 0"
  "mdb_parent empty_slot = None" "mdb_first_child empty_slot = None" "mdb_next_sib empty_slot = None"
  "mdb_prev_sib empty_slot = None" "mdb_cnode empty_slot = None" "mdb_flags empty_slot = 0"
  "s_guard empty_slot = 0" "s_guard_bits empty_slot = 0"
  by (simp_all add: empty_slot_def)

lemma slots_okD: "slots_ok \<sigma> \<Longrightarrow> slot_ok s (slots \<sigma> s)"
  by (simp add: slots_ok_def)

lemma node_iff: "slots_ok \<sigma> \<Longrightarrow> node \<sigma> s \<longleftrightarrow> s_object (slots \<sigma> s) \<noteq> None"
  using slots_okD [of \<sigma> s] by (auto simp: slot_ok_def node_def split: slotref.splits if_splits)

lemma slot_empty: "slots_ok \<sigma> \<Longrightarrow> s_object (slots \<sigma> s) = None \<Longrightarrow> slots \<sigma> s = empty_slot"
  using slots_okD [of \<sigma> s] by (auto simp: slot_ok_def split: slotref.splits)

lemma Tmp_empty: "slots_ok \<sigma> \<Longrightarrow> slots \<sigma> Tmp = empty_slot"
  using slots_okD [of \<sigma> Tmp] by (simp add: slot_ok_def)

lemma slots_ok_upd_ctr [simp]: "slots_ok (upd_ctr g \<sigma>) = slots_ok \<sigma>"
  by (simp add: slots_ok_def)

text \<open>The predicates look at the slots (and, for the gauges, at the counters) only.\<close>

lemma node_slots: "slots \<sigma>' = slots \<sigma> \<Longrightarrow> node \<sigma>' = node \<sigma>"
  by (simp add: node_def fun_eq_iff)

lemma rep_slots:
  assumes "slots \<sigma>' = slots \<sigma>"
  shows "mdb_rep \<sigma>' L = mdb_rep \<sigma> L"
  by (simp add: mdb_rep_def node_slots [OF assms] assms)

lemma wf_slots:
  assumes "slots \<sigma>' = slots \<sigma>"
  shows "mdb_wf \<sigma>' = mdb_wf \<sigma>"
  by (simp add: mdb_wf_def slots_ok_def rep_slots [OF assms] assms)

lemma slots_ok_frame:
  assumes "slots_ok \<sigma>" "mdb_rep \<sigma>' L'"
    and "\<And>x. x \<notin> X \<Longrightarrow> content (slots \<sigma>' x) = content (slots \<sigma> x)"
    and "\<And>x. x \<in> X \<Longrightarrow> slot_ok x (slots \<sigma>' x)"
  shows "slots_ok \<sigma>'"
  unfolding slots_ok_def
proof
  fix x
  show "slot_ok x (slots \<sigma>' x)"
  proof (cases "x \<in> X")
    case False
    have c: "content (slots \<sigma>' x) = content (slots \<sigma> x)" using assms(3) False .
    show ?thesis
    proof (cases "s_object (slots \<sigma> x) = None")
      case True
      then have e: "slots \<sigma> x = empty_slot" using assms(1) slot_empty by blast
      then have "\<not> node \<sigma>' x" using node_content [OF c] by (simp add: node_def)
      then have "links_of (slots \<sigma>' x) = (None, None, None, None)" using rep_clean assms(2) by blast
      then have "slots \<sigma>' x = empty_slot"
        using c e by (cases "slots \<sigma>' x") (simp add: content_def links_of_def empty_slot_def)
      then show ?thesis using slots_okD [OF assms(1), of x] e by simp
    next
      case False
      then show ?thesis using slots_okD [OF assms(1), of x] c
        by (auto simp: slot_ok_def content_def split: slotref.splits)
    qed
  qed (simp add: assms(4))
qed

lemma slots_ok_content:
  assumes "slots_ok \<sigma>" "mdb_rep \<sigma> L" "mdb_rep \<sigma>' L'"
    and "\<And>x. x \<noteq> s \<Longrightarrow> content (slots \<sigma>' x) = content (slots \<sigma> x)" and "slot_ok s (slots \<sigma>' s)"
  shows "slots_ok \<sigma>'"
  using slots_ok_frame [OF assms(1,3), of "{s}"] assms(4,5) by blast

subsection \<open>Layouts as sets\<close>

text \<open>What a removal does to the sets of siblings; the order is the business of \<open>Iris_MDB\<close>.\<close>

definition lay_removed :: "slotref layout \<Rightarrow> slotref \<Rightarrow> slotref layout \<Rightarrow> bool" where
  "lay_removed L s L' \<longleftrightarrow>
     (\<forall>k. set (L' k) = (if k = Kids s then {}
                        else if s \<in> set (L k) then set (L k) - {s} \<union> set (L (Kids s)) else set (L k)))"

lemma lay_detach_removed:
  assumes "mdb_rep \<sigma> L" "node \<sigma> s"
  shows "lay_removed L s (lay_detach L s)"
  unfolding lay_removed_def
proof
  fix k
  have "s \<notin> set (L (Kids s))"
    using rep_kids [OF assms(1), of s s] forest_no_self [OF assms(1) [unfolded mdb_rep_def], of s]
    by simp
  then show "set (lay_detach L s k) = (if k = Kids s then {}
       else if s \<in> set (L k) then set (L k) - {s} \<union> set (L (Kids s)) else set (L k))"
    by (cases k) auto
qed

lemma lay_leaf_removed:
  assumes "mdb_rep \<sigma> L" "L k = as @ s # bs" "L (Kids s) = []"
  shows "lay_removed L s (L(k := as @ bs))"
  unfolding lay_removed_def
proof
  fix k'
  have "s \<in> set (L k') \<longleftrightarrow> k' = k" using rep_disj [OF assms(1), of s k' k] assms(2) by auto
  moreover have "s \<notin> set (as @ bs)" using rep_distinct [OF assms(1), of k] assms(2) by simp
  ultimately show "set ((L(k := as @ bs)) k') = (if k' = Kids s then {}
       else if s \<in> set (L k') then set (L k') - {s} \<union> set (L (Kids s)) else set (L k'))"
    using assms(2,3) by auto
qed

subsection \<open>Gauges\<close>

definition derived_set :: "'z mdb_state_scheme \<Rightarrow> slotref set" where
  "derived_set \<sigma> = {s. par \<sigma> s \<noteq> None}"

definition unparented_set :: "'z mdb_state_scheme \<Rightarrow> slotref set" where
  "unparented_set \<sigma> = {s. mdb_flags (slots \<sigma> s) AND MDB_FLAG_UNPARENTED \<noteq> 0}"

definition gauges_ok :: "'z mdb_state_scheme \<Rightarrow> bool" where
  "gauges_ok \<sigma> \<longleftrightarrow>
     mdb_nodes_live (ctr \<sigma>) = of_nat (card (Collect (node \<sigma>))) \<and>
     cdt_derived_live (ctr \<sigma>) = of_nat (card (derived_set \<sigma>)) \<and>
     mdb_unparented_roots (ctr \<sigma>) = of_nat (card (unparented_set \<sigma>))"

lemma gauges_slots:
  assumes "slots \<sigma>' = slots \<sigma>" "ctr \<sigma>' = ctr \<sigma>"
  shows "gauges_ok \<sigma>' = gauges_ok \<sigma>"
  by (simp add: gauges_ok_def derived_set_def unparented_set_def node_slots [OF assms(1)] assms)

lemma gauges_ctr:
  "mdb_nodes_live (g (ctr \<sigma>)) = mdb_nodes_live (ctr \<sigma>) \<Longrightarrow>
   cdt_derived_live (g (ctr \<sigma>)) = cdt_derived_live (ctr \<sigma>) \<Longrightarrow>
   mdb_unparented_roots (g (ctr \<sigma>)) = mdb_unparented_roots (ctr \<sigma>) \<Longrightarrow>
   gauges_ok (upd_ctr g \<sigma>) = gauges_ok \<sigma>"
  by (simp add: gauges_ok_def derived_set_def unparented_set_def node_slots [of "upd_ctr g \<sigma>" \<sigma>])

lemma derived_in: "mdb_rep \<sigma> L \<Longrightarrow> s \<in> derived_set \<sigma> \<longleftrightarrow> (\<exists>p. s \<in> set (L (Kids p)))"
  by (auto simp: derived_set_def rep_kids)

lemma derived_finite:
  assumes "mdb_rep \<sigma> L"
  shows "finite (derived_set \<sigma>)"
proof (rule finite_subset)
  show "derived_set \<sigma> \<subseteq> Collect (node \<sigma>)"
    using rep_in [OF assms] by (auto simp: derived_in [OF assms])
qed (rule rep_finite [OF assms])

lemma unparented_node: "slots_ok \<sigma> \<Longrightarrow> s \<in> unparented_set \<sigma> \<Longrightarrow> node \<sigma> s"
  using slot_empty [of \<sigma> s] by (cases "s_object (slots \<sigma> s)") (simp_all add: unparented_set_def node_iff)

lemma unparented_finite:
  assumes "mdb_rep \<sigma> L" "slots_ok \<sigma>"
  shows "finite (unparented_set \<sigma>)"
  using rep_finite [OF assms(1)] unparented_node [OF assms(2)]
  by (auto intro: finite_subset [of _ "Collect (node \<sigma>)"])

lemma card_remove_word:
  assumes "finite A" "a \<in> A"
  shows "of_nat (card (A - {a})) = (of_nat (card A) - 1 :: u32)"
proof -
  have "card A = Suc (card (A - {a}))" using card.remove [OF assms] by simp
  then show ?thesis by simp
qed

lemma card_remove_words:
  assumes "finite A" "set xs \<subseteq> A" "distinct xs"
  shows "of_nat (card (A - set xs)) = (of_nat (card A) - of_nat (length xs) :: u32)"
proof -
  have "card A = card (A - set xs) + length xs"
    using assms card_Diff_subset [of "set xs" A] distinct_card [of xs] card_mono [of A "set xs"]
    by simp
  then show ?thesis by simp
qed

lemma detach_ctr_sel [simp]:
  "mdb_nodes_live (detach_ctr n b fl c) = mdb_nodes_live c - 1"
  "cdt_derived_live (detach_ctr n b fl c) = cdt_derived_live c - (if b then 1 else of_nat n)"
  "mdb_unparented_roots (detach_ctr n b fl c) =
     mdb_unparented_roots c - (if fl AND MDB_FLAG_UNPARENTED \<noteq> 0 then 1 else 0)"
  by (simp_all add: detach_ctr_def Let_def)

lemma detached_nodes:
  assumes "detached s L' g \<sigma> \<sigma>'"
  shows "Collect (node \<sigma>') = Collect (node \<sigma>) - {s}"
proof -
  have "node \<sigma>' x \<longleftrightarrow> node \<sigma> x \<and> x \<noteq> s" for x
    using assms node_content [of \<sigma>' x \<sigma>]
    by (cases "x = s") (auto simp: detached_def node_def)
  then show ?thesis by blast
qed

lemma detached_unparented:
  assumes "detached s L' g \<sigma> \<sigma>'"
  shows "unparented_set \<sigma>' = unparented_set \<sigma> - {s}"
proof -
  have "x \<in> unparented_set \<sigma>' \<longleftrightarrow> x \<in> unparented_set \<sigma> \<and> x \<noteq> s" for x
    using assms by (cases "x = s") (auto simp: detached_def unparented_set_def content_def)
  then show ?thesis by blast
qed

lemma removed_derived:
  assumes rep: "mdb_rep \<sigma> L" and rep': "mdb_rep \<sigma>' L'" and rem: "lay_removed L s L'"
  shows "derived_set \<sigma>' =
    (if par \<sigma> s \<noteq> None then derived_set \<sigma> - {s} else derived_set \<sigma> - set (L (Kids s)))"
proof (cases "par \<sigma> s")
  case None
  then have "s \<notin> set (L (Kids p))" for p using rep_kids [OF rep, of s p] by simp
  then have "set (L' (Kids p)) = (if p = s then {} else set (L (Kids p)))" for p
    using rem by (simp add: lay_removed_def)
  moreover have "x \<in> set (L (Kids p)) \<Longrightarrow> x \<in> set (L (Kids s)) \<Longrightarrow> p = s" for x p
    using rep_disj [OF rep, of x "Kids p" "Kids s"] by simp
  ultimately have "x \<in> derived_set \<sigma>' \<longleftrightarrow> x \<in> derived_set \<sigma> \<and> x \<notin> set (L (Kids s))" for x
    unfolding derived_in [OF rep] derived_in [OF rep'] by (metis empty_iff)
  then show ?thesis using None by auto
next
  case (Some p)
  have sp: "s \<in> set (L (Kids q)) \<longleftrightarrow> q = p" for q using rep_kids [OF rep, of s q] Some by auto
  have self: "p \<noteq> s" using forest_no_self [OF rep [unfolded mdb_rep_def], of s] Some by auto
  have "set (L' (Kids q)) = (if q = s then {} else if q = p then set (L (Kids q)) - {s} \<union> set (L (Kids s))
      else set (L (Kids q)))" for q
    using rem sp by (simp add: lay_removed_def)
  moreover have "s \<notin> set (L (Kids s))" using sp self by simp
  ultimately have "x \<in> derived_set \<sigma>' \<longleftrightarrow> x \<in> derived_set \<sigma> \<and> x \<noteq> s" for x
    using self sp unfolding derived_in [OF rep] derived_in [OF rep']
    by (metis DiffE DiffI Un_iff empty_iff singletonD singletonI)
  then show ?thesis using Some by auto
qed

lemma gauges_detached:
  assumes rep: "mdb_rep \<sigma> L" and s: "node \<sigma> s" and fin: "finite (unparented_set \<sigma>)"
    and d: "detached s (lay_detach L s)
       (detach_ctr (length (L (Kids s))) (par \<sigma> s \<noteq> None) (mdb_flags (slots \<sigma> s))) \<sigma> \<sigma>'"
    and g: "gauges_ok \<sigma>"
  shows "gauges_ok \<sigma>'"
proof -
  have rep': "mdb_rep \<sigma>' (lay_detach L s)"
    and c: "ctr \<sigma>' = detach_ctr (length (L (Kids s))) (par \<sigma> s \<noteq> None) (mdb_flags (slots \<sigma> s)) (ctr \<sigma>)"
    using d by (simp_all add: detached_def)
  note der = removed_derived [OF rep rep' lay_detach_removed [OF rep s]]
  have kids: "set (L (Kids s)) \<subseteq> derived_set \<sigma>" by (auto simp: derived_in [OF rep])
  have "mdb_nodes_live (ctr \<sigma>') = of_nat (card (Collect (node \<sigma>')))"
    using g c detached_nodes [OF d] card_remove_word [OF rep_finite [OF rep], of s] s
    by (simp add: gauges_ok_def)
  moreover have "cdt_derived_live (ctr \<sigma>') = of_nat (card (derived_set \<sigma>'))"
    using g c der card_remove_word [OF derived_finite [OF rep], of s]
      card_remove_words [OF derived_finite [OF rep] kids rep_distinct [OF rep]]
    by (auto simp: gauges_ok_def derived_set_def)
  moreover have "mdb_unparented_roots (ctr \<sigma>') = of_nat (card (unparented_set \<sigma>'))"
    using g c detached_unparented [OF d] card_remove_word [OF fin, of s]
    by (auto simp: gauges_ok_def unparented_set_def)
  ultimately show ?thesis by (simp add: gauges_ok_def)
qed

subsection \<open>Connectivity\<close>

text \<open>
  Two nodes are neighbours when one is the other's parent or both are in one sibling list,
  which is what \<^verbatim>\<open>kcnode_slot_is_final_cap\<close> looks at.
\<close>

definition near :: "slotref layout \<Rightarrow> slotref \<Rightarrow> slotref \<Rightarrow> bool" where
  "near L x y \<longleftrightarrow> (\<exists>k. x \<in> set (L k) \<and> y \<in> set (L k)) \<or> y \<in> set (L (Kids x)) \<or> x \<in> set (L (Kids y))"

definition same_obj :: "(slotref \<Rightarrow> oid option) \<Rightarrow> slotref \<Rightarrow> slotref \<Rightarrow> bool" where
  "same_obj ob x y \<longleftrightarrow> (\<exists>q. ob x = Some q \<and> ob y = Some q)"

definition nbr :: "slotref layout \<Rightarrow> (slotref \<Rightarrow> oid option) \<Rightarrow> (slotref \<times> slotref) set" where
  "nbr L ob = {(x, y). near L x y \<and> same_obj ob x y}"

definition connected :: "slotref layout \<Rightarrow> (slotref \<Rightarrow> oid option) \<Rightarrow> bool" where
  "connected L ob \<longleftrightarrow> (\<forall>x y. same_obj ob x y \<longrightarrow> (x, y) \<in> (nbr L ob)\<^sup>*)"

abbreviation object_of :: "'z mdb_state_scheme \<Rightarrow> slotref \<Rightarrow> oid option" where
  "object_of \<sigma> s \<equiv> s_object (slots \<sigma> s)"

lemma near_sym: "near L x y \<longleftrightarrow> near L y x"
  by (auto simp: near_def)

lemma nbr_sym: "(x, y) \<in> nbr L ob \<longleftrightarrow> (y, x) \<in> nbr L ob"
  using near_sym [of L x y] by (auto simp: nbr_def same_obj_def)

lemma nbr_rtrancl_sym: "(x, y) \<in> (nbr L ob)\<^sup>* \<Longrightarrow> (y, x) \<in> (nbr L ob)\<^sup>*"
proof -
  have "sym (nbr L ob)" using nbr_sym by (metis symI)
  then show "(x, y) \<in> (nbr L ob)\<^sup>* \<Longrightarrow> (y, x) \<in> (nbr L ob)\<^sup>*" using sym_rtrancl by (metis symD)
qed

lemma removed_near:
  assumes rem: "lay_removed L s L'" and s: "s \<in> set (L k)" "k \<noteq> Kids s" and n: "near L x y" "x \<noteq> s" "y \<noteq> s"
  shows "near L' x y"
proof -
  have mem: "z \<in> set (L' k')" if "z \<in> set (L k')" "z \<noteq> s" "k' \<noteq> Kids s" for z k'
    using rem that by (auto simp: lay_removed_def)
  have up: "z \<in> set (L' k)" if "z \<in> set (L (Kids s))" for z
    using rem that s by (auto simp: lay_removed_def)
  from n(1) consider k' where "x \<in> set (L k')" "y \<in> set (L k')"
    | "y \<in> set (L (Kids x))" | "x \<in> set (L (Kids y))" by (auto simp: near_def)
  then show ?thesis
  proof cases
    case 1
    then show ?thesis using mem up n(2,3) unfolding near_def by metis
  next
    case 2
    then show ?thesis using mem [of y "Kids x"] n(2,3) by (auto simp: near_def)
  next
    case 3
    then show ?thesis using mem [of x "Kids y"] n(2,3) by (auto simp: near_def)
  qed
qed

text \<open>What the removed node's neighbours are to each other afterwards.\<close>

lemma removed_bridge:
  assumes rep: "mdb_rep \<sigma> L" and rem: "lay_removed L s L'" and s: "s \<in> set (L k)"
    and n: "near L x s" "near L s y" "x \<noteq> s" "y \<noteq> s"
  shows "x = y \<or> near L' x y"
proof -
  have self: "s \<notin> set (L (Kids s))"
    using rep_kids [OF rep, of s s] forest_no_self [OF rep [unfolded mdb_rep_def], of s] by simp
  have ks: "k \<noteq> Kids s" using s self by auto
  have in_k: "z \<in> set (L' k) \<or> k = Kids z" if "near L z s" "z \<noteq> s" for z
  proof -
    from that consider k' where "z \<in> set (L k')" "s \<in> set (L k')"
      | "s \<in> set (L (Kids z))" | "z \<in> set (L (Kids s))" by (auto simp: near_def)
    then show ?thesis
    proof cases
      case 1
      then have "k' = k" using rep_disj [OF rep, of s k' k] s by simp
      then show ?thesis using 1 rem s ks that(2) by (auto simp: lay_removed_def)
    next
      case 2
      then show ?thesis using rep_disj [OF rep, of s "Kids z" k] s by simp
    next
      case 3
      then show ?thesis using rem s ks by (auto simp: lay_removed_def)
    qed
  qed
  show ?thesis
    using in_k [of x] in_k [of y] n near_sym [of L s y] by (auto simp: near_def)
qed

lemma connected_removed:
  assumes rep: "mdb_rep \<sigma> L" and rem: "lay_removed L s L'" and s: "s \<in> set (L k)"
    and con: "connected L ob"
  shows "connected L' (ob(s := None))"
  unfolding connected_def
proof (intro allI impI)
  let ?R = "nbr L ob" and ?R' = "nbr L' (ob(s := None))"
  fix x y assume xy: "same_obj (ob(s := None)) x y"
  then have ne: "x \<noteq> s" "y \<noteq> s" by (auto simp: same_obj_def split: if_splits)
  have ks: "k \<noteq> Kids s"
    using rep_kids [OF rep, of s s] forest_no_self [OF rep [unfolded mdb_rep_def], of s] s by auto
  have edge: "(a, b) \<in> ?R'" if "(a, b) \<in> ?R" "a \<noteq> s" "b \<noteq> s" for a b
    using that removed_near [OF rem s ks, of a b] by (auto simp: nbr_def same_obj_def)
  have bridge: "(a, b) \<in> ?R'\<^sup>*" if "(a, s) \<in> ?R" "(s, b) \<in> ?R" "a \<noteq> s" "b \<noteq> s" for a b
    using that removed_bridge [OF rep rem s, of a b] by (auto simp: nbr_def same_obj_def)
  have "(x, z) \<in> ?R\<^sup>* \<Longrightarrow> (z \<noteq> s \<longrightarrow> (x, z) \<in> ?R'\<^sup>*) \<and>
      (z = s \<longrightarrow> (\<forall>w. (s, w) \<in> ?R \<longrightarrow> w \<noteq> s \<longrightarrow> (x, w) \<in> ?R'\<^sup>*))" for z
  proof (induction rule: rtrancl_induct)
    case base
    then show ?case using ne by simp
  next
    case (step a b)
    show ?case
    proof (cases "a = s")
      case True
      then show ?thesis using step by auto
    next
      case False
      then have xa: "(x, a) \<in> ?R'\<^sup>*" using step.IH by blast
      show ?thesis
      proof (cases "b = s")
        case True
        then show ?thesis using xa bridge step.hyps(2) False by (metis rtrancl_trans)
      next
        case b: False
        then show ?thesis
          using rtrancl.rtrancl_into_rtrancl [OF xa edge [OF step.hyps(2) False b]] by blast
      qed
    qed
  qed
  moreover have "(x, y) \<in> ?R\<^sup>*"
    using con xy ne by (auto simp: connected_def same_obj_def)
  ultimately show "(x, y) \<in> ?R'\<^sup>*" using ne by blast
qed

text \<open>A new node joins the capabilities to its object through one witness next to it.\<close>

lemma connected_added:
  assumes con: "connected L ob" and s: "ob s = None"
    and mono: "\<And>x y. near L x y \<Longrightarrow> x \<noteq> s \<Longrightarrow> y \<noteq> s \<Longrightarrow> near L' x y"
    and wit: "(\<forall>x. ob x \<noteq> Some q) \<or> (\<exists>t. ob t = Some q \<and> near L' s t)"
  shows "connected L' (ob(s := Some q))"
  unfolding connected_def
proof (intro allI impI)
  let ?R' = "nbr L' (ob(s := Some q))"
  have sub: "nbr L ob \<subseteq> ?R'" using mono s unfolding nbr_def same_obj_def by fastforce
  have sym: "(b, a) \<in> ?R'\<^sup>*" if "(a, b) \<in> ?R'\<^sup>*" for a b
    using that by (rule nbr_rtrancl_sym)
  have old: "(a, b) \<in> ?R'\<^sup>*" if "same_obj ob a b" for a b
    using con that rtrancl_mono [OF sub] by (auto simp: connected_def)
  have from_s: "(s, b) \<in> ?R'\<^sup>*" if "same_obj (ob(s := Some q)) s b" for b
  proof (cases "b = s")
    case False
    then have b: "ob b = Some q" using that by (auto simp: same_obj_def)
    with wit obtain t where t: "ob t = Some q" "near L' s t" by blast
    then have "(s, t) \<in> ?R'" using s by (auto simp: nbr_def same_obj_def)
    moreover have "(t, b) \<in> ?R'\<^sup>*" using old t(1) b by (auto simp: same_obj_def)
    ultimately show ?thesis by (rule converse_rtrancl_into_rtrancl)
  qed simp
  fix x y assume xy: "same_obj (ob(s := Some q)) x y"
  consider "x = s" | "y = s" | "x \<noteq> s" "y \<noteq> s" by blast
  then show "(x, y) \<in> ?R'\<^sup>*"
  proof cases
    case 1
    then show ?thesis using from_s xy by blast
  next
    case 2
    then have "same_obj (ob(s := Some q)) s x" using xy by (auto simp: same_obj_def)
    then show ?thesis using from_s sym 2 by blast
  next
    case 3
    then show ?thesis using old [of x y] xy by (auto simp: same_obj_def)
  qed
qed

lemma connected_child:
  assumes "connected L ob" "ob s = None"
    and "(\<forall>x. ob x \<noteq> Some q) \<or> (\<exists>t. ob t = Some q \<and> (t = p \<or> t \<in> set (L (Kids p))))"
  shows "connected (L(Kids p := s # L (Kids p))) (ob(s := Some q))"
proof (rule connected_added [OF assms(1,2)])
  show "near (L(Kids p := s # L (Kids p))) x y" if "near L x y" for x y
    using that unfolding near_def by (metis fun_upd_apply list.set_intros(2))
  show "(\<forall>x. ob x \<noteq> Some q) \<or> (\<exists>t. ob t = Some q \<and> near (L(Kids p := s # L (Kids p))) s t)"
    using assms(3) unfolding near_def by (metis fun_upd_same list.set_intros(1,2))
qed

lemma connected_root:
  assumes "connected L ob" "ob s = None" "\<forall>x. ob x \<noteq> Some q" "L (Grp g) = []"
  shows "connected (L(Grp g := [s])) (ob(s := Some q))"
proof (rule connected_added [OF assms(1,2)])
  show "near (L(Grp g := [s])) x y" if "near L x y" for x y
    using that assms(4) unfolding near_def by (metis empty_iff fun_upd_other list.set(1) lkey.distinct(1))
qed (use assms(3) in blast)

text \<open>Moving a node renames it.\<close>

lemma near_conj: "near L x y \<Longrightarrow> near (conj_layout (exch a b) L) (exch a b x) (exch a b y)"
proof -
  have m: "exch a b z \<in> set (conj_layout (exch a b) L (map_key (exch a b) k))" if "z \<in> set (L k)" for z k
    using that map_key_invol [of "exch a b" k] by (simp add: conj_layout_def)
  assume "near L x y"
  then consider k where "x \<in> set (L k)" "y \<in> set (L k)" | "y \<in> set (L (Kids x))" | "x \<in> set (L (Kids y))"
    by (auto simp: near_def)
  then show ?thesis
  proof cases
    case 1
    then show ?thesis using m unfolding near_def by blast
  next
    case 2
    then show ?thesis using m [of y "Kids x"] by (simp add: near_def)
  next
    case 3
    then show ?thesis using m [of x "Kids y"] by (simp add: near_def)
  qed
qed

lemma connected_conj:
  assumes con: "connected L ob"
  shows "connected (conj_layout (exch a b) L) (\<lambda>x. ob (exch a b x))"
  unfolding connected_def
proof (intro allI impI)
  let ?R' = "nbr (conj_layout (exch a b) L) (\<lambda>x. ob (exch a b x))"
  fix x y assume "same_obj (\<lambda>x. ob (exch a b x)) x y"
  then have "(exch a b x, exch a b y) \<in> (nbr L ob)\<^sup>*" using con by (auto simp: connected_def same_obj_def)
  then have "(exch a b (exch a b x), exch a b (exch a b y)) \<in> ?R'\<^sup>*"
  proof (induction rule: rtrancl_induct)
    case (step u v)
    then have "(exch a b u, exch a b v) \<in> ?R'" using near_conj by (auto simp: nbr_def same_obj_def)
    with step.IH show ?case by (rule rtrancl_into_rtrancl)
  qed simp
  then show "(x, y) \<in> ?R'\<^sup>*" by simp
qed

subsection \<open>The final capability\<close>

lemma chain_names_dseg:
  "dseg nx pv p xs None \<Longrightarrow> chain_names nx P (head_or xs None) = Some (\<exists>x\<in>set xs. P x)"
proof (induction xs arbitrary: p)
  case Nil
  then show ?case by (simp add: chain_names.simps)
next
  case (Cons a xs)
  then have "chain_names nx P (nx a) = Some (\<exists>x\<in>set xs. P x)" by auto
  then show ?case by (subst chain_names.simps) auto
qed

lemma chain_names_rev:
  "dseg nx pv None xs q \<Longrightarrow> chain_names pv P (last_or xs None) = Some (\<exists>x\<in>set xs. P x)"
proof (induction xs arbitrary: q rule: rev_induct)
  case Nil
  then show ?case by (simp add: chain_names.simps)
next
  case (snoc a xs)
  then have "chain_names pv P (pv a) = Some (\<exists>x\<in>set xs. P x)" by auto
  then show ?case by (subst chain_names.simps) auto
qed

lemma final_cap_near:
  assumes rep: "mdb_rep \<sigma> L" and ob: "object_of \<sigma> s = Some q" and s: "node \<sigma> s"
  shows "kcnode_slot_is_final_cap \<sigma> s =
    Some (\<not> (\<exists>y. y \<noteq> s \<and> near L s y \<and> object_of \<sigma> y = Some q))"
proof -
  let ?P = "\<lambda>x. s_object (slots \<sigma> x) = Some q"
  obtain k as bs where k: "L k = as @ s # bs" using rep_split [OF rep s] .
  have d: "dseg (nxt \<sigma>) (prv \<sigma>) None (as @ s # bs) None" using rep_dseg [OF rep, of k] k by simp
  have sib: "nxt \<sigma> s = head_or bs None" "prv \<sigma> s = last_or as None" using d by simp_all
  have self: "s \<notin> set (L (Kids s))"
    using rep_kids [OF rep, of s s] forest_no_self [OF rep [unfolded mdb_rep_def], of s] by simp
  have ch: "chain_names (nxt \<sigma>) ?P (fch \<sigma> s) = Some (\<exists>x\<in>set (L (Kids s)). ?P x)"
    using chain_names_dseg [OF rep_dseg [OF rep, of "Kids s"]] rep_fch [OF rep, of s] by simp
  have nx: "chain_names (nxt \<sigma>) ?P (nxt \<sigma> s) = Some (\<exists>x\<in>set bs. ?P x)"
    unfolding sib using d by (intro chain_names_dseg [where pv = "prv \<sigma>" and p = "Some s"]) simp
  have pv: "chain_names (prv \<sigma>) ?P (prv \<sigma> s) = Some (\<exists>x\<in>set as. ?P x)"
    unfolding sib using d by (intro chain_names_rev [where nx = "nxt \<sigma>" and q = "Some s"]) simp
  have pa: "(case par \<sigma> s of None \<Rightarrow> False | Some p \<Rightarrow> ?P p) \<longleftrightarrow> (\<exists>y. par \<sigma> s = Some y \<and> ?P y)"
    by (cases "par \<sigma> s") auto
  have mates: "(\<exists>k'. s \<in> set (L k') \<and> y \<in> set (L k')) \<longleftrightarrow> y \<in> set as \<or> y = s \<or> y \<in> set bs" for y
  proof -
    have "s \<in> set (L k') \<longleftrightarrow> k' = k" for k' using rep_disj [OF rep, of s k' k] k by auto
    then show ?thesis using k by auto
  qed
  have dist: "s \<notin> set as" "s \<notin> set bs" using rep_distinct [OF rep, of k] k by simp_all
  have ne: "y \<in> set as \<Longrightarrow> y \<noteq> s" "y \<in> set bs \<Longrightarrow> y \<noteq> s" "y \<in> set (L (Kids s)) \<Longrightarrow> y \<noteq> s"
    "s \<in> set (L (Kids y)) \<Longrightarrow> y \<noteq> s" for y using dist self by auto
  have all: "(\<exists>y. y \<noteq> s \<and> near L s y \<and> ?P y) \<longleftrightarrow> (\<exists>y. par \<sigma> s = Some y \<and> ?P y) \<or>
      (\<exists>x\<in>set (L (Kids s)). ?P x) \<or> (\<exists>x\<in>set bs. ?P x) \<or> (\<exists>x\<in>set as. ?P x)"
    unfolding near_def mates rep_kids [OF rep, of s, symmetric]
    using ne by blast
  show ?thesis
    unfolding all kcnode_slot_is_final_cap_def ob Let_def ch nx pv pa by simp
qed

lemma connected_near:
  assumes "connected L ob" "ob s = Some q" "ob t = Some q" "t \<noteq> s"
  shows "\<exists>y. y \<noteq> s \<and> near L s y \<and> ob y = Some q"
proof -
  have "(s, t) \<in> (nbr L ob)\<^sup>*" using assms by (auto simp: connected_def same_obj_def)
  then have "t = s \<or> (\<exists>y. y \<noteq> s \<and> (s, y) \<in> nbr L ob)"
  proof (induction rule: rtrancl_induct)
    case (step a b)
    then show ?case by (cases "b = s") auto
  qed simp
  then show ?thesis using assms(2,4) by (auto simp: nbr_def same_obj_def)
qed

lemma final_cap_exact:
  assumes "mdb_rep \<sigma> L" "node \<sigma> s" "connected L (object_of \<sigma>)" "object_of \<sigma> s = Some q"
  shows "kcnode_slot_is_final_cap \<sigma> s = Some (\<forall>t. object_of \<sigma> t = Some q \<longrightarrow> t = s)"
  using final_cap_near [OF assms(1,4,2)] connected_near [OF assms(3,4)] assms(4) by auto

subsection \<open>Moving a node, seen through the invariants\<close>

lemma exch_inj: "inj_on (exch a b) A"
  by (metis exch_invol inj_onI)

lemma rep_conj_par:
  assumes rep: "mdb_rep \<sigma> L" and rep': "mdb_rep \<sigma>' (conj_layout (exch a b) L)"
  shows "par \<sigma>' x = map_option (exch a b) (par \<sigma> (exch a b x))"
proof -
  have "par \<sigma>' x = Some q \<longleftrightarrow> par \<sigma> (exch a b x) = Some (exch a b q)" for q
  proof -
    have "x \<in> exch a b ` A \<longleftrightarrow> exch a b x \<in> A" for A by (metis exch_invol image_iff)
    then show ?thesis
      using rep_kids [OF rep', of x q] rep_kids [OF rep, of "exch a b x" "exch a b q"]
      by (simp add: conj_layout_def)
  qed
  then show ?thesis
    by (cases "par \<sigma>' x"; cases "par \<sigma> (exch a b x)") (auto, metis exch_invol option.distinct(1))
qed

text \<open>One relocation into an empty slot, with everything the invariants need.\<close>

lemma relocate_step:
  assumes rep: "mdb_rep \<sigma> L" and a: "node \<sigma> a" and b: "slots \<sigma> b = empty_slot"
  shows "\<exists>\<sigma>'. mdb_relocate a b cn \<sigma> = Some \<sigma>' \<and> mdb_rep \<sigma>' (conj_layout (exch a b) L) \<and>
     slots \<sigma>' a = empty_slot \<and>
     content (slots \<sigma>' b) = (s_object (slots \<sigma> a), s_rights (slots \<sigma> a), s_badge (slots \<sigma> a),
        Some cn, mdb_flags (slots \<sigma> a), 0, 0) \<and>
     (\<forall>x. x \<noteq> a \<longrightarrow> x \<noteq> b \<longrightarrow> content (slots \<sigma>' x) = content (slots \<sigma> x)) \<and>
     ctr \<sigma>' = ctr \<sigma> \<and> mdb_state.more \<sigma>' = mdb_state.more \<sigma> \<and>
     object_of \<sigma>' = (\<lambda>x. object_of \<sigma> (exch a b x)) \<and> (gauges_ok \<sigma> \<longrightarrow> gauges_ok \<sigma>')"
proof -
  have nb: "\<not> node \<sigma> b" using b by (simp add: node_def)
  then have ab: "a \<noteq> b" using a by auto
  from mdb_relocate_refines [OF rep a nb, of cn] obtain \<sigma>' where
    r: "mdb_relocate a b cn \<sigma> = Some \<sigma>'" "relocated a b cn \<sigma> \<sigma>'"
    and rep': "mdb_rep \<sigma>' (conj_layout (exch a b) L)" by blast
  have c: "slots \<sigma>' a = empty_slot" "content (slots \<sigma>' b) = (s_object (slots \<sigma> a), s_rights (slots \<sigma> a),
       s_badge (slots \<sigma> a), Some cn, mdb_flags (slots \<sigma> a), 0, 0)"
    "\<And>x. x \<noteq> a \<Longrightarrow> x \<noteq> b \<Longrightarrow> content (slots \<sigma>' x) = content (slots \<sigma> x)"
    "ctr \<sigma>' = ctr \<sigma>" "mdb_state.more \<sigma>' = mdb_state.more \<sigma>"
    using r(2) b by (simp_all add: relocated_def)
  have pw: "object_of \<sigma>' x = object_of \<sigma> (exch a b x)"
    "mdb_flags (slots \<sigma>' x) = mdb_flags (slots \<sigma> (exch a b x))" "node \<sigma>' x \<longleftrightarrow> node \<sigma> (exch a b x)" for x
    using c(1,2) c(3) [of x] b a nb ab
    by (cases "x = a"; cases "x = b"; simp add: content_def node_def)+
  have im: "A' = exch a b ` A" if "\<And>x. x \<in> A' \<longleftrightarrow> exch a b x \<in> A" for A A'
    using that by (metis (no_types, lifting) exch_invol image_iff set_eq_iff)
  have "card (Collect (node \<sigma>')) = card (Collect (node \<sigma>))"
    using im [of "Collect (node \<sigma>')" "Collect (node \<sigma>)"] pw(3) card_image [OF exch_inj] by simp
  moreover have "card (derived_set \<sigma>') = card (derived_set \<sigma>)"
    using im [of "derived_set \<sigma>'" "derived_set \<sigma>"] rep_conj_par [OF rep rep'] card_image [OF exch_inj]
    by (simp add: derived_set_def)
  moreover have "card (unparented_set \<sigma>') = card (unparented_set \<sigma>)"
    using im [of "unparented_set \<sigma>'" "unparented_set \<sigma>"] pw(2) card_image [OF exch_inj]
    by (simp add: unparented_set_def)
  ultimately have "gauges_ok \<sigma> \<longrightarrow> gauges_ok \<sigma>'" using c(4) by (simp add: gauges_ok_def)
  then show ?thesis using r(1) rep' c pw(1) by (auto simp: fun_eq_iff)
qed

end
