(* ===== verification/Iris_Lifecycle.thy ===== *)
theory Iris_Lifecycle
  imports Iris_Tree
begin

text \<open>
  Object lifetime: the two reference counts of \<^verbatim>\<open>kobject.c\<close>, the teardown cascade and the
  delete family of \<^verbatim>\<open>kcnode.c\<close>, and the destructor of an Untyped (\<^verbatim>\<open>kuntyped.c\<close>).

  The object store is a partial map: a freed object is absent, and reading it, like a failed
  assertion, makes the operation not return (\<open>None\<close>).  A theorem that an operation returns
  therefore also says that it uses no freed object.  The functions call each other (releasing
  a capability may close a CNode, which deletes its slots, which releases capabilities), so
  every one of them is written over the continuation \<open>rec\<close> that runs a call, and
  \<open>kexec\<close> ties the knot as one recursive function of the call.

  The close, destroy and unmap hooks of the object types that are not modelled here
  (endpoints, threads, frames, \<dots>) enter as the parameter \<open>H\<close>: on their own state, which
  is the extension of the record, they yield a new state and the reference drops they make.
\<close>

subsection \<open>State\<close>

datatype cascade_link = NotQueued | CascadeEnd | NextObj oid

record kobj =
  ko_type :: kobject_type
  ko_refcount :: u32
  ko_active :: u32
  ko_ut_block_bytes :: u32
  ko_block_parent :: "oid option"
  ko_destroy_next :: cascade_link
  ko_slot_count :: nat
  ko_child_count :: u32
  ko_alloc_parent :: "oid option"
  ko_hdr_budget :: "oid option"

record kst = mdb_state +
  objs :: "oid \<Rightarrow> kobj option"
  cascade_head :: "oid option"
  cascade_running :: bool
  kcnode_live :: u32
  kuntyped_live :: u32

datatype hook = HClose | HDestroy | HFinaliseOrphans

datatype hook_effect = EActiveRelease oid | ERelease oid | EStorageFree oid | EReleaseChild oid

type_synonym 'e hooks = "hook \<Rightarrow> kobject_type \<Rightarrow> oid \<Rightarrow> 'e \<Rightarrow> hook_effect list \<times> 'e"

datatype kcall =
    CDropOld oid "oid option"
  | CActiveRelease oid
  | CRelease oid
  | CClose oid
  | CDestroy oid
  | CCascade oid
  | CDrain u32 u32
  | CEmptySlots oid nat
  | CEffects "hook_effect list"

type_synonym 'e runner = "kcall \<Rightarrow> 'e kst_scheme \<Rightarrow> 'e kst_scheme option"

definition IRIS_CASCADE_SLICE :: u32 where "IRIS_CASCADE_SLICE = 8"
definition KCNODE_MAX_SLOTS :: nat where "KCNODE_MAX_SLOTS = 4096"

definition put_obj :: "oid \<Rightarrow> kobj \<Rightarrow> 'e kst_scheme \<Rightarrow> 'e kst_scheme" where
  "put_obj o' k \<sigma> = \<sigma>\<lparr>objs := (objs \<sigma>)(o' \<mapsto> k)\<rparr>"

subsection \<open>Reference counts\<close>

definition kobject_init :: "oid \<Rightarrow> kobject_type \<Rightarrow> nat \<Rightarrow> 'e kst_scheme \<Rightarrow> 'e kst_scheme" where
  "kobject_init o' ty n \<sigma> =
     put_obj o' \<lparr>ko_type = ty, ko_refcount = 1, ko_active = 0, ko_ut_block_bytes = 0,
       ko_block_parent = None, ko_destroy_next = NotQueued, ko_slot_count = n,
       ko_child_count = 0, ko_alloc_parent = None, ko_hdr_budget = None\<rparr> \<sigma>"

definition kobject_init_in_untyped ::
    "oid \<Rightarrow> kobject_type \<Rightarrow> nat \<Rightarrow> u32 \<Rightarrow> oid \<Rightarrow> 'e kst_scheme \<Rightarrow> 'e kst_scheme" where
  "kobject_init_in_untyped o' ty n block_bytes pool \<sigma> =
     put_obj o' \<lparr>ko_type = ty, ko_refcount = 1, ko_active = 0, ko_ut_block_bytes = block_bytes,
       ko_block_parent = Some pool, ko_destroy_next = NotQueued, ko_slot_count = n,
       ko_child_count = 0, ko_alloc_parent = None, ko_hdr_budget = None\<rparr> \<sigma>"

definition kobject_retain :: "oid \<Rightarrow> 'e kst_scheme \<Rightarrow> 'e kst_scheme option" where
  "kobject_retain o' \<sigma> = do {
     k \<leftarrow> objs \<sigma> o';
     let prev = ko_refcount k;
     if prev < 1 then None else Some (put_obj o' (k\<lparr>ko_refcount := prev + 1\<rparr>) \<sigma>)
   }"

definition kobject_active_retain :: "oid \<Rightarrow> 'e kst_scheme \<Rightarrow> 'e kst_scheme option" where
  "kobject_active_retain o' \<sigma> = do {
     k \<leftarrow> objs \<sigma> o';
     Some (put_obj o' (k\<lparr>ko_active := ko_active k + 1\<rparr>) \<sigma>)
   }"

definition release_with :: "'e runner \<Rightarrow> oid \<Rightarrow> 'e kst_scheme \<Rightarrow> 'e kst_scheme option" where
  "release_with rec o' \<sigma> = do {
     k \<leftarrow> objs \<sigma> o';
     let prev = ko_refcount k;
     let \<sigma>1 = put_obj o' (k\<lparr>ko_refcount := prev - 1\<rparr>) \<sigma>;
     if prev < 1 then None else if prev = 1 then rec (CDestroy o') \<sigma>1 else Some \<sigma>1
   }"

definition active_release_with :: "'e runner \<Rightarrow> oid \<Rightarrow> 'e kst_scheme \<Rightarrow> 'e kst_scheme option" where
  "active_release_with rec o' \<sigma> = do {
     k \<leftarrow> objs \<sigma> o';
     let prev = ko_active k;
     let \<sigma>1 = put_obj o' (k\<lparr>ko_active := prev - 1\<rparr>) \<sigma>;
     if prev < 1 then None else if prev = 1 then rec (CClose o') \<sigma>1 else Some \<sigma>1
   }"

text \<open>
  \<^verbatim>\<open>kuntyped_release_child\<close> on the block of an object: the object is gone, the child count of the
  parent written in the block drops and the parent loses the reference the block held.
\<close>

definition release_child_with :: "'e runner \<Rightarrow> oid \<Rightarrow> 'e kst_scheme \<Rightarrow> 'e kst_scheme option" where
  "release_child_with rec o' \<sigma> = do {
     k \<leftarrow> objs \<sigma> o';
     let \<sigma>1 = \<sigma>\<lparr>objs := (objs \<sigma>)(o' := None)\<rparr>;
     (case ko_block_parent k of
        None \<Rightarrow> Some \<sigma>1
      | Some p \<Rightarrow> do {
          kp \<leftarrow> objs \<sigma>1 p;
          rec (CRelease p) (put_obj p (kp\<lparr>ko_child_count := ko_child_count kp - 1\<rparr>) \<sigma>1)
        })
   }"

text \<open>\<^verbatim>\<open>kobject_storage_free\<close>: slab storage goes back to the slab, an Untyped block to its parent.\<close>

definition storage_free_with :: "'e runner \<Rightarrow> oid \<Rightarrow> 'e kst_scheme \<Rightarrow> 'e kst_scheme option" where
  "storage_free_with rec o' \<sigma> = do {
     k \<leftarrow> objs \<sigma> o';
     if ko_ut_block_bytes k = 0 then Some (\<sigma>\<lparr>objs := (objs \<sigma>)(o' := None)\<rparr>)
     else release_child_with rec o' \<sigma>
   }"

text \<open>A hook of a type modelled elsewhere: its own state changes, then its drops are made.\<close>

definition hook_with ::
    "'e hooks \<Rightarrow> 'e runner \<Rightarrow> hook \<Rightarrow> kobject_type \<Rightarrow> oid \<Rightarrow> 'e kst_scheme \<Rightarrow> 'e kst_scheme option" where
  "hook_with H rec hk ty o' \<sigma> =
     (let (es, e) = H hk ty o' (kst.more \<sigma>) in rec (CEffects es) (\<sigma>\<lparr>kst.more := e\<rparr>))"

definition effects_with :: "'e runner \<Rightarrow> hook_effect list \<Rightarrow> 'e kst_scheme \<Rightarrow> 'e kst_scheme option" where
  "effects_with rec es \<sigma> =
     (case es of
        [] \<Rightarrow> Some \<sigma>
      | e # rest \<Rightarrow> do {
          \<sigma>1 \<leftarrow> (case e of
                   EActiveRelease p \<Rightarrow> rec (CActiveRelease p) \<sigma>
                 | ERelease p \<Rightarrow> rec (CRelease p) \<sigma>
                 | EStorageFree p \<Rightarrow> storage_free_with rec p \<sigma>
                 | EReleaseChild p \<Rightarrow> release_child_with rec p \<sigma>);
          rec (CEffects rest) \<sigma>1
        })"

subsection \<open>Dispatch on the object type\<close>

definition dispatch_close_with ::
    "'e hooks \<Rightarrow> 'e runner \<Rightarrow> oid \<Rightarrow> 'e kst_scheme \<Rightarrow> 'e kst_scheme option" where
  "dispatch_close_with H rec o' \<sigma> = do {
     k \<leftarrow> objs \<sigma> o';
     (if ko_type k = KOBJ_CNODE then rec (CCascade o') \<sigma>
      else if ko_type k = KOBJ_UNTYPED then Some \<sigma>
      else if ko_type k \<in> {KOBJ_TCB, KOBJ_PROCESS, KOBJ_CHANNEL, KOBJ_VMO, KOBJ_INITRD_ENTRY}
           then Some \<sigma>
      else hook_with H rec HClose (ko_type k) o' \<sigma>)
   }"

definition kcnode_obj_destroy_with :: "'e runner \<Rightarrow> oid \<Rightarrow> 'e kst_scheme \<Rightarrow> 'e kst_scheme option" where
  "kcnode_obj_destroy_with rec o' \<sigma> = do {
     \<sigma>1 \<leftarrow> rec (CEmptySlots o' 0) \<sigma>;
     storage_free_with rec o' (\<sigma>1\<lparr>kcnode_live := kcnode_live \<sigma>1 - 1\<rparr>)
   }"

definition kuntyped_obj_destroy_with :: "'e runner \<Rightarrow> oid \<Rightarrow> 'e kst_scheme \<Rightarrow> 'e kst_scheme option" where
  "kuntyped_obj_destroy_with rec o' \<sigma> = do {
     u \<leftarrow> objs \<sigma> o';
     let parent = ko_alloc_parent u;
     let hdrs = ko_hdr_budget u;
     \<sigma>1 \<leftarrow> storage_free_with rec o' (\<sigma>\<lparr>kuntyped_live := kuntyped_live \<sigma> - 1\<rparr>);
     \<sigma>2 \<leftarrow> (case parent of
              None \<Rightarrow> Some \<sigma>1
            | Some p \<Rightarrow> do {
                kp \<leftarrow> objs \<sigma>1 p;
                rec (CRelease p) (put_obj p (kp\<lparr>ko_child_count := ko_child_count kp - 1\<rparr>) \<sigma>1)
              });
     (case hdrs of None \<Rightarrow> Some \<sigma>2 | Some h \<Rightarrow> rec (CRelease h) \<sigma>2)
   }"

definition dispatch_destroy_with ::
    "'e hooks \<Rightarrow> 'e runner \<Rightarrow> oid \<Rightarrow> 'e kst_scheme \<Rightarrow> 'e kst_scheme option" where
  "dispatch_destroy_with H rec o' \<sigma> = do {
     k \<leftarrow> objs \<sigma> o';
     (if ko_type k = KOBJ_CNODE then kcnode_obj_destroy_with rec o' \<sigma>
      else if ko_type k = KOBJ_UNTYPED then kuntyped_obj_destroy_with rec o' \<sigma>
      else if ko_type k \<in> {KOBJ_PROCESS, KOBJ_CHANNEL, KOBJ_VMO, KOBJ_INITRD_ENTRY} then None
      else hook_with H rec HDestroy (ko_type k) o' \<sigma>)
   }"

subsection \<open>Deleting a slot\<close>

definition kcnode_slot_delete_locked ::
    "oid \<Rightarrow> nat \<Rightarrow> 'e kst_scheme \<Rightarrow> (iris_status \<times> oid option \<times> 'e kst_scheme) option" where
  "kcnode_slot_delete_locked cn slot_idx \<sigma> = do {
     k \<leftarrow> objs \<sigma> cn;
     if slot_idx \<ge> ko_slot_count k then Some (IRIS_ERR_INVALID_ARG, None, \<sigma>)
     else case s_object (slots \<sigma> (Slot cn slot_idx)) of
            None \<Rightarrow> Some (IRIS_OK, None, \<sigma>)
          | Some old \<Rightarrow> do {
              let \<sigma>1 = upd_slot (Slot cn slot_idx)
                         (\<lambda>x. x\<lparr>s_object := None, s_rights := RIGHT_NONE, s_badge := 0\<rparr>) \<sigma>;
              \<sigma>2 \<leftarrow> (if mdb_cnode (slots \<sigma>1 (Slot cn slot_idx)) \<noteq> None
                      then mdb_detach_reparent (Slot cn slot_idx) \<sigma>1 else Some \<sigma>1);
              Some (IRIS_OK, Some old,
                    upd_ctr (\<lambda>c. c\<lparr>cdt_delete_count := cdt_delete_count c + 1\<rparr>) \<sigma>2)
            }
   }"

definition drop_old_with ::
    "'e hooks \<Rightarrow> 'e runner \<Rightarrow> oid \<Rightarrow> oid option \<Rightarrow> 'e kst_scheme \<Rightarrow> 'e kst_scheme option" where
  "drop_old_with H rec cn old \<sigma> =
     (case old of
        None \<Rightarrow> Some \<sigma>
      | Some o' \<Rightarrow> do {
          \<sigma>1 \<leftarrow> (if o' \<noteq> cn then rec (CActiveRelease o') \<sigma> else Some \<sigma>);
          k \<leftarrow> objs \<sigma>1 o';
          \<sigma>2 \<leftarrow> (if ko_type k = KOBJ_FRAME \<or> ko_type k = KOBJ_PAGE_TABLE
                  then hook_with H rec HFinaliseOrphans (ko_type k) o' \<sigma>1 else Some \<sigma>1);
          rec (CRelease o') \<sigma>2
        })"

definition slot_delete_with ::
    "'e runner \<Rightarrow> oid \<Rightarrow> nat \<Rightarrow> 'e kst_scheme \<Rightarrow> (iris_status \<times> 'e kst_scheme) option" where
  "slot_delete_with rec cn slot_idx \<sigma> = do {
     (r, old, \<sigma>1) \<leftarrow> kcnode_slot_delete_locked cn slot_idx \<sigma>;
     \<sigma>2 \<leftarrow> rec (CDropOld cn old) \<sigma>1;
     Some (r, \<sigma>2)
   }"

subsection \<open>The teardown cascade\<close>

definition empty_slots_with :: "'e runner \<Rightarrow> oid \<Rightarrow> nat \<Rightarrow> 'e kst_scheme \<Rightarrow> 'e kst_scheme option" where
  "empty_slots_with rec cn i \<sigma> = do {
     k \<leftarrow> objs \<sigma> cn;
     if i < ko_slot_count k then do {
       (_, \<sigma>1) \<leftarrow> slot_delete_with rec cn i \<sigma>;
       rec (CEmptySlots cn (i + 1)) \<sigma>1
     } else Some \<sigma>
   }"

definition cascade_drain_with :: "'e runner \<Rightarrow> u32 \<Rightarrow> u32 \<Rightarrow> 'e kst_scheme \<Rightarrow> 'e kst_scheme option" where
  "cascade_drain_with rec budget done \<sigma> =
     (case cascade_head \<sigma> of
        None \<Rightarrow> Some (\<sigma>\<lparr>cascade_running := False\<rparr>)
      | Some o' \<Rightarrow>
          if budget \<noteq> 0 \<and> done \<ge> budget then Some (\<sigma>\<lparr>cascade_running := False\<rparr>)
          else do {
            k \<leftarrow> objs \<sigma> o';
            let \<sigma>1 = put_obj o' (k\<lparr>ko_destroy_next := NotQueued\<rparr>)
                       (\<sigma>\<lparr>cascade_head := (case ko_destroy_next k of NextObj p \<Rightarrow> Some p | _ \<Rightarrow> None)\<rparr>);
            \<sigma>2 \<leftarrow> rec (CEmptySlots o' 0) \<sigma>1;
            \<sigma>3 \<leftarrow> rec (CRelease o') \<sigma>2;
            rec (CDrain budget (done + 1)) \<sigma>3
          })"

definition cascade_with :: "'e runner \<Rightarrow> oid \<Rightarrow> 'e kst_scheme \<Rightarrow> 'e kst_scheme option" where
  "cascade_with rec cn \<sigma> =
     (if cascade_running \<sigma> then do {
        k \<leftarrow> objs \<sigma> cn;
        if ko_destroy_next k = NotQueued then do {
          \<sigma>1 \<leftarrow> kobject_retain cn \<sigma>;
          k1 \<leftarrow> objs \<sigma>1 cn;
          Some ((put_obj cn (k1\<lparr>ko_destroy_next :=
                  (case cascade_head \<sigma>1 of Some h \<Rightarrow> NextObj h | None \<Rightarrow> CascadeEnd)\<rparr>) \<sigma>1)
                \<lparr>cascade_head := Some cn\<rparr>)
        } else Some \<sigma>
      } else do {
        \<sigma>2 \<leftarrow> rec (CEmptySlots cn 0) (\<sigma>\<lparr>cascade_running := True\<rparr>);
        rec (CDrain (IRIS_CASCADE_SLICE - 1) 0) \<sigma>2
      })"

subsection \<open>Tying the knot\<close>

lemma mono_case_option:
  assumes "mono_option a" "\<And>y. mono_option (\<lambda>f. b f y)"
  shows "mono_option (\<lambda>f. case x of None \<Rightarrow> a f | Some y \<Rightarrow> b f y)"
  using assms by (cases x) auto

lemma mono_case_list:
  assumes "mono_option a" "\<And>y ys. mono_option (\<lambda>f. b f y ys)"
  shows "mono_option (\<lambda>f. case x of [] \<Rightarrow> a f | y # ys \<Rightarrow> b f y ys)"
  using assms by (cases x) auto

lemma mono_case_prod:
  assumes "\<And>y z. mono_option (\<lambda>f. b f y z)"
  shows "mono_option (\<lambda>f. case x of (y, z) \<Rightarrow> b f y z)"
  using assms by (cases x) auto

lemma mono_case_effect:
  assumes "\<And>p. mono_option (\<lambda>f. a f p)" "\<And>p. mono_option (\<lambda>f. b f p)" "\<And>p. mono_option (\<lambda>f. c f p)"
    "\<And>p. mono_option (\<lambda>f. d f p)"
  shows "mono_option (\<lambda>f. case x of EActiveRelease p \<Rightarrow> a f p | ERelease p \<Rightarrow> b f p
           | EStorageFree p \<Rightarrow> c f p | EReleaseChild p \<Rightarrow> d f p)"
  using assms by (cases x) auto

lemmas mono_intros = mono_case_option mono_case_list mono_case_prod mono_case_effect

lemma release_mono [partial_function_mono]:
  assumes "\<And>c \<sigma>. mono_option (\<lambda>f. r f c \<sigma>)"
  shows "mono_option (\<lambda>f. release_with (r f) o' \<sigma>)"
  unfolding release_with_def Let_def by (intro partial_function_mono mono_intros assms)

lemma active_release_mono [partial_function_mono]:
  assumes "\<And>c \<sigma>. mono_option (\<lambda>f. r f c \<sigma>)"
  shows "mono_option (\<lambda>f. active_release_with (r f) o' \<sigma>)"
  unfolding active_release_with_def Let_def by (intro partial_function_mono mono_intros assms)

lemma release_child_mono [partial_function_mono]:
  assumes "\<And>c \<sigma>. mono_option (\<lambda>f. r f c \<sigma>)"
  shows "mono_option (\<lambda>f. release_child_with (r f) o' \<sigma>)"
  unfolding release_child_with_def Let_def by (intro partial_function_mono mono_intros assms)

lemma storage_free_mono [partial_function_mono]:
  assumes "\<And>c \<sigma>. mono_option (\<lambda>f. r f c \<sigma>)"
  shows "mono_option (\<lambda>f. storage_free_with (r f) o' \<sigma>)"
  unfolding storage_free_with_def Let_def by (intro partial_function_mono mono_intros assms)

lemma hook_mono [partial_function_mono]:
  assumes "\<And>c \<sigma>. mono_option (\<lambda>f. r f c \<sigma>)"
  shows "mono_option (\<lambda>f. hook_with H (r f) hk ty o' \<sigma>)"
  unfolding hook_with_def Let_def by (intro partial_function_mono mono_intros assms)

lemma effects_mono [partial_function_mono]:
  assumes "\<And>c \<sigma>. mono_option (\<lambda>f. r f c \<sigma>)"
  shows "mono_option (\<lambda>f. effects_with (r f) es \<sigma>)"
  unfolding effects_with_def Let_def by (intro partial_function_mono mono_intros assms)

lemma dispatch_close_mono [partial_function_mono]:
  assumes "\<And>c \<sigma>. mono_option (\<lambda>f. r f c \<sigma>)"
  shows "mono_option (\<lambda>f. dispatch_close_with H (r f) o' \<sigma>)"
  unfolding dispatch_close_with_def Let_def by (intro partial_function_mono mono_intros assms)

lemma kcnode_obj_destroy_mono [partial_function_mono]:
  assumes "\<And>c \<sigma>. mono_option (\<lambda>f. r f c \<sigma>)"
  shows "mono_option (\<lambda>f. kcnode_obj_destroy_with (r f) o' \<sigma>)"
  unfolding kcnode_obj_destroy_with_def Let_def by (intro partial_function_mono mono_intros assms)

lemma kuntyped_obj_destroy_mono [partial_function_mono]:
  assumes "\<And>c \<sigma>. mono_option (\<lambda>f. r f c \<sigma>)"
  shows "mono_option (\<lambda>f. kuntyped_obj_destroy_with (r f) o' \<sigma>)"
  unfolding kuntyped_obj_destroy_with_def Let_def by (intro partial_function_mono mono_intros assms)

lemma dispatch_destroy_mono [partial_function_mono]:
  assumes "\<And>c \<sigma>. mono_option (\<lambda>f. r f c \<sigma>)"
  shows "mono_option (\<lambda>f. dispatch_destroy_with H (r f) o' \<sigma>)"
  unfolding dispatch_destroy_with_def Let_def by (intro partial_function_mono mono_intros assms)

lemma drop_old_mono [partial_function_mono]:
  assumes "\<And>c \<sigma>. mono_option (\<lambda>f. r f c \<sigma>)"
  shows "mono_option (\<lambda>f. drop_old_with H (r f) cn old \<sigma>)"
  unfolding drop_old_with_def Let_def by (intro partial_function_mono mono_intros assms)

lemma slot_delete_mono [partial_function_mono]:
  assumes "\<And>c \<sigma>. mono_option (\<lambda>f. r f c \<sigma>)"
  shows "mono_option (\<lambda>f. slot_delete_with (r f) cn i \<sigma>)"
  unfolding slot_delete_with_def Let_def by (intro partial_function_mono mono_intros assms)

lemma empty_slots_mono [partial_function_mono]:
  assumes "\<And>c \<sigma>. mono_option (\<lambda>f. r f c \<sigma>)"
  shows "mono_option (\<lambda>f. empty_slots_with (r f) cn i \<sigma>)"
  unfolding empty_slots_with_def Let_def by (intro partial_function_mono mono_intros assms)

lemma cascade_drain_mono [partial_function_mono]:
  assumes "\<And>c \<sigma>. mono_option (\<lambda>f. r f c \<sigma>)"
  shows "mono_option (\<lambda>f. cascade_drain_with (r f) budget n \<sigma>)"
  unfolding cascade_drain_with_def Let_def by (intro partial_function_mono mono_intros assms)

lemma cascade_mono [partial_function_mono]:
  assumes "\<And>c \<sigma>. mono_option (\<lambda>f. r f c \<sigma>)"
  shows "mono_option (\<lambda>f. cascade_with (r f) cn \<sigma>)"
  unfolding cascade_with_def Let_def by (intro partial_function_mono mono_intros assms)

partial_function (option) kexec ::
    "'e hooks \<times> kcall \<times> 'e kst_scheme \<Rightarrow> 'e kst_scheme option" where
  "kexec x =
     (case x of (H, call, \<sigma>) \<Rightarrow>
        (case call of
           CDropOld cn old \<Rightarrow> drop_old_with H (\<lambda>c \<tau>. kexec (H, c, \<tau>)) cn old \<sigma>
         | CActiveRelease o' \<Rightarrow> active_release_with (\<lambda>c \<tau>. kexec (H, c, \<tau>)) o' \<sigma>
         | CRelease o' \<Rightarrow> release_with (\<lambda>c \<tau>. kexec (H, c, \<tau>)) o' \<sigma>
         | CClose o' \<Rightarrow> dispatch_close_with H (\<lambda>c \<tau>. kexec (H, c, \<tau>)) o' \<sigma>
         | CDestroy o' \<Rightarrow> dispatch_destroy_with H (\<lambda>c \<tau>. kexec (H, c, \<tau>)) o' \<sigma>
         | CCascade cn \<Rightarrow> cascade_with (\<lambda>c \<tau>. kexec (H, c, \<tau>)) cn \<sigma>
         | CDrain budget n \<Rightarrow> cascade_drain_with (\<lambda>c \<tau>. kexec (H, c, \<tau>)) budget n \<sigma>
         | CEmptySlots cn i \<Rightarrow> empty_slots_with (\<lambda>c \<tau>. kexec (H, c, \<tau>)) cn i \<sigma>
         | CEffects es \<Rightarrow> effects_with (\<lambda>c \<tau>. kexec (H, c, \<tau>)) es \<sigma>))"

definition krun :: "'e hooks \<Rightarrow> kcall \<Rightarrow> 'e kst_scheme \<Rightarrow> 'e kst_scheme option" where
  "krun H c \<sigma> = kexec (H, c, \<sigma>)"

lemma krun_unfold:
  "krun H (CDropOld cn old) \<sigma> = drop_old_with H (krun H) cn old \<sigma>"
  "krun H (CActiveRelease o') \<sigma> = active_release_with (krun H) o' \<sigma>"
  "krun H (CRelease o') \<sigma> = release_with (krun H) o' \<sigma>"
  "krun H (CClose o') \<sigma> = dispatch_close_with H (krun H) o' \<sigma>"
  "krun H (CDestroy o') \<sigma> = dispatch_destroy_with H (krun H) o' \<sigma>"
  "krun H (CCascade cn) \<sigma> = cascade_with (krun H) cn \<sigma>"
  "krun H (CDrain budget n) \<sigma> = cascade_drain_with (krun H) budget n \<sigma>"
  "krun H (CEmptySlots cn i) \<sigma> = empty_slots_with (krun H) cn i \<sigma>"
  "krun H (CEffects es) \<sigma> = effects_with (krun H) es \<sigma>"
  unfolding krun_def [abs_def] by (subst kexec.simps, simp)+

text \<open>The operations other components call, under their names in the source.\<close>

definition kobject_release :: "'e hooks \<Rightarrow> oid \<Rightarrow> 'e kst_scheme \<Rightarrow> 'e kst_scheme option" where
  "kobject_release H o' = krun H (CRelease o')"

definition kobject_active_release :: "'e hooks \<Rightarrow> oid \<Rightarrow> 'e kst_scheme \<Rightarrow> 'e kst_scheme option" where
  "kobject_active_release H o' = krun H (CActiveRelease o')"

definition kcnode_slot_drop_old ::
    "'e hooks \<Rightarrow> oid \<Rightarrow> oid option \<Rightarrow> 'e kst_scheme \<Rightarrow> 'e kst_scheme option" where
  "kcnode_slot_drop_old H cn old = krun H (CDropOld cn old)"

definition kcnode_slot_delete ::
    "'e hooks \<Rightarrow> oid \<Rightarrow> nat \<Rightarrow> 'e kst_scheme \<Rightarrow> (iris_status \<times> 'e kst_scheme) option" where
  "kcnode_slot_delete H cn i = slot_delete_with (krun H) cn i"

definition kcnode_teardown_slots :: "'e hooks \<Rightarrow> oid \<Rightarrow> 'e kst_scheme \<Rightarrow> 'e kst_scheme option" where
  "kcnode_teardown_slots H cn = krun H (CEmptySlots cn 0)"

definition kcnode_close :: "'e hooks \<Rightarrow> oid \<Rightarrow> 'e kst_scheme \<Rightarrow> 'e kst_scheme option" where
  "kcnode_close H cn = kobject_release H cn"

definition kcnode_cascade_pending :: "'e kst_scheme \<Rightarrow> bool" where
  "kcnode_cascade_pending \<sigma> \<longleftrightarrow> cascade_head \<sigma> \<noteq> None"

definition kcnode_cascade_drain_slice :: "'e hooks \<Rightarrow> 'e kst_scheme \<Rightarrow> 'e kst_scheme option" where
  "kcnode_cascade_drain_slice H \<sigma> =
     (if cascade_running \<sigma> \<or> cascade_head \<sigma> = None then Some \<sigma>
      else krun H (CDrain IRIS_CASCADE_SLICE 0) (\<sigma>\<lparr>cascade_running := True\<rparr>))"

subsection \<open>One locked delete\<close>

lemma kst_more_eq:
  assumes "mdb_state.more \<sigma>' = mdb_state.more (\<sigma> :: 'e kst_scheme)"
  shows "objs \<sigma>' = objs \<sigma>" "cascade_head \<sigma>' = cascade_head \<sigma>"
    "cascade_running \<sigma>' = cascade_running \<sigma>" "kcnode_live \<sigma>' = kcnode_live \<sigma>"
    "kuntyped_live \<sigma>' = kuntyped_live \<sigma>" "kst.more \<sigma>' = kst.more \<sigma>"
  using assms by (cases \<sigma>; cases \<sigma>'; simp)+

definition clear_content :: "kcslot \<Rightarrow> kcslot" where
  "clear_content x = x\<lparr>s_object := None, s_rights := RIGHT_NONE, s_badge := 0\<rparr>"

lemma slot_ok_empty: "slot_ok s empty_slot"
  by (simp add: slot_ok_def split: slotref.split)

lemma rep_clear_content: "mdb_rep (upd_slot s clear_content \<sigma>) L \<longleftrightarrow> mdb_rep \<sigma> L"
  by (rule mdb_rep_cong) (simp_all add: node_def clear_content_def)

lemma detached_delete:
  assumes "detached s L' g (upd_slot s clear_content \<sigma>) \<sigma>'"
  shows "mdb_rep \<sigma>' L'" "slots \<sigma>' s = empty_slot"
    "\<And>x. x \<noteq> s \<Longrightarrow> content (slots \<sigma>' x) = content (slots \<sigma> x)"
    "object_of \<sigma>' = (object_of \<sigma>)(s := None)"
    "ctr \<sigma>' = g (ctr \<sigma>)" "mdb_state.more \<sigma>' = mdb_state.more \<sigma>"
proof -
  show "mdb_rep \<sigma>' L'" "slots \<sigma>' s = empty_slot" "ctr \<sigma>' = g (ctr \<sigma>)"
    "mdb_state.more \<sigma>' = mdb_state.more \<sigma>"
    using assms by (auto simp: detached_def clear_content_def empty_slot_def)
  show c: "content (slots \<sigma>' x) = content (slots \<sigma> x)" if "x \<noteq> s" for x
    using assms that by (simp add: detached_def)
  show "object_of \<sigma>' = (object_of \<sigma>)(s := None)"
  proof (rule ext)
    fix x show "object_of \<sigma>' x = ((object_of \<sigma>)(s := None)) x"
      using c [of x] \<open>slots \<sigma>' s = empty_slot\<close> by (cases "x = s") (auto simp: content_def)
  qed
qed

lemma delete_locked_refines:
  assumes rep: "mdb_rep \<sigma> L" and ok: "slots_ok \<sigma>" and k: "objs \<sigma> cn = Some k" "i < ko_slot_count k"
    and q: "object_of \<sigma> (Slot cn i) = Some q"
  shows "\<exists>\<sigma>1 \<sigma>'. mdb_detach_reparent (Slot cn i) (upd_slot (Slot cn i) clear_content \<sigma>) = Some \<sigma>1 \<and>
    detached (Slot cn i) (lay_detach L (Slot cn i))
      (detach_ctr (length (L (Kids (Slot cn i)))) (par \<sigma> (Slot cn i) \<noteq> None)
        (mdb_flags (slots \<sigma> (Slot cn i)))) (upd_slot (Slot cn i) clear_content \<sigma>) \<sigma>1 \<and>
    \<sigma>' = upd_ctr (\<lambda>c. c\<lparr>cdt_delete_count := cdt_delete_count c + 1\<rparr>) \<sigma>1 \<and>
    kcnode_slot_delete_locked cn i \<sigma> = Some (IRIS_OK, Some q, \<sigma>')"
proof -
  let ?s = "Slot cn i" and ?\<sigma> = "upd_slot (Slot cn i) clear_content \<sigma>"
  have n: "node ?\<sigma> ?s" using q node_iff [OF ok, of ?s] by (simp add: node_def clear_content_def)
  have v: "par ?\<sigma> ?s = par \<sigma> ?s" "mdb_flags (slots ?\<sigma> ?s) = mdb_flags (slots \<sigma> ?s)"
    by (simp_all add: clear_content_def)
  from mdb_detach_refines [OF _ n, of L] rep obtain \<sigma>1 where
    "mdb_detach_reparent ?s ?\<sigma> = Some \<sigma>1" "detached ?s (lay_detach L ?s)
      (detach_ctr (length (L (Kids ?s))) (par \<sigma> ?s \<noteq> None) (mdb_flags (slots \<sigma> ?s))) ?\<sigma> \<sigma>1"
    unfolding v by (auto simp: rep_clear_content)
  then show ?thesis using k q n
    by (auto simp: kcnode_slot_delete_locked_def Let_def node_def clear_content_def [abs_def])
qed

lemma delete_locked_cases:
  assumes d: "kcnode_slot_delete_locked cn i \<sigma> = Some (r, old, \<sigma>')" and rep: "mdb_rep \<sigma> L" and ok: "slots_ok \<sigma>"
  obtains (same) "\<sigma>' = \<sigma>" "old = None"
    | (gone) \<sigma>1 q where "old = Some q" "object_of \<sigma> (Slot cn i) = Some q"
      "detached (Slot cn i) (lay_detach L (Slot cn i))
        (detach_ctr (length (L (Kids (Slot cn i)))) (par \<sigma> (Slot cn i) \<noteq> None)
          (mdb_flags (slots \<sigma> (Slot cn i)))) (upd_slot (Slot cn i) clear_content \<sigma>) \<sigma>1"
      "\<sigma>' = upd_ctr (\<lambda>c. c\<lparr>cdt_delete_count := cdt_delete_count c + 1\<rparr>) \<sigma>1"
proof -
  obtain k where k: "objs \<sigma> cn = Some k" using d by (auto simp: kcnode_slot_delete_locked_def split: bind_splits)
  show thesis
  proof (cases "i < ko_slot_count k \<and> object_of \<sigma> (Slot cn i) \<noteq> None")
    case True
    then obtain q where q: "object_of \<sigma> (Slot cn i) = Some q" by auto
    from delete_locked_refines [OF rep ok k _ q] True d show thesis using gone [of q] q by auto
  next
    case False
    then show thesis using d k same
      by (auto simp: kcnode_slot_delete_locked_def split: if_splits option.splits)
  qed
qed

subsection \<open>Invariants of the cascade\<close>

text \<open>
  A predicate that looks only at the slots and the tree counters, and that one locked delete
  keeps, is kept by every lifecycle call, whatever the hooks do.
\<close>

locale cascade_inv =
  fixes H :: "'e hooks" and I :: "'e kst_scheme \<Rightarrow> bool"
  assumes keep_objs: "I \<sigma> \<Longrightarrow> I (\<sigma>\<lparr>objs := m\<rparr>)"
    and keep_head: "I \<sigma> \<Longrightarrow> I (\<sigma>\<lparr>cascade_head := h\<rparr>)"
    and keep_running: "I \<sigma> \<Longrightarrow> I (\<sigma>\<lparr>cascade_running := b\<rparr>)"
    and keep_live: "I \<sigma> \<Longrightarrow> I (\<sigma>\<lparr>kcnode_live := n\<rparr>)" "I \<sigma> \<Longrightarrow> I (\<sigma>\<lparr>kuntyped_live := n\<rparr>)"
    and keep_more: "I \<sigma> \<Longrightarrow> I (\<sigma>\<lparr>kst.more := e\<rparr>)"
    and keep_delete: "I \<sigma> \<Longrightarrow> kcnode_slot_delete_locked cn i \<sigma> = Some (r, old, \<sigma>') \<Longrightarrow> I \<sigma>'"
begin

lemma keep_put: "I \<sigma> \<Longrightarrow> I (put_obj o' k \<sigma>)"
  by (simp add: put_obj_def keep_objs)

lemmas keeps = keep_put keep_objs keep_head keep_running keep_live keep_more

lemma keep_retain: "kobject_retain o' \<sigma> = Some \<sigma>' \<Longrightarrow> I \<sigma> \<Longrightarrow> I \<sigma>'"
  by (auto simp: kobject_retain_def Let_def keeps split: bind_splits if_splits)

lemma keep_active_retain: "kobject_active_retain o' \<sigma> = Some \<sigma>' \<Longrightarrow> I \<sigma> \<Longrightarrow> I \<sigma>'"
  by (auto simp: kobject_active_retain_def keeps split: bind_splits)

definition good :: "'e runner \<Rightarrow> bool" where
  "good rec \<longleftrightarrow> (\<forall>c \<sigma> \<sigma>'. rec c \<sigma> = Some \<sigma>' \<longrightarrow> I \<sigma> \<longrightarrow> I \<sigma>')"

lemma goodD: "good rec \<Longrightarrow> rec c \<sigma> = Some \<sigma>' \<Longrightarrow> I \<sigma> \<Longrightarrow> I \<sigma>'"
  by (auto simp: good_def)

lemma keep_release: "good rec \<Longrightarrow> release_with rec o' \<sigma> = Some \<sigma>' \<Longrightarrow> I \<sigma> \<Longrightarrow> I \<sigma>'"
  by (auto simp: release_with_def Let_def keeps dest: goodD split: bind_splits if_splits)

lemma keep_active_release: "good rec \<Longrightarrow> active_release_with rec o' \<sigma> = Some \<sigma>' \<Longrightarrow> I \<sigma> \<Longrightarrow> I \<sigma>'"
  by (auto simp: active_release_with_def Let_def keeps dest: goodD split: bind_splits if_splits)

lemma keep_release_child: "good rec \<Longrightarrow> release_child_with rec o' \<sigma> = Some \<sigma>' \<Longrightarrow> I \<sigma> \<Longrightarrow> I \<sigma>'"
  by (auto simp: release_child_with_def Let_def keeps dest: goodD
      split: bind_splits if_splits option.splits)

lemma keep_storage_free: "good rec \<Longrightarrow> storage_free_with rec o' \<sigma> = Some \<sigma>' \<Longrightarrow> I \<sigma> \<Longrightarrow> I \<sigma>'"
  by (auto simp: storage_free_with_def keeps dest: keep_release_child split: bind_splits if_splits)

lemma keep_hook: "good rec \<Longrightarrow> hook_with H rec hk ty o' \<sigma> = Some \<sigma>' \<Longrightarrow> I \<sigma> \<Longrightarrow> I \<sigma>'"
  by (auto simp: hook_with_def Let_def keeps dest: goodD split: prod.splits)

lemma keep_effects: "good rec \<Longrightarrow> effects_with rec es \<sigma> = Some \<sigma>' \<Longrightarrow> I \<sigma> \<Longrightarrow> I \<sigma>'"
  by (auto simp: effects_with_def dest: goodD keep_storage_free keep_release_child
      split: list.splits bind_splits hook_effect.splits)

lemma keep_dispatch_close: "good rec \<Longrightarrow> dispatch_close_with H rec o' \<sigma> = Some \<sigma>' \<Longrightarrow> I \<sigma> \<Longrightarrow> I \<sigma>'"
  by (auto simp: dispatch_close_with_def dest: goodD keep_hook split: bind_splits if_splits)

lemma keep_kcnode_obj_destroy: "good rec \<Longrightarrow> kcnode_obj_destroy_with rec o' \<sigma> = Some \<sigma>' \<Longrightarrow> I \<sigma> \<Longrightarrow> I \<sigma>'"
  by (auto simp: kcnode_obj_destroy_with_def split: bind_splits)
    (metis goodD keep_storage_free keep_live)

lemma keep_kuntyped_obj_destroy: "good rec \<Longrightarrow> kuntyped_obj_destroy_with rec o' \<sigma> = Some \<sigma>' \<Longrightarrow> I \<sigma> \<Longrightarrow> I \<sigma>'"
  by (auto simp: kuntyped_obj_destroy_with_def Let_def split: bind_splits option.splits)
    (metis goodD keep_storage_free keep_live keep_put)+

lemma keep_dispatch_destroy: "good rec \<Longrightarrow> dispatch_destroy_with H rec o' \<sigma> = Some \<sigma>' \<Longrightarrow> I \<sigma> \<Longrightarrow> I \<sigma>'"
  by (auto simp: dispatch_destroy_with_def
      dest: keep_hook keep_kcnode_obj_destroy keep_kuntyped_obj_destroy split: bind_splits if_splits)

lemma keep_drop_old: "good rec \<Longrightarrow> drop_old_with H rec cn old \<sigma> = Some \<sigma>' \<Longrightarrow> I \<sigma> \<Longrightarrow> I \<sigma>'"
  by (auto simp: drop_old_with_def dest: goodD keep_hook split: option.splits bind_splits if_splits)

lemma keep_slot_delete:
  "good rec \<Longrightarrow> slot_delete_with rec cn i \<sigma> = Some (r, \<sigma>') \<Longrightarrow> I \<sigma> \<Longrightarrow> I \<sigma>'"
  by (auto simp: slot_delete_with_def dest: goodD keep_delete split: bind_splits)

lemma keep_empty_slots: "good rec \<Longrightarrow> empty_slots_with rec cn i \<sigma> = Some \<sigma>' \<Longrightarrow> I \<sigma> \<Longrightarrow> I \<sigma>'"
  by (auto simp: empty_slots_with_def dest: goodD keep_slot_delete split: bind_splits if_splits)

lemma keep_cascade_drain: "good rec \<Longrightarrow> cascade_drain_with rec budget n \<sigma> = Some \<sigma>' \<Longrightarrow> I \<sigma> \<Longrightarrow> I \<sigma>'"
  by (auto simp: cascade_drain_with_def Let_def keeps split: option.splits bind_splits if_splits)
    (metis goodD keep_put keep_head)+

lemma keep_cascade: "good rec \<Longrightarrow> cascade_with rec cn \<sigma> = Some \<sigma>' \<Longrightarrow> I \<sigma> \<Longrightarrow> I \<sigma>'"
  by (auto simp: cascade_with_def keeps split: bind_splits if_splits)
    (metis goodD keep_put keep_head keep_running keep_retain)+

lemmas keep_with = keep_drop_old keep_active_release keep_release keep_dispatch_close
  keep_dispatch_destroy keep_cascade keep_cascade_drain keep_empty_slots keep_effects

lemma good_krun: "good (krun H)"
proof -
  have "I (snd (snd x)) \<longrightarrow> fst x = H \<longrightarrow> I \<sigma>'" if "kexec x = Some \<sigma>'" for x \<sigma>'
    using that
  proof (rule kexec.raw_induct [rotated])
    fix f :: "'e hooks \<times> kcall \<times> 'e kst_scheme \<Rightarrow> 'e kst_scheme option" and x \<sigma>'
    assume ih: "\<And>x \<sigma>'. f x = Some \<sigma>' \<Longrightarrow> I (snd (snd x)) \<longrightarrow> fst x = H \<longrightarrow> I \<sigma>'"
    let ?rec = "\<lambda>c \<tau>. f (H, c, \<tau>)"
    have g: "good ?rec" using ih by (fastforce simp: good_def)
    assume step: "(case x of (H, call, \<sigma>) \<Rightarrow>
        (case call of
           CDropOld cn old \<Rightarrow> drop_old_with H (\<lambda>c \<tau>. f (H, c, \<tau>)) cn old \<sigma>
         | CActiveRelease o' \<Rightarrow> active_release_with (\<lambda>c \<tau>. f (H, c, \<tau>)) o' \<sigma>
         | CRelease o' \<Rightarrow> release_with (\<lambda>c \<tau>. f (H, c, \<tau>)) o' \<sigma>
         | CClose o' \<Rightarrow> dispatch_close_with H (\<lambda>c \<tau>. f (H, c, \<tau>)) o' \<sigma>
         | CDestroy o' \<Rightarrow> dispatch_destroy_with H (\<lambda>c \<tau>. f (H, c, \<tau>)) o' \<sigma>
         | CCascade cn \<Rightarrow> cascade_with (\<lambda>c \<tau>. f (H, c, \<tau>)) cn \<sigma>
         | CDrain budget n \<Rightarrow> cascade_drain_with (\<lambda>c \<tau>. f (H, c, \<tau>)) budget n \<sigma>
         | CEmptySlots cn i \<Rightarrow> empty_slots_with (\<lambda>c \<tau>. f (H, c, \<tau>)) cn i \<sigma>
         | CEffects es \<Rightarrow> effects_with (\<lambda>c \<tau>. f (H, c, \<tau>)) es \<sigma>)) = Some \<sigma>'"
    show "I (snd (snd x)) \<longrightarrow> fst x = H \<longrightarrow> I \<sigma>'"
      using step keep_with [OF g] by (cases x; cases "fst (snd x)") auto
  qed
  then show ?thesis by (fastforce simp: good_def krun_def)
qed

lemma krun_keeps: "krun H c \<sigma> = Some \<sigma>' \<Longrightarrow> I \<sigma> \<Longrightarrow> I \<sigma>'"
  using good_krun by (rule goodD)

lemma slot_delete_keeps: "kcnode_slot_delete H cn i \<sigma> = Some (r, \<sigma>') \<Longrightarrow> I \<sigma> \<Longrightarrow> I \<sigma>'"
  using keep_slot_delete [OF good_krun] by (simp add: kcnode_slot_delete_def)

end

subsection \<open>What the cascade keeps\<close>

text \<open>
  The three invariants of \<open>Iris_Tree\<close> and the frame: lifecycle calls only remove
  capabilities, they never change or create one.
\<close>

definition linked_wf :: "'z mdb_state_scheme \<Rightarrow> bool" where
  "linked_wf \<sigma> \<longleftrightarrow> slots_ok \<sigma> \<and> (\<exists>L. mdb_rep \<sigma> L \<and> connected L (object_of \<sigma>))"

definition cap_of :: "kcslot \<Rightarrow> oid option \<times> iris_rights \<times> u64 \<times> u64 \<times> u8" where
  "cap_of x = (s_object x, s_rights x, s_badge x, s_guard x, s_guard_bits x)"

definition only_removes :: "'z mdb_state_scheme \<Rightarrow> 'y mdb_state_scheme \<Rightarrow> bool" where
  "only_removes \<sigma> \<sigma>' \<longleftrightarrow> (\<forall>s. slots \<sigma>' s = empty_slot \<or> cap_of (slots \<sigma>' s) = cap_of (slots \<sigma> s))"

lemma linked_slots:
  assumes "slots \<sigma>' = slots \<sigma>"
  shows "linked_wf \<sigma>' = linked_wf \<sigma>"
  by (simp add: linked_wf_def slots_ok_def rep_slots [OF assms] assms)

lemma delete_keeps_wf:
  assumes wf: "mdb_wf \<sigma>" and d: "kcnode_slot_delete_locked cn i \<sigma> = Some (r, old, \<sigma>')"
  shows "mdb_wf \<sigma>'"
proof -
  obtain L where ok: "slots_ok \<sigma>" and rep: "mdb_rep \<sigma> L" using wf by (auto simp: mdb_wf_def)
  from d rep ok show ?thesis
  proof (cases rule: delete_locked_cases)
    case same
    then show ?thesis using wf by simp
  next
    case (gone \<sigma>1 q)
    note dd = detached_delete [OF gone(3)]
    have "slot_ok (Slot cn i) (slots \<sigma>1 (Slot cn i))" unfolding dd(2) by (rule slot_ok_empty)
    with slots_ok_content [OF ok rep dd(1), of "Slot cn i"] dd(3) have "slots_ok \<sigma>1" by blast
    then show ?thesis using dd(1) gone(4) by (auto simp: mdb_wf_def)
  qed
qed

lemma delete_keeps_linked:
  assumes wf: "linked_wf \<sigma>" and d: "kcnode_slot_delete_locked cn i \<sigma> = Some (r, old, \<sigma>')"
  shows "linked_wf \<sigma>'"
proof -
  obtain L where ok: "slots_ok \<sigma>" and rep: "mdb_rep \<sigma> L" and con: "connected L (object_of \<sigma>)"
    using wf by (auto simp: linked_wf_def)
  have wf': "slots_ok \<sigma>'" using delete_keeps_wf [OF _ d] ok rep by (auto simp: mdb_wf_def)
  from d rep ok show ?thesis
  proof (cases rule: delete_locked_cases)
    case same
    then show ?thesis using wf by simp
  next
    case (gone \<sigma>1 q)
    note dd = detached_delete [OF gone(3)]
    have n: "node \<sigma> (Slot cn i)" using gone(2) node_iff [OF ok] by simp
    then obtain k where "Slot cn i \<in> set (L k)" using rep_node [OF rep] by blast
    from connected_removed [OF rep lay_detach_removed [OF rep n] this con]
    show ?thesis using dd(1,4) gone(4) wf' by (auto simp: linked_wf_def)
  qed
qed

lemma delete_keeps_gauges:
  assumes wf: "mdb_wf \<sigma> \<and> gauges_ok \<sigma>" and d: "kcnode_slot_delete_locked cn i \<sigma> = Some (r, old, \<sigma>')"
  shows "mdb_wf \<sigma>' \<and> gauges_ok \<sigma>'"
proof -
  obtain L where ok: "slots_ok \<sigma>" and rep: "mdb_rep \<sigma> L" using wf by (auto simp: mdb_wf_def)
  from d rep ok show ?thesis
  proof (cases rule: delete_locked_cases)
    case same
    then show ?thesis using wf by simp
  next
    case (gone \<sigma>1 q)
    let ?\<sigma> = "upd_slot (Slot cn i) clear_content \<sigma>"
    have rep0: "mdb_rep ?\<sigma> L" using rep by (simp add: rep_clear_content)
    have n0: "node ?\<sigma> = node \<sigma>" and u0: "unparented_set ?\<sigma> = unparented_set \<sigma>"
      and d0: "derived_set ?\<sigma> = derived_set \<sigma>"
      by (auto simp: node_def fun_eq_iff clear_content_def unparented_set_def derived_set_def)
    have g0: "gauges_ok ?\<sigma>" using wf by (simp add: gauges_ok_def n0 u0 d0)
    have n: "node ?\<sigma> (Slot cn i)" using gone(2) node_iff [OF ok] n0 by simp
    have v: "par ?\<sigma> (Slot cn i) = par \<sigma> (Slot cn i)"
      "mdb_flags (slots ?\<sigma> (Slot cn i)) = mdb_flags (slots \<sigma> (Slot cn i))"
      by (simp_all add: clear_content_def)
    have "finite (unparented_set ?\<sigma>)" using unparented_finite [OF rep ok] u0 by simp
    then have "gauges_ok \<sigma>1" using gauges_detached [OF rep0 n _ _ g0] gone(3) v by simp
    then show ?thesis using gone(4) delete_keeps_wf [OF _ d] wf by (simp add: gauges_ctr)
  qed
qed

lemma delete_keeps_removes:
  assumes wf: "mdb_wf \<sigma> \<and> only_removes \<sigma>0 \<sigma>" and d: "kcnode_slot_delete_locked cn i \<sigma> = Some (r, old, \<sigma>')"
  shows "mdb_wf \<sigma>' \<and> only_removes \<sigma>0 \<sigma>'"
proof -
  obtain L where ok: "slots_ok \<sigma>" and rep: "mdb_rep \<sigma> L" using wf by (auto simp: mdb_wf_def)
  have wf': "mdb_wf \<sigma>'" using delete_keeps_wf [OF _ d] wf by simp
  then have ok': "slots_ok \<sigma>'" by (simp add: mdb_wf_def)
  from d rep ok show ?thesis
  proof (cases rule: delete_locked_cases)
    case same
    then show ?thesis using wf by simp
  next
    case (gone \<sigma>1 q)
    note dd = detached_delete [OF gone(3)]
    have "slots \<sigma>' s = empty_slot \<or> cap_of (slots \<sigma>' s) = cap_of (slots \<sigma>0 s)" for s
    proof (cases "s = Slot cn i")
      case False
      then have "content (slots \<sigma>' s) = content (slots \<sigma> s)" using dd(3) gone(4) by simp
      then have "cap_of (slots \<sigma>' s) = cap_of (slots \<sigma> s)" "object_of \<sigma>' s = object_of \<sigma> s"
        by (simp_all add: content_def cap_of_def)
      moreover have "slots \<sigma> s = empty_slot \<or> cap_of (slots \<sigma> s) = cap_of (slots \<sigma>0 s)"
        using wf by (simp add: only_removes_def)
      ultimately show ?thesis using slot_empty [OF ok', of s] by auto
    qed (use dd(2) gone(4) in simp)
    then show ?thesis using wf' by (simp add: only_removes_def)
  qed
qed

lemma transfer_slots:
  assumes "slots \<sigma>' = slots \<sigma>"
  shows "mdb_wf \<sigma> \<Longrightarrow> mdb_wf \<sigma>'" "linked_wf \<sigma> \<Longrightarrow> linked_wf \<sigma>'"
    "mdb_wf \<sigma> \<and> only_removes \<sigma>0 \<sigma> \<Longrightarrow> mdb_wf \<sigma>' \<and> only_removes \<sigma>0 \<sigma>'"
    "ctr \<sigma>' = ctr \<sigma> \<Longrightarrow> mdb_wf \<sigma> \<and> gauges_ok \<sigma> \<Longrightarrow> mdb_wf \<sigma>' \<and> gauges_ok \<sigma>'"
  by (simp_all add: only_removes_def wf_slots [OF assms] linked_slots [OF assms]
      gauges_slots [OF assms] assms)

interpretation wf: cascade_inv H mdb_wf for H
  by unfold_locales (erule transfer_slots [rotated], simp | erule delete_keeps_wf, assumption)+

interpretation lwf: cascade_inv H linked_wf for H
  by unfold_locales (erule transfer_slots [rotated], simp | erule delete_keeps_linked, assumption)+

interpretation gwf: cascade_inv H "\<lambda>\<sigma>. mdb_wf \<sigma> \<and> gauges_ok \<sigma>" for H
  by unfold_locales
    (rule transfer_slots(4), simp, simp, assumption | erule delete_keeps_gauges, assumption)+

interpretation rwf: cascade_inv H "\<lambda>\<sigma>. mdb_wf \<sigma> \<and> only_removes \<sigma>0 \<sigma>" for H \<sigma>0
  by unfold_locales
    (rule transfer_slots(3), simp, assumption | erule delete_keeps_removes, assumption)+

end
