(* ===== verification/Iris_CNode.thy ===== *)
theory Iris_CNode
  imports Iris_Lifecycle
begin

text \<open>
  The slot primitives of \<^verbatim>\<open>kernel/new_core/src/kcnode.c\<close>, the only mutators of capability
  slots: install, derive, move, rotate, swap, delete, revoke, the mint wrappers, the fetch
  family, guards, allocation and the counting predicate.  Every early return is a branch that
  returns the source's status; references are names of objects, so the tests for a null CNode
  or object have no counterpart.
\<close>

subsection \<open>Installing\<close>

text \<open>The write part of \<^verbatim>\<open>kcnode_slot_install_linked\<close>, from the content to the counters.\<close>

definition install_write ::
    "oid \<Rightarrow> nat \<Rightarrow> oid \<Rightarrow> iris_rights \<Rightarrow> u64 \<Rightarrow> (oid \<times> nat) option \<Rightarrow> bool
       \<Rightarrow> 'z mdb_state_scheme \<Rightarrow> 'z mdb_state_scheme option" where
  "install_write cn i obj rights badge parent unparented \<sigma> = (
     let s = Slot cn i;
         \<sigma>1 = upd_slot s (\<lambda>x. x\<lparr>s_object := Some obj, s_rights := rights, s_badge := badge,
                                mdb_cnode := Some cn\<rparr>) \<sigma>
     in case parent of
          Some (pc, pi) \<Rightarrow> do {
            let \<sigma>2 = upd_slot s (\<lambda>x. x\<lparr>mdb_flags := 0\<rparr>) (mdb_link_child (Slot pc pi) s \<sigma>1);
            d \<leftarrow> mdb_depth_of \<sigma>2 s;
            let \<sigma>3 = upd_ctr (\<lambda>c. let dl = cdt_derived_live c + 1 in
                        c\<lparr>mdb_max_depth := mdb_note_max (mdb_max_depth c) d,
                          cdt_derivation_count := cdt_derivation_count c + 1,
                          cdt_derived_live := dl,
                          cdt_derivation_hwm := mdb_note_max (cdt_derivation_hwm c) dl,
                          cdt_cross_cnode_desc :=
                            (if pc \<noteq> cn then cdt_cross_cnode_desc c + 1 else cdt_cross_cnode_desc c)\<rparr>) \<sigma>2;
            Some (mdb_node_count_inc \<sigma>3)
          }
        | None \<Rightarrow>
            (let \<sigma>2 = upd_slot s (\<lambda>x. x\<lparr>mdb_parent := None,
                        mdb_flags := (if unparented then MDB_FLAG_UNPARENTED else 0)\<rparr>) \<sigma>1;
                 \<sigma>3 = (if unparented
                       then upd_ctr (\<lambda>c. c\<lparr>mdb_unparented_roots := mdb_unparented_roots c + 1\<rparr>) \<sigma>2
                       else \<sigma>2)
             in Some (mdb_node_count_inc \<sigma>3)))"

text \<open>Every failure after the retains: release what was displaced, then the two retains.\<close>

definition install_backout ::
    "'e hooks \<Rightarrow> oid \<Rightarrow> oid option \<Rightarrow> oid \<Rightarrow> iris_status \<Rightarrow> 'e kst_scheme
       \<Rightarrow> (iris_status \<times> 'e kst_scheme) option" where
  "install_backout H cn old obj e \<sigma> = do {
     \<sigma>1 \<leftarrow> kcnode_slot_drop_old H cn old \<sigma>;
     \<sigma>2 \<leftarrow> (if obj \<noteq> cn then kobject_active_release H obj \<sigma>1 else Some \<sigma>1);
     \<sigma>3 \<leftarrow> kobject_release H obj \<sigma>2;
     Some (e, \<sigma>3)
   }"

definition parent_in_range :: "(oid \<times> nat) option \<Rightarrow> 'e kst_scheme \<Rightarrow> bool option" where
  "parent_in_range parent \<sigma> =
     (case parent of None \<Rightarrow> Some True
      | Some (pc, pi) \<Rightarrow> do { kp \<leftarrow> objs \<sigma> pc; Some (pi < ko_slot_count kp) })"

definition parent_refused ::
    "oid \<Rightarrow> nat \<Rightarrow> (oid \<times> nat) option \<Rightarrow> oid option \<Rightarrow> 'z mdb_state_scheme \<Rightarrow> bool" where
  "parent_refused cn i parent parent_expect \<sigma> =
     (case parent of None \<Rightarrow> False
      | Some (pc, pi) \<Rightarrow>
          s_object (slots \<sigma> (Slot pc pi)) = None \<or> Slot pc pi = Slot cn i \<or>
          (parent_expect \<noteq> None \<and> s_object (slots \<sigma> (Slot pc pi)) \<noteq> parent_expect))"

text \<open>The second half of the install, after the retains and the optional delete.\<close>

definition install_commit ::
    "'e hooks \<Rightarrow> oid \<Rightarrow> nat \<Rightarrow> oid \<Rightarrow> iris_rights \<Rightarrow> u64 \<Rightarrow> (oid \<times> nat) option \<Rightarrow> oid option
       \<Rightarrow> bool \<Rightarrow> nat \<Rightarrow> iris_status \<Rightarrow> oid option \<Rightarrow> 'e kst_scheme \<Rightarrow> (iris_status \<times> 'e kst_scheme) option" where
  "install_commit H cn i obj rights badge parent parent_expect unparented slot_count de old \<sigma> =
     (if de \<noteq> IRIS_OK then install_backout H cn None obj de \<sigma>
      else if i \<ge> slot_count then install_backout H cn old obj IRIS_ERR_INVALID_ARG \<sigma>
      else if parent_refused cn i parent parent_expect \<sigma>
           then install_backout H cn old obj IRIS_ERR_INVALID_ARG \<sigma>
      else if s_object (slots \<sigma> (Slot cn i)) \<noteq> None
           then install_backout H cn old obj IRIS_ERR_ALREADY_EXISTS \<sigma>
      else do {
        \<sigma>1 \<leftarrow> install_write cn i obj rights badge parent unparented \<sigma>;
        \<sigma>2 \<leftarrow> kcnode_slot_drop_old H cn old \<sigma>1;
        Some (IRIS_OK, \<sigma>2)
      })"

definition kcnode_slot_install_linked ::
    "'e hooks \<Rightarrow> oid \<Rightarrow> nat \<Rightarrow> oid \<Rightarrow> iris_rights \<Rightarrow> u64 \<Rightarrow> (oid \<times> nat) option \<Rightarrow> oid option
       \<Rightarrow> bool \<Rightarrow> bool \<Rightarrow> 'e kst_scheme \<Rightarrow> (iris_status \<times> 'e kst_scheme) option" where
  "kcnode_slot_install_linked H cn i obj rights badge parent parent_expect exclusive unparented \<sigma> =
     (if rights = RIGHT_NONE then Some (IRIS_ERR_INVALID_ARG, \<sigma>)
      else do {
        inr \<leftarrow> parent_in_range parent \<sigma>;
        kc \<leftarrow> objs \<sigma> cn;
        if \<not> inr then Some (IRIS_ERR_INVALID_ARG, \<sigma>)
        else if \<not> exclusive \<and> i \<ge> ko_slot_count kc then Some (IRIS_ERR_INVALID_ARG, \<sigma>)
        else do {
          \<sigma>1 \<leftarrow> kobject_retain obj \<sigma>;
          \<sigma>2 \<leftarrow> (if obj \<noteq> cn then kobject_active_retain obj \<sigma>1 else Some \<sigma>1);
          (de, old, \<sigma>3) \<leftarrow> (if exclusive then Some (IRIS_OK, None, \<sigma>2)
                             else kcnode_slot_delete_locked cn i \<sigma>2);
          install_commit H cn i obj rights badge parent parent_expect unparented (ko_slot_count kc) de old \<sigma>3
        }
      })"

definition kcnode_mint ::
    "'e hooks \<Rightarrow> oid \<Rightarrow> nat \<Rightarrow> oid \<Rightarrow> iris_rights \<Rightarrow> 'e kst_scheme \<Rightarrow> (iris_status \<times> 'e kst_scheme) option" where
  "kcnode_mint H cn i obj rights = kcnode_slot_install_linked H cn i obj rights 0 None None False True"

definition kcnode_mint_excl_badged ::
    "'e hooks \<Rightarrow> oid \<Rightarrow> nat \<Rightarrow> oid \<Rightarrow> iris_rights \<Rightarrow> u64 \<Rightarrow> 'e kst_scheme
       \<Rightarrow> (iris_status \<times> 'e kst_scheme) option" where
  "kcnode_mint_excl_badged H cn i obj rights badge =
     kcnode_slot_install_linked H cn i obj rights badge None None True True"

definition kcnode_mint_excl ::
    "'e hooks \<Rightarrow> oid \<Rightarrow> nat \<Rightarrow> oid \<Rightarrow> iris_rights \<Rightarrow> 'e kst_scheme \<Rightarrow> (iris_status \<times> 'e kst_scheme) option" where
  "kcnode_mint_excl H cn i obj rights = kcnode_mint_excl_badged H cn i obj rights 0"

text \<open>Both slots in range: the opening test of the two-slot primitives.\<close>

definition slots_in_range :: "oid \<Rightarrow> nat \<Rightarrow> oid \<Rightarrow> nat \<Rightarrow> 'e kst_scheme \<Rightarrow> bool option" where
  "slots_in_range src_cn src_idx dst_cn dst_idx \<sigma> = do {
     ks \<leftarrow> objs \<sigma> src_cn;
     kd \<leftarrow> objs \<sigma> dst_cn;
     Some (src_idx < ko_slot_count ks \<and> dst_idx < ko_slot_count kd)
   }"

definition kcnode_slot_install_sibling ::
    "'e hooks \<Rightarrow> oid \<Rightarrow> nat \<Rightarrow> oid \<Rightarrow> nat \<Rightarrow> 'e kst_scheme \<Rightarrow> (iris_status \<times> 'e kst_scheme) option" where
  "kcnode_slot_install_sibling H src_cn src_idx dst_cn dst_idx \<sigma> = do {
     inr \<leftarrow> slots_in_range src_cn src_idx dst_cn dst_idx \<sigma>;
     if \<not> inr then Some (IRIS_ERR_INVALID_ARG, \<sigma>)
     else let src = slots \<sigma> (Slot src_cn src_idx) in
       case s_object src of
         None \<Rightarrow> Some (IRIS_ERR_NOT_FOUND, \<sigma>)
       | Some obj \<Rightarrow>
           (case mdb_parent src of
              Some (Slot pc pi) \<Rightarrow>
                (case mdb_cnode (slots \<sigma> (Slot pc pi)) of
                   Some par_cn \<Rightarrow>
                     kcnode_slot_install_linked H dst_cn dst_idx obj (s_rights src) (s_badge src)
                       (Some (par_cn, pi)) (s_object (slots \<sigma> (Slot pc pi))) True False \<sigma>
                 | None \<Rightarrow>
                     kcnode_slot_install_linked H dst_cn dst_idx obj (s_rights src) (s_badge src)
                       (Some (src_cn, src_idx)) (Some obj) True False \<sigma>)
            | _ \<Rightarrow>
                kcnode_slot_install_linked H dst_cn dst_idx obj (s_rights src) (s_badge src)
                  (Some (src_cn, src_idx)) (Some obj) True False \<sigma>)
   }"

definition kcnode_slot_install_for_thread ::
    "'e hooks \<Rightarrow> oid \<Rightarrow> nat \<Rightarrow> oid \<Rightarrow> nat \<Rightarrow> 'e kst_scheme \<Rightarrow> (iris_status \<times> 'e kst_scheme) option" where
  "kcnode_slot_install_for_thread H src_cn src_idx dst_cn dst_idx \<sigma> = do {
     inr \<leftarrow> slots_in_range src_cn src_idx dst_cn dst_idx \<sigma>;
     if \<not> inr then Some (IRIS_ERR_INVALID_ARG, \<sigma>)
     else let src = slots \<sigma> (Slot src_cn src_idx) in
       case s_object src of
         None \<Rightarrow> Some (IRIS_ERR_NOT_FOUND, \<sigma>)
       | Some obj \<Rightarrow>
           kcnode_slot_install_linked H dst_cn dst_idx obj (s_rights src) (s_badge src)
             (Some (src_cn, src_idx)) (Some obj) True False \<sigma>
   }"

definition kcnode_slot_derive ::
    "'e hooks \<Rightarrow> oid \<Rightarrow> nat \<Rightarrow> oid \<Rightarrow> nat \<Rightarrow> iris_rights \<Rightarrow> u64 \<Rightarrow> 'e kst_scheme
       \<Rightarrow> (iris_status \<times> 'e kst_scheme) option" where
  "kcnode_slot_derive H src_cn src_idx dst_cn dst_idx requested req_badge \<sigma> = do {
     inr \<leftarrow> slots_in_range src_cn src_idx dst_cn dst_idx \<sigma>;
     if \<not> inr then Some (IRIS_ERR_INVALID_ARG, \<sigma>)
     else if src_cn = dst_cn \<and> src_idx = dst_idx then Some (IRIS_ERR_INVALID_ARG, \<sigma>)
     else let src = slots \<sigma> (Slot src_cn src_idx) in
       case s_object src of
         None \<Rightarrow> Some (IRIS_ERR_NOT_FOUND, \<sigma>)
       | Some obj \<Rightarrow>
           if \<not> rights_check (s_rights src) RIGHT_DUPLICATE then Some (IRIS_ERR_ACCESS_DENIED, \<sigma>)
           else let effective = rights_reduce (s_rights src) requested in
             if effective = RIGHT_NONE then Some (IRIS_ERR_INVALID_ARG, \<sigma>)
             else do {
               ko \<leftarrow> objs \<sigma> obj;
               (case mdb_badge_derive (s_badge src) req_badge (ko_type ko) of
                  Inl be \<Rightarrow> Some (be, \<sigma>)
                | Inr eff_badge \<Rightarrow>
                    kcnode_slot_install_linked H dst_cn dst_idx obj effective eff_badge
                      (Some (src_cn, src_idx)) (Some obj) True False \<sigma>)
             }
   }"

subsection \<open>Moving\<close>

definition note_moves :: "u32 \<Rightarrow> 'z mdb_state_scheme \<Rightarrow> 'z mdb_state_scheme" where
  "note_moves n = upd_ctr (\<lambda>c. c\<lparr>mdb_moves := mdb_moves c + n\<rparr>)"

definition kcnode_slot_move ::
    "oid \<Rightarrow> nat \<Rightarrow> oid \<Rightarrow> nat \<Rightarrow> 'e kst_scheme \<Rightarrow> (iris_status \<times> 'e kst_scheme) option" where
  "kcnode_slot_move src_cn src_idx dst_cn dst_idx \<sigma> = do {
     inr \<leftarrow> slots_in_range src_cn src_idx dst_cn dst_idx \<sigma>;
     if \<not> inr then Some (IRIS_ERR_INVALID_ARG, \<sigma>)
     else if src_cn = dst_cn \<and> src_idx = dst_idx then Some (IRIS_ERR_INVALID_ARG, \<sigma>)
     else if s_object (slots \<sigma> (Slot src_cn src_idx)) = None then Some (IRIS_ERR_NOT_FOUND, \<sigma>)
     else if s_object (slots \<sigma> (Slot dst_cn dst_idx)) \<noteq> None then Some (IRIS_ERR_ALREADY_EXISTS, \<sigma>)
     else do {
       \<sigma>1 \<leftarrow> mdb_relocate (Slot src_cn src_idx) (Slot dst_cn dst_idx) dst_cn \<sigma>;
       Some (IRIS_OK, note_moves 1 \<sigma>1)
     }
   }"

text \<open>The stack temporary of a swap: its link fields are set, its guard is not read.\<close>

definition clear_tmp :: "'z mdb_state_scheme \<Rightarrow> 'z mdb_state_scheme" where
  "clear_tmp = upd_slot Tmp (\<lambda>_. empty_slot)"

definition kcnode_slot_rotate ::
    "oid \<Rightarrow> nat \<Rightarrow> oid \<Rightarrow> nat \<Rightarrow> oid \<Rightarrow> nat \<Rightarrow> 'e kst_scheme \<Rightarrow> (iris_status \<times> 'e kst_scheme) option" where
  "kcnode_slot_rotate dest_cn dest_idx pivot_cn pivot_idx src_cn src_idx \<sigma> = do {
     kd \<leftarrow> objs \<sigma> dest_cn;
     kp \<leftarrow> objs \<sigma> pivot_cn;
     ks \<leftarrow> objs \<sigma> src_cn;
     let dest = Slot dest_cn dest_idx;
     let pivot = Slot pivot_cn pivot_idx;
     let src = Slot src_cn src_idx;
     if dest_idx \<ge> ko_slot_count kd \<or> pivot_idx \<ge> ko_slot_count kp \<or> src_idx \<ge> ko_slot_count ks
       then Some (IRIS_ERR_INVALID_ARG, \<sigma>)
     else if src = pivot \<or> dest = pivot then Some (IRIS_ERR_INVALID_ARG, \<sigma>)
     else if s_object (slots \<sigma> src) = None \<or> s_object (slots \<sigma> pivot) = None
       then Some (IRIS_ERR_NOT_FOUND, \<sigma>)
     else if dest \<noteq> src \<and> s_object (slots \<sigma> dest) \<noteq> None then Some (IRIS_ERR_ALREADY_EXISTS, \<sigma>)
     else do {
       \<sigma>1 \<leftarrow> (if dest = src then do {
                \<sigma>a \<leftarrow> mdb_relocate src Tmp src_cn (clear_tmp \<sigma>);
                \<sigma>b \<leftarrow> mdb_relocate pivot dest dest_cn \<sigma>a;
                mdb_relocate Tmp pivot pivot_cn \<sigma>b
              } else do {
                \<sigma>a \<leftarrow> mdb_relocate pivot dest dest_cn \<sigma>;
                mdb_relocate src pivot pivot_cn \<sigma>a
              });
       Some (IRIS_OK, note_moves 2 \<sigma>1)
     }
   }"

definition kcnode_swap ::
    "oid \<Rightarrow> nat \<Rightarrow> nat \<Rightarrow> 'e kst_scheme \<Rightarrow> (iris_status \<times> 'e kst_scheme) option" where
  "kcnode_swap cn slot_a slot_b \<sigma> =
     (if slot_a = slot_b then Some (IRIS_ERR_INVALID_ARG, \<sigma>)
      else do {
        k \<leftarrow> objs \<sigma> cn;
        if slot_a \<ge> ko_slot_count k \<or> slot_b \<ge> ko_slot_count k then Some (IRIS_ERR_INVALID_ARG, \<sigma>)
        else do {
          let a = Slot cn slot_a;
          let b = Slot cn slot_b;
          let a_occ = (s_object (slots \<sigma> a) \<noteq> None);
          let b_occ = (s_object (slots \<sigma> b) \<noteq> None);
          \<sigma>1 \<leftarrow> (if a_occ then mdb_relocate a Tmp cn (clear_tmp \<sigma>) else Some (clear_tmp \<sigma>));
          \<sigma>2 \<leftarrow> (if b_occ then mdb_relocate b a cn \<sigma>1 else Some \<sigma>1);
          \<sigma>3 \<leftarrow> (if a_occ then mdb_relocate Tmp b cn \<sigma>2 else Some \<sigma>2);
          Some (IRIS_OK, \<sigma>3)
        }
      })"

subsection \<open>Deleting and revoking\<close>

definition kcnode_delete ::
    "'e hooks \<Rightarrow> oid \<Rightarrow> nat \<Rightarrow> 'e kst_scheme \<Rightarrow> (iris_status \<times> 'e kst_scheme) option" where
  "kcnode_delete H cn i = kcnode_slot_delete H cn i"

text \<open>\<^verbatim>\<open>while (v->mdb_first_child) v = v->mdb_first_child;\<close>\<close>

partial_function (option) leftmost_leaf :: "(slotref \<Rightarrow> slotref option) \<Rightarrow> slotref \<Rightarrow> slotref option" where
  "leftmost_leaf fc v = (case fc v of None \<Rightarrow> Some v | Some c \<Rightarrow> leftmost_leaf fc c)"

text \<open>One victim, from clearing its content to the counters; its object is released by the caller.\<close>

definition revoke_victim :: "slotref \<Rightarrow> 'z mdb_state_scheme \<Rightarrow> 'z mdb_state_scheme option" where
  "revoke_victim v \<sigma> = do {
     let \<sigma>1 = mdb_unlink_from_parent v
               (upd_slot v (\<lambda>x. x\<lparr>s_object := None, s_rights := RIGHT_NONE, s_badge := 0\<rparr>) \<sigma>);
     let \<sigma>2 = (if mdb_flags (slots \<sigma>1 v) AND MDB_FLAG_UNPARENTED \<noteq> 0
                then upd_ctr (\<lambda>c. c\<lparr>mdb_unparented_roots := mdb_unparented_roots c - 1\<rparr>) \<sigma>1 else \<sigma>1);
     \<sigma>3 \<leftarrow> mdb_clear_node v (upd_ctr (\<lambda>c. c\<lparr>mdb_nodes_live := mdb_nodes_live c - 1,
              cdt_derived_live := cdt_derived_live c - 1\<rparr>) \<sigma>2);
     Some (upd_ctr (\<lambda>c. c\<lparr>mdb_revoked_nodes := mdb_revoked_nodes c + 1\<rparr>) \<sigma>3)
   }"

partial_function (option) revoke_loop ::
    "'e hooks \<Rightarrow> oid \<Rightarrow> nat \<Rightarrow> u32 \<Rightarrow> u32 \<Rightarrow> 'e kst_scheme
       \<Rightarrow> (iris_status \<times> u32 \<times> bool \<times> 'e kst_scheme) option" where
  "revoke_loop H cn i budget revoked \<sigma> =
     (if budget \<noteq> 0 \<and> revoked \<ge> budget
      then Some (IRIS_OK, revoked,
             s_object (slots \<sigma> (Slot cn i)) \<noteq> None \<and> fch \<sigma> (Slot cn i) \<noteq> None, \<sigma>)
      else if s_object (slots \<sigma> (Slot cn i)) = None
      then Some (if revoked = 0 then IRIS_ERR_NOT_FOUND else IRIS_OK, revoked, False, \<sigma>)
      else (case fch \<sigma> (Slot cn i) of
              None \<Rightarrow> Some (IRIS_OK, revoked, False, \<sigma>)
            | Some v0 \<Rightarrow> do {
                v \<leftarrow> leftmost_leaf (fch \<sigma>) v0;
                v_cn \<leftarrow> mdb_cnode (slots \<sigma> v);
                \<sigma>1 \<leftarrow> revoke_victim v \<sigma>;
                \<sigma>2 \<leftarrow> kcnode_slot_drop_old H v_cn (s_object (slots \<sigma> v)) \<sigma>1;
                revoke_loop H cn i budget (revoked + 1) \<sigma>2
              }))"

definition kcnode_slot_revoke_bounded ::
    "'e hooks \<Rightarrow> oid \<Rightarrow> nat \<Rightarrow> u32 \<Rightarrow> 'e kst_scheme
       \<Rightarrow> (iris_status \<times> u32 \<times> bool \<times> 'e kst_scheme) option" where
  "kcnode_slot_revoke_bounded H cn i budget \<sigma> = do {
     k \<leftarrow> objs \<sigma> cn;
     if i \<ge> ko_slot_count k then Some (IRIS_ERR_INVALID_ARG, 0, False, \<sigma>)
     else revoke_loop H cn i budget 0
            (upd_ctr (\<lambda>c. c\<lparr>cdt_revoke_count := cdt_revoke_count c + 1\<rparr>) \<sigma>)
   }"

definition kcnode_slot_revoke ::
    "'e hooks \<Rightarrow> oid \<Rightarrow> nat \<Rightarrow> 'e kst_scheme \<Rightarrow> (iris_status \<times> u32 \<times> bool \<times> 'e kst_scheme) option" where
  "kcnode_slot_revoke H cn i = kcnode_slot_revoke_bounded H cn i 0"

subsection \<open>Reading, guards and allocation\<close>

definition kcnode_slot_holds :: "oid \<Rightarrow> nat \<Rightarrow> oid \<Rightarrow> 'e kst_scheme \<Rightarrow> bool option" where
  "kcnode_slot_holds cn i obj \<sigma> = do {
     k \<leftarrow> objs \<sigma> cn;
     Some (i < ko_slot_count k \<and> s_object (slots \<sigma> (Slot cn i)) = Some obj)
   }"

definition kcnode_fetch_guarded ::
    "oid \<Rightarrow> nat \<Rightarrow> 'e kst_scheme
       \<Rightarrow> ((iris_status + oid \<times> iris_rights \<times> u64 \<times> u64 \<times> u8) \<times> 'e kst_scheme) option" where
  "kcnode_fetch_guarded cn i \<sigma> = do {
     k \<leftarrow> objs \<sigma> cn;
     if i \<ge> ko_slot_count k then Some (Inl IRIS_ERR_INVALID_ARG, \<sigma>)
     else let x = slots \<sigma> (Slot cn i) in
       case s_object x of
         None \<Rightarrow> Some (Inl IRIS_ERR_NOT_FOUND, \<sigma>)
       | Some obj \<Rightarrow> do {
           \<sigma>1 \<leftarrow> kobject_retain obj \<sigma>;
           \<sigma>2 \<leftarrow> kobject_active_retain obj \<sigma>1;
           Some (Inr (obj, s_rights x, s_badge x, s_guard x, s_guard_bits x), \<sigma>2)
         }
   }"

definition kcnode_fetch_badged ::
    "oid \<Rightarrow> nat \<Rightarrow> 'e kst_scheme \<Rightarrow> ((iris_status + oid \<times> iris_rights \<times> u64) \<times> 'e kst_scheme) option" where
  "kcnode_fetch_badged cn i \<sigma> = do {
     k \<leftarrow> objs \<sigma> cn;
     if i \<ge> ko_slot_count k then Some (Inl IRIS_ERR_INVALID_ARG, \<sigma>)
     else let x = slots \<sigma> (Slot cn i) in
       case s_object x of
         None \<Rightarrow> Some (Inl IRIS_ERR_NOT_FOUND, \<sigma>)
       | Some obj \<Rightarrow> do {
           \<sigma>1 \<leftarrow> kobject_retain obj \<sigma>;
           \<sigma>2 \<leftarrow> kobject_active_retain obj \<sigma>1;
           Some (Inr (obj, s_rights x, s_badge x), \<sigma>2)
         }
   }"

definition kcnode_fetch ::
    "oid \<Rightarrow> nat \<Rightarrow> 'e kst_scheme \<Rightarrow> ((iris_status + oid \<times> iris_rights) \<times> 'e kst_scheme) option" where
  "kcnode_fetch cn i \<sigma> =
     map_option (\<lambda>(r, \<sigma>1). (case r of Inl e \<Rightarrow> Inl e | Inr (obj, rights, _) \<Rightarrow> Inr (obj, rights), \<sigma>1))
       (kcnode_fetch_badged cn i \<sigma>)"

definition CSPACE_CPTR_BITS :: nat where "CSPACE_CPTR_BITS = 31"
definition KCNODE_GUARD_BITS_MAX :: u8 where "KCNODE_GUARD_BITS_MAX = 31"

text \<open>\<^verbatim>\<open>__builtin_ctzll\<close> of a non-zero argument: the number of trailing zero bits.\<close>

fun ctz :: "nat \<Rightarrow> nat" where
  "ctz n = (if n = 0 \<or> odd n then 0 else Suc (ctz (n div 2)))"

declare ctz.simps [simp del]

definition kcnode_slot_set_guard ::
    "oid \<Rightarrow> nat \<Rightarrow> u64 \<Rightarrow> u8 \<Rightarrow> 'e kst_scheme \<Rightarrow> (iris_status \<times> 'e kst_scheme) option" where
  "kcnode_slot_set_guard cn i guard guard_bits \<sigma> = do {
     k \<leftarrow> objs \<sigma> cn;
     if i \<ge> ko_slot_count k then Some (IRIS_ERR_INVALID_ARG, \<sigma>)
     else if guard_bits > KCNODE_GUARD_BITS_MAX then Some (IRIS_ERR_INVALID_ARG, \<sigma>)
     else if guard_bits < 64 \<and> drop_bit (unat guard_bits) guard \<noteq> 0 then Some (IRIS_ERR_INVALID_ARG, \<sigma>)
     else case s_object (slots \<sigma> (Slot cn i)) of
            None \<Rightarrow> Some (IRIS_ERR_NOT_FOUND, \<sigma>)
          | Some obj \<Rightarrow> do {
              t \<leftarrow> objs \<sigma> obj;
              if ko_type t \<noteq> KOBJ_CNODE then Some (IRIS_ERR_WRONG_TYPE, \<sigma>)
              else if unat guard_bits + ctz (ko_slot_count t) > CSPACE_CPTR_BITS
                   then Some (IRIS_ERR_INVALID_ARG, \<sigma>)
              else Some (IRIS_OK, upd_slot (Slot cn i)
                           (\<lambda>x. x\<lparr>s_guard := guard, s_guard_bits := guard_bits\<rparr>) \<sigma>)
            }
   }"

text \<open>
  The two allocators.  The store of a fresh name holds empty slots, as the zeroed block does;
  slab exhaustion is the argument \<open>avail\<close>.
\<close>

definition power_of_two :: "nat \<Rightarrow> bool" where
  "power_of_two n \<longleftrightarrow> n \<noteq> 0 \<and> 2 ^ ctz n = n"

definition kcnode_alloc :: "bool \<Rightarrow> oid \<Rightarrow> nat \<Rightarrow> 'e kst_scheme \<Rightarrow> 'e kst_scheme option" where
  "kcnode_alloc avail new num_slots \<sigma> =
     (if num_slots = 0 \<or> num_slots > KCNODE_MAX_SLOTS then None
      else if \<not> power_of_two num_slots then None
      else if \<not> avail then None
      else Some ((kobject_init new KOBJ_CNODE num_slots \<sigma>)\<lparr>kcnode_live := kcnode_live \<sigma> + 1\<rparr>))"

definition kcnode_alloc_at :: "oid \<Rightarrow> oid \<Rightarrow> u32 \<Rightarrow> nat \<Rightarrow> 'e kst_scheme \<Rightarrow> 'e kst_scheme option" where
  "kcnode_alloc_at new pool bytes num_slots \<sigma> =
     (if num_slots = 0 \<or> num_slots > KCNODE_MAX_SLOTS then None
      else if \<not> power_of_two num_slots then None
      else Some ((kobject_init_in_untyped new KOBJ_CNODE num_slots bytes pool \<sigma>)
                 \<lparr>kcnode_live := kcnode_live \<sigma> + 1\<rparr>))"

text \<open>\<^verbatim>\<open>kcnode_count_final_caps\<close> over a list of CNodes.\<close>

fun count_final_slots :: "'z mdb_state_scheme \<Rightarrow> oid \<Rightarrow> nat list \<Rightarrow> u32 \<Rightarrow> u32 option" where
  "count_final_slots \<sigma> cn [] n = Some n"
| "count_final_slots \<sigma> cn (i # is) n = do {
     b \<leftarrow> kcnode_slot_is_final_cap \<sigma> (Slot cn i);
     count_final_slots \<sigma> cn is (if b then n + 1 else n)
   }"

fun kcnode_count_final_caps :: "oid list \<Rightarrow> u32 \<Rightarrow> 'e kst_scheme \<Rightarrow> u32 option" where
  "kcnode_count_final_caps [] n \<sigma> = Some n"
| "kcnode_count_final_caps (cn # cns) n \<sigma> = do {
     k \<leftarrow> objs \<sigma> cn;
     n1 \<leftarrow> count_final_slots \<sigma> cn [0..<ko_slot_count k] n;
     kcnode_count_final_caps cns n1 \<sigma>
   }"

subsection \<open>What an install does to the tree\<close>

definition installed ::
    "oid \<Rightarrow> nat \<Rightarrow> oid \<Rightarrow> iris_rights \<Rightarrow> u64 \<Rightarrow> u32 \<Rightarrow> slotref layout
       \<Rightarrow> 'z mdb_state_scheme \<Rightarrow> 'z mdb_state_scheme \<Rightarrow> bool" where
  "installed cn i obj rights badge fl L' \<sigma> \<sigma>' \<longleftrightarrow> mdb_rep \<sigma>' L' \<and>
     (\<forall>x. x \<noteq> Slot cn i \<longrightarrow> content (slots \<sigma>' x) = content (slots \<sigma> x)) \<and>
     content (slots \<sigma>' (Slot cn i)) = (Some obj, rights, badge, Some cn, fl, 0, 0) \<and>
     mdb_nodes_live (ctr \<sigma>') = mdb_nodes_live (ctr \<sigma>) + 1 \<and>
     mdb_state.more \<sigma>' = mdb_state.more \<sigma>"

lemma parent_rel_finite:
  assumes rep: "mdb_rep \<sigma> L"
  shows "finite (parent_rel (par \<sigma>))"
proof (rule finite_subset)
  show "parent_rel (par \<sigma>) \<subseteq> Collect (node \<sigma>) \<times> Collect (node \<sigma>)"
    using rep_kids [OF rep, symmetric] rep_in [OF rep] forest_parent_node [OF rep [unfolded mdb_rep_def]]
    by auto
qed (use rep_finite [OF rep] in simp)

lemma rep_depth:
  assumes rep: "mdb_rep \<sigma> L"
  shows "\<exists>d. mdb_depth_of \<sigma> s = Some d"
proof -
  have "wf (parent_rel (par \<sigma>))"
    using parent_rel_finite [OF rep] rep_acyclic [OF rep] by (rule finite_acyclic_wf)
  then have "\<exists>ps. walk (par \<sigma>) (Some s) = Some ps"
  proof (induction s rule: wf_induct_rule)
    case (less s)
    show ?case
    proof (cases "par \<sigma> s")
      case None
      then show ?thesis by (subst walk.simps) simp
    next
      case (Some p)
      then obtain ps where "walk (par \<sigma>) (Some p) = Some ps" using less by auto
      then show ?thesis using Some by (subst walk.simps) simp
    qed
  qed
  then obtain ps where "walk (par \<sigma>) (Some s) = Some ps" ..
  then have "\<exists>qs. walk (par \<sigma>) (par \<sigma> s) = Some qs"
    by (subst (asm) walk.simps) (auto split: bind_splits)
  then show ?thesis by (auto simp: mdb_depth_of_def)
qed

lemma rep_flags: "mdb_rep (upd_slot s (\<lambda>x. x\<lparr>mdb_flags := v\<rparr>) \<sigma>) L \<longleftrightarrow> mdb_rep \<sigma> L"
  by (rule mdb_rep_cong) (simp_all add: node_def)

lemma node_count_inc [simp]:
  "slots (mdb_node_count_inc \<sigma>) = slots \<sigma>" "mdb_state.more (mdb_node_count_inc \<sigma>) = mdb_state.more \<sigma>"
  "mdb_nodes_live (ctr (mdb_node_count_inc \<sigma>)) = mdb_nodes_live (ctr \<sigma>) + 1"
  "cdt_derived_live (ctr (mdb_node_count_inc \<sigma>)) = cdt_derived_live (ctr \<sigma>)"
  "mdb_unparented_roots (ctr (mdb_node_count_inc \<sigma>)) = mdb_unparented_roots (ctr \<sigma>)"
  "mdb_rep (mdb_node_count_inc \<sigma>) L = mdb_rep \<sigma> L"
  by (simp_all add: mdb_node_count_inc_def Let_def)

lemma install_write_child:
  assumes rep: "mdb_rep \<sigma> L" and ok: "slots_ok \<sigma>"
    and s: "object_of \<sigma> (Slot cn i) = None" and p: "object_of \<sigma> (Slot pc pi) \<noteq> None"
  shows "\<exists>\<sigma>'. install_write cn i obj rights badge (Some (pc, pi)) unp \<sigma> = Some \<sigma>' \<and>
    installed cn i obj rights badge 0
      (L(Kids (Slot pc pi) := Slot cn i # L (Kids (Slot pc pi)))) \<sigma> \<sigma>' \<and>
    cdt_derived_live (ctr \<sigma>') = cdt_derived_live (ctr \<sigma>) + 1 \<and>
    mdb_unparented_roots (ctr \<sigma>') = mdb_unparented_roots (ctr \<sigma>)"
proof -
  let ?s = "Slot cn i" and ?p = "Slot pc pi"
  let ?f = "\<lambda>x. x\<lparr>s_object := Some obj, s_rights := rights, s_badge := badge, mdb_cnode := Some cn\<rparr>"
  let ?\<sigma>1 = "upd_slot ?s ?f \<sigma>"
  define \<sigma>2 where "\<sigma>2 = upd_slot ?s (\<lambda>x. x\<lparr>mdb_flags := 0\<rparr>) (mdb_link_child ?p ?s ?\<sigma>1)"
  have e: "slots \<sigma> ?s = empty_slot" using slot_empty [OF ok s] .
  have ns: "\<not> node \<sigma> ?s" and np: "node \<sigma> ?p" using s p node_iff [OF ok] by simp_all
  have sp: "?s \<noteq> ?p" using s p by auto
  have fc: "fch ?\<sigma>1 ?p \<noteq> Some ?s" using rep_not_child [OF rep ns, of ?p] sp by auto
  note v = link_child_views [OF sp fc]
  have rep2: "mdb_rep \<sigma>2 (L(Kids ?p := ?s # L (Kids ?p)))"
    unfolding \<sigma>2_def rep_flags by (rule rep_link_child [OF rep ns np]) (simp_all add: links_of_def)
  obtain d where d: "mdb_depth_of \<sigma>2 ?s = Some d" using rep_depth [OF rep2] by blast
  have c: "content (slots \<sigma>2 x) = content (slots \<sigma> x)" if "x \<noteq> ?s" for x
    using v(5) [of x] that by (simp add: \<sigma>2_def)
  have cs: "content (slots \<sigma>2 ?s) = (Some obj, rights, badge, Some cn, 0, 0, 0)"
    using v(5) [of ?s] e by (simp add: \<sigma>2_def content_def)
  have more: "ctr \<sigma>2 = ctr \<sigma>" "mdb_state.more \<sigma>2 = mdb_state.more \<sigma>"
    using v(6,7) by (simp_all add: \<sigma>2_def)
  show ?thesis
    unfolding install_write_def Let_def option.case prod.case \<sigma>2_def [symmetric] d
    using rep2 c cs more by (simp add: installed_def)
qed

lemma install_write_root:
  assumes rep: "mdb_rep \<sigma> L" and ok: "slots_ok \<sigma>"
    and s: "object_of \<sigma> (Slot cn i) = None" and g: "L (Grp g) = []"
  shows "\<exists>\<sigma>'. install_write cn i obj rights badge None unp \<sigma> = Some \<sigma>' \<and>
    installed cn i obj rights badge (if unp then MDB_FLAG_UNPARENTED else 0) (L(Grp g := [Slot cn i])) \<sigma> \<sigma>' \<and>
    cdt_derived_live (ctr \<sigma>') = cdt_derived_live (ctr \<sigma>) \<and>
    mdb_unparented_roots (ctr \<sigma>') = mdb_unparented_roots (ctr \<sigma>) + (if unp then 1 else 0)"
proof -
  let ?s = "Slot cn i" and ?fl = "if unp then MDB_FLAG_UNPARENTED else 0"
  let ?f = "\<lambda>x. x\<lparr>s_object := Some obj, s_rights := rights, s_badge := badge, mdb_cnode := Some cn,
      mdb_parent := None, mdb_flags := ?fl\<rparr>"
  have e: "slots \<sigma> ?s = empty_slot" using slot_empty [OF ok s] .
  have ns: "\<not> node \<sigma> ?s" using s node_iff [OF ok] by simp
  have eq: "upd_slot ?s (\<lambda>x. x\<lparr>mdb_parent := None, mdb_flags := ?fl\<rparr>) (upd_slot ?s (\<lambda>x. x\<lparr>s_object := Some obj,
      s_rights := rights, s_badge := badge, mdb_cnode := Some cn\<rparr>) \<sigma>) = upd_slot ?s ?f \<sigma>"
    by (simp add: upd_slot_def)
  have "mdb_rep (upd_slot ?s ?f \<sigma>) (L(Grp g := [?s]))"
    by (rule rep_new_root [OF rep ns g]) (simp_all add: links_of_def e)
  then show ?thesis
    unfolding install_write_def Let_def option.case eq
    using e by (auto simp: installed_def content_def)
qed

lemma installed_slots_ok:
  assumes "installed cn i obj rights badge fl L' \<sigma> \<sigma>'" "mdb_rep \<sigma> L" "slots_ok \<sigma>" "rights \<noteq> RIGHT_NONE"
  shows "slots_ok \<sigma>'"
proof (rule slots_ok_content [OF assms(3,2), where s = "Slot cn i"])
  show "mdb_rep \<sigma>' L'" using assms(1) by (simp add: installed_def)
  show "content (slots \<sigma>' x) = content (slots \<sigma> x)" if "x \<noteq> Slot cn i" for x
    using assms(1) that by (simp add: installed_def)
  show "slot_ok (Slot cn i) (slots \<sigma>' (Slot cn i))"
    using assms(1,4) by (simp add: installed_def content_def slot_ok_def)
qed

lemma installed_object:
  assumes "installed cn i obj rights badge fl L' \<sigma> \<sigma>'"
  shows "object_of \<sigma>' = (object_of \<sigma>)(Slot cn i := Some obj)"
proof (rule ext)
  fix x show "object_of \<sigma>' x = ((object_of \<sigma>)(Slot cn i := Some obj)) x"
    using assms by (cases "x = Slot cn i") (auto simp: installed_def content_def)
qed

lemma installed_nodes:
  assumes "installed cn i obj rights badge fl L' \<sigma> \<sigma>'"
  shows "Collect (node \<sigma>') = insert (Slot cn i) (Collect (node \<sigma>))"
proof -
  have "node \<sigma>' x \<longleftrightarrow> x = Slot cn i \<or> node \<sigma> x" for x
    using assms by (cases "x = Slot cn i") (auto simp: installed_def node_def content_def)
  then show ?thesis by blast
qed

lemma installed_unparented:
  assumes "installed cn i obj rights badge fl L' \<sigma> \<sigma>'" "object_of \<sigma> (Slot cn i) = None" "slots_ok \<sigma>"
  shows "unparented_set \<sigma>' =
    (if fl AND MDB_FLAG_UNPARENTED \<noteq> 0 then insert (Slot cn i) (unparented_set \<sigma>) else unparented_set \<sigma>)"
proof -
  have "Slot cn i \<notin> unparented_set \<sigma>" using slot_empty [OF assms(3,2)] by (simp add: unparented_set_def)
  moreover have "\<And>x. x \<in> unparented_set \<sigma>' \<longleftrightarrow>
      (if x = Slot cn i then fl AND MDB_FLAG_UNPARENTED \<noteq> 0 else x \<in> unparented_set \<sigma>)"
  proof -
    fix x show "x \<in> unparented_set \<sigma>' \<longleftrightarrow>
        (if x = Slot cn i then fl AND MDB_FLAG_UNPARENTED \<noteq> 0 else x \<in> unparented_set \<sigma>)"
      using assms(1) by (cases "x = Slot cn i") (auto simp: installed_def unparented_set_def content_def)
  qed
  ultimately show ?thesis unfolding set_eq_iff by (metis insert_iff)
qed

lemma gauges_install_child:
  assumes inst: "installed cn i obj rights badge 0 (L(Kids p := Slot cn i # L (Kids p))) \<sigma> \<sigma>'"
    and rep: "mdb_rep \<sigma> L" and ok: "slots_ok \<sigma>" and s: "object_of \<sigma> (Slot cn i) = None"
    and d: "cdt_derived_live (ctr \<sigma>') = cdt_derived_live (ctr \<sigma>) + 1"
      "mdb_unparented_roots (ctr \<sigma>') = mdb_unparented_roots (ctr \<sigma>)"
    and g: "gauges_ok \<sigma>"
  shows "gauges_ok \<sigma>'"
proof -
  have rep': "mdb_rep \<sigma>' (L(Kids p := Slot cn i # L (Kids p)))" using inst by (simp add: installed_def)
  have ns: "\<not> node \<sigma> (Slot cn i)" using s node_iff [OF ok] by simp
  have "set ((L(Kids p := Slot cn i # L (Kids p))) (Kids q)) =
      (if q = p then insert (Slot cn i) (set (L (Kids q))) else set (L (Kids q)))" for q by simp
  then have "derived_set \<sigma>' = insert (Slot cn i) (derived_set \<sigma>)"
    unfolding set_eq_iff insert_iff derived_in [OF rep] derived_in [OF rep'] by (metis insert_iff)
  moreover have "Slot cn i \<notin> derived_set \<sigma>" using rep_in [OF rep] ns by (auto simp: derived_in [OF rep])
  ultimately show ?thesis
    using g d ns installed_nodes [OF inst] installed_unparented [OF inst s ok] inst
      rep_finite [OF rep] derived_finite [OF rep]
    by (simp add: gauges_ok_def installed_def)
qed

lemma gauges_install_root:
  assumes inst: "installed cn i obj rights badge (if unp then MDB_FLAG_UNPARENTED else 0)
      (L(Grp h := [Slot cn i])) \<sigma> \<sigma>'"
    and rep: "mdb_rep \<sigma> L" and ok: "slots_ok \<sigma>" and s: "object_of \<sigma> (Slot cn i) = None"
    and d: "cdt_derived_live (ctr \<sigma>') = cdt_derived_live (ctr \<sigma>)"
      "mdb_unparented_roots (ctr \<sigma>') = mdb_unparented_roots (ctr \<sigma>) + (if unp then 1 else 0)"
    and g: "gauges_ok \<sigma>"
  shows "gauges_ok \<sigma>'"
proof -
  have rep': "mdb_rep \<sigma>' (L(Grp h := [Slot cn i]))" using inst by (simp add: installed_def)
  have ns: "\<not> node \<sigma> (Slot cn i)" using s node_iff [OF ok] by simp
  have "derived_set \<sigma>' = derived_set \<sigma>" by (auto simp: derived_in [OF rep] derived_in [OF rep'])
  moreover have "Slot cn i \<notin> unparented_set \<sigma>" using ns unparented_node [OF ok] by blast
  moreover have "(if unp then MDB_FLAG_UNPARENTED else 0) AND MDB_FLAG_UNPARENTED \<noteq> 0 \<longleftrightarrow> unp"
    by (simp add: MDB_FLAG_UNPARENTED_def)
  ultimately show ?thesis
    using g d ns installed_nodes [OF inst] installed_unparented [OF inst s ok] inst
      rep_finite [OF rep] unparented_finite [OF rep ok]
    by (simp add: gauges_ok_def installed_def)
qed

subsection \<open>What a move does to the tree\<close>

lemma clear_tmp_id: "slots_ok \<sigma> \<Longrightarrow> clear_tmp \<sigma> = \<sigma>"
  using Tmp_empty [of \<sigma>] by (simp add: clear_tmp_def upd_slot_def fun_upd_idem)

text \<open>One relocation: the layout is renamed, the capability travels without its guard, and
nothing else moves.\<close>

definition moved_content :: "oid \<Rightarrow> kcslot \<Rightarrow> oid option \<times> iris_rights \<times> u64 \<times> oid option \<times> u32 \<times> u64 \<times> u8" where
  "moved_content cn x = (s_object x, s_rights x, s_badge x, Some cn, mdb_flags x, 0, 0)"

definition renamed_by :: "(slotref \<Rightarrow> slotref) \<Rightarrow> 'z mdb_state_scheme \<Rightarrow> 'z mdb_state_scheme \<Rightarrow> bool" where
  "renamed_by f \<sigma> \<sigma>' \<longleftrightarrow>
     (\<forall>L. mdb_rep \<sigma> L \<longrightarrow> mdb_rep \<sigma>' (conj_layout f L)) \<and>
     (\<forall>x. object_of \<sigma>' x = object_of \<sigma> (f x)) \<and>
     mdb_state.more \<sigma>' = mdb_state.more \<sigma> \<and> (gauges_ok \<sigma> \<longrightarrow> gauges_ok \<sigma>')"

definition moved :: "slotref \<Rightarrow> slotref \<Rightarrow> oid \<Rightarrow> 'z mdb_state_scheme \<Rightarrow> 'z mdb_state_scheme \<Rightarrow> bool" where
  "moved a b cn \<sigma> \<sigma>' \<longleftrightarrow> renamed_by (exch a b) \<sigma> \<sigma>' \<and>
     slots \<sigma>' a = empty_slot \<and> content (slots \<sigma>' b) = moved_content cn (slots \<sigma> a) \<and>
     (\<forall>x. x \<noteq> a \<longrightarrow> x \<noteq> b \<longrightarrow> content (slots \<sigma>' x) = content (slots \<sigma> x))"

lemma movedD:
  assumes "moved a b cn \<sigma> \<sigma>'"
  shows "renamed_by (exch a b) \<sigma> \<sigma>'" "slots \<sigma>' a = empty_slot"
    "content (slots \<sigma>' b) = moved_content cn (slots \<sigma> a)"
    "x \<noteq> a \<Longrightarrow> x \<noteq> b \<Longrightarrow> content (slots \<sigma>' x) = content (slots \<sigma> x)"
  using assms by (simp_all add: moved_def)

lemma relocate_moved:
  assumes rep: "mdb_rep \<sigma> L" and a: "node \<sigma> a" and b: "slots \<sigma> b = empty_slot"
  obtains \<sigma>' where "mdb_relocate a b cn \<sigma> = Some \<sigma>'" "moved a b cn \<sigma> \<sigma>'" "ctr \<sigma>' = ctr \<sigma>"
proof -
  from relocate_step [OF rep a b, of cn] obtain \<sigma>' where
    r: "mdb_relocate a b cn \<sigma> = Some \<sigma>'" and s: "slots \<sigma>' a = empty_slot"
      "content (slots \<sigma>' b) = moved_content cn (slots \<sigma> a)"
      "\<forall>x. x \<noteq> a \<longrightarrow> x \<noteq> b \<longrightarrow> content (slots \<sigma>' x) = content (slots \<sigma> x)"
      "ctr \<sigma>' = ctr \<sigma>" "mdb_state.more \<sigma>' = mdb_state.more \<sigma>"
      "\<forall>x. object_of \<sigma>' x = object_of \<sigma> (exch a b x)" "gauges_ok \<sigma> \<longrightarrow> gauges_ok \<sigma>'"
    unfolding moved_content_def fun_eq_iff by blast
  have "mdb_rep \<sigma>' (conj_layout (exch a b) L')" if "mdb_rep \<sigma> L'" for L'
    using relocate_step [OF that a b, of cn] r by auto
  then have "moved a b cn \<sigma> \<sigma>'" unfolding moved_def renamed_by_def using s by blast
  then show ?thesis using that r s(4) by blast
qed

lemma moved_content_cong:
  "content x = content y \<Longrightarrow> moved_content cn x = moved_content cn y"
  "content x = moved_content c y \<Longrightarrow> moved_content cn x = moved_content cn y"
  by (simp_all add: content_def moved_content_def)

lemma exch_three:
  assumes "a \<noteq> b" "a \<noteq> t" "b \<noteq> t"
  shows "exch a t (exch b a (exch t b x)) = exch a b x" "exch t b (exch b a (exch a t x)) = exch a b x"
  using assms by (auto simp: exch_def)

lemma conj_layout_three:
  assumes "a \<noteq> b" "a \<noteq> t" "b \<noteq> t"
  shows "conj_layout (exch t b) (conj_layout (exch b a) (conj_layout (exch a t) L)) = conj_layout (exch a b) L"
proof (rule ext)
  fix k
  have "map_key (exch a t) (map_key (exch b a) (map_key (exch t b) k)) = map_key (exch a b) k"
    using exch_three [OF assms] by (cases k) auto
  then show "conj_layout (exch t b) (conj_layout (exch b a) (conj_layout (exch a t) L)) k =
      conj_layout (exch a b) L k" using exch_three [OF assms] by (simp add: conj_layout_def comp_def)
qed

lemma rep_free:
  assumes "mdb_rep \<sigma> L" "\<not> node \<sigma> x"
  shows "x \<notin> set (L k)" "L (Kids x) = []"
  using assms forest_in forest_kids_node unfolding mdb_rep_def by fastforce+

lemma conj_layout_two:
  assumes "mdb_rep \<sigma> L" "\<not> node \<sigma> b" "\<not> node \<sigma> t" "a \<noteq> b" "a \<noteq> t" "b \<noteq> t"
  shows "conj_layout (exch t b) (conj_layout (exch a t) L) = conj_layout (exch a b) L"
proof (rule ext)
  fix k
  have "L (map_key (exch a t) (map_key (exch t b) k)) = L (map_key (exch a b) k)"
    using rep_free [OF assms(1)] assms(2-6) by (cases k) (auto simp: exch_def)
  moreover have "exch t b (exch a t x) = exch a b x" if "x \<in> set (L j)" for x j
    using that rep_free [OF assms(1)] assms(2-6) by (auto simp: exch_def)
  ultimately show "conj_layout (exch t b) (conj_layout (exch a t) L) k = conj_layout (exch a b) L k"
    by (simp add: conj_layout_def)
qed

lemma conj_layout_none:
  assumes "mdb_rep \<sigma> L" "\<not> node \<sigma> a" "\<not> node \<sigma> b"
  shows "conj_layout (exch a b) L = L"
proof (rule ext)
  fix k
  have "L (map_key (exch a b) k) = L k"
    using rep_free [OF assms(1)] assms(2,3) by (cases k) (auto simp: exch_def)
  moreover have "exch a b x = x" if "x \<in> set (L k)" for x
    using that rep_free(1) [OF assms(1)] assms(2,3) by (auto simp: exch_def)
  ultimately show "conj_layout (exch a b) L k = L k" by (simp add: conj_layout_def map_idI)
qed

lemma moved_slot_ok:
  assumes "content x = moved_content cn y" and "slot_ok s y" "s_object y \<noteq> None"
  shows "slot_ok (Slot cn i) x"
  using assms by (auto simp: slot_ok_def content_def moved_content_def split: slotref.splits)

text \<open>What every sequence of relocations leaves: two slots named, all others with their content.\<close>

lemma slots_empty_content:
  assumes "mdb_rep \<sigma> L" "content (slots \<sigma> x) = content empty_slot"
  shows "slots \<sigma> x = empty_slot"
proof -
  have "\<not> node \<sigma> x" using assms(2) by (simp add: node_def content_def)
  then have "links_of (slots \<sigma> x) = (None, None, None, None)" using rep_clean assms(1) by blast
  then show ?thesis using assms(2) by (cases "slots \<sigma> x") (simp add: content_def links_of_def empty_slot_def)
qed

definition exchanged :: "oid \<Rightarrow> nat \<Rightarrow> oid \<Rightarrow> nat \<Rightarrow> 'z mdb_state_scheme \<Rightarrow> 'z mdb_state_scheme \<Rightarrow> bool" where
  "exchanged ca ia cb ib \<sigma> \<sigma>' \<longleftrightarrow> renamed_by (exch (Slot ca ia) (Slot cb ib)) \<sigma> \<sigma>' \<and>
     content (slots \<sigma>' (Slot ca ia)) = (if object_of \<sigma> (Slot cb ib) = None then content empty_slot
                                        else moved_content ca (slots \<sigma> (Slot cb ib))) \<and>
     content (slots \<sigma>' (Slot cb ib)) = (if object_of \<sigma> (Slot ca ia) = None then content empty_slot
                                        else moved_content cb (slots \<sigma> (Slot ca ia))) \<and>
     (\<forall>x. x \<noteq> Slot ca ia \<longrightarrow> x \<noteq> Slot cb ib \<longrightarrow> content (slots \<sigma>' x) = content (slots \<sigma> x))"

lemma exchanged_wf:
  assumes e: "exchanged ca ia cb ib \<sigma> \<sigma>'" and wf: "mdb_wf \<sigma>"
  shows "mdb_wf \<sigma>'"
proof -
  obtain L where rep: "mdb_rep \<sigma> L" and ok: "slots_ok \<sigma>" using wf unfolding mdb_wf_def by blast
  have rep': "mdb_rep \<sigma>' (conj_layout (exch (Slot ca ia) (Slot cb ib)) L)"
    using e rep by (simp add: exchanged_def renamed_by_def)
  have "slots_ok \<sigma>'"
  proof (rule slots_ok_frame [OF ok rep', of "{Slot ca ia, Slot cb ib}"])
    show "content (slots \<sigma>' x) = content (slots \<sigma> x)" if "x \<notin> {Slot ca ia, Slot cb ib}" for x
      using e that by (simp add: exchanged_def)
    show "slot_ok x (slots \<sigma>' x)" if x: "x \<in> {Slot ca ia, Slot cb ib}" for x
    proof (cases "content (slots \<sigma>' x) = content empty_slot")
      case True
      from slots_empty_content [OF rep' this] show ?thesis by (simp add: slot_ok_empty)
    next
      case False
      have m: "slot_ok (Slot c i) (slots \<sigma>' (Slot c i))"
        if "content (slots \<sigma>' (Slot c i)) = moved_content c (slots \<sigma> y)" "object_of \<sigma> y \<noteq> None" for c i y
        using moved_slot_ok [OF that(1) slots_okD [OF ok] that(2)] .
      show ?thesis using x e False m [of ca ia "Slot cb ib"] m [of cb ib "Slot ca ia"]
        unfolding exchanged_def by (auto simp del: not_None_eq split: if_splits)
    qed
  qed
  then show ?thesis using rep' unfolding mdb_wf_def by blast
qed

lemma moved_exchanged:
  assumes "moved (Slot ca ia) (Slot cb ib) cb \<sigma> \<sigma>'"
    and "object_of \<sigma> (Slot ca ia) \<noteq> None" "object_of \<sigma> (Slot cb ib) = None"
  shows "exchanged ca ia cb ib \<sigma> \<sigma>'"
  using assms by (auto simp: moved_def exchanged_def)

lemma renamed_three:
  assumes r: "renamed_by (exch a t) \<sigma> \<sigma>1" "renamed_by (exch b a) \<sigma>1 \<sigma>2" "renamed_by (exch t b) \<sigma>2 \<sigma>'"
    and d: "a \<noteq> b" "a \<noteq> t" "b \<noteq> t"
  shows "renamed_by (exch a b) \<sigma> \<sigma>'"
  unfolding renamed_by_def
proof (intro conjI allI impI)
  show "mdb_rep \<sigma>' (conj_layout (exch a b) L)" if "mdb_rep \<sigma> L" for L
  proof -
    have "mdb_rep \<sigma>' (conj_layout (exch t b) (conj_layout (exch b a) (conj_layout (exch a t) L)))"
      using r that by (simp add: renamed_by_def)
    then show ?thesis unfolding conj_layout_three [OF d] .
  qed
  show "object_of \<sigma>' x = object_of \<sigma> (exch a b x)" for x
    using r exch_three(1) [OF d] by (simp add: renamed_by_def)
qed (use r in \<open>simp_all add: renamed_by_def\<close>)

lemma renamed_two:
  assumes r: "renamed_by (exch a t) \<sigma> \<sigma>1" "renamed_by (exch t b) \<sigma>1 \<sigma>'"
    and e: "slots \<sigma> b = empty_slot" "slots \<sigma> t = empty_slot" and d: "a \<noteq> b" "a \<noteq> t" "b \<noteq> t"
  shows "renamed_by (exch a b) \<sigma> \<sigma>'"
  unfolding renamed_by_def
proof (intro conjI allI impI)
  have n: "\<not> node \<sigma> b" "\<not> node \<sigma> t" using e by (simp_all add: node_def)
  show "mdb_rep \<sigma>' (conj_layout (exch a b) L)" if "mdb_rep \<sigma> L" for L
  proof -
    have "mdb_rep \<sigma>' (conj_layout (exch t b) (conj_layout (exch a t) L))"
      using r that by (simp add: renamed_by_def)
    then show ?thesis unfolding conj_layout_two [OF that n d] .
  qed
  have "object_of \<sigma> (exch a t (exch t b x)) = object_of \<sigma> (exch a b x)" for x
    using e d by (auto simp: exch_def)
  then show "object_of \<sigma>' x = object_of \<sigma> (exch a b x)" for x using r by (simp add: renamed_by_def)
qed (use r in \<open>simp_all add: renamed_by_def\<close>)

lemma moved_two:
  assumes m: "moved (Slot ca ia) Tmp cx \<sigma> \<sigma>1" "moved Tmp (Slot cb ib) cb \<sigma>1 \<sigma>'"
    and e: "slots \<sigma> (Slot cb ib) = empty_slot" "slots \<sigma> Tmp = empty_slot"
    and a: "object_of \<sigma> (Slot ca ia) \<noteq> None" and ne: "Slot ca ia \<noteq> Slot cb ib"
  shows "exchanged ca ia cb ib \<sigma> \<sigma>'"
  unfolding exchanged_def
proof (intro conjI allI impI)
  let ?a = "Slot ca ia" and ?b = "Slot cb ib"
  show "renamed_by (exch ?a ?b) \<sigma> \<sigma>'"
    using renamed_two [OF movedD(1) [OF m(1)] movedD(1) [OF m(2)] e] ne by simp
  show "content (slots \<sigma>' ?a) = (if object_of \<sigma> ?b = None then content empty_slot
      else moved_content ca (slots \<sigma> ?b))"
    using movedD(4) [OF m(2), of ?a] movedD(2) [OF m(1)] e ne by force
  show "content (slots \<sigma>' ?b) = (if object_of \<sigma> ?a = None then content empty_slot
      else moved_content cb (slots \<sigma> ?a))"
    using movedD(3) [OF m(2)] moved_content_cong(2) [OF movedD(3) [OF m(1)]] a by (simp del: not_None_eq)
  show "content (slots \<sigma>' x) = content (slots \<sigma> x)" if "x \<noteq> ?a" "x \<noteq> ?b" for x
    using that movedD(4) [OF m(1), of x] movedD(4) [OF m(2), of x] movedD(2) [OF m(2)] e
    by (cases "x = Tmp") auto
qed

lemma moved_three:
  assumes m: "moved (Slot ca ia) Tmp cx \<sigma> \<sigma>1" "moved (Slot cb ib) (Slot ca ia) ca \<sigma>1 \<sigma>2"
      "moved Tmp (Slot cb ib) cb \<sigma>2 \<sigma>'"
    and e: "slots \<sigma> Tmp = empty_slot" and ne: "Slot ca ia \<noteq> Slot cb ib"
    and a: "object_of \<sigma> (Slot ca ia) \<noteq> None" "object_of \<sigma> (Slot cb ib) \<noteq> None"
  shows "exchanged ca ia cb ib \<sigma> \<sigma>'"
  unfolding exchanged_def
proof (intro conjI allI impI)
  let ?a = "Slot ca ia" and ?b = "Slot cb ib"
  have b1: "content (slots \<sigma>1 ?b) = content (slots \<sigma> ?b)"
    by (rule movedD(4) [OF m(1)]) (use ne in auto)
  have t2: "content (slots \<sigma>2 Tmp) = content (slots \<sigma>1 Tmp)" using movedD(4) [OF m(2), of Tmp] by simp
  show "renamed_by (exch ?a ?b) \<sigma> \<sigma>'"
    using renamed_three [OF movedD(1) [OF m(1)] movedD(1) [OF m(2)] movedD(1) [OF m(3)]] ne by simp
  show "content (slots \<sigma>' ?a) = (if object_of \<sigma> ?b = None then content empty_slot
      else moved_content ca (slots \<sigma> ?b))"
    using movedD(4) [OF m(3), of ?a] movedD(3) [OF m(2)] moved_content_cong(1) [OF b1] a(2) ne by force
  show "content (slots \<sigma>' ?b) = (if object_of \<sigma> ?a = None then content empty_slot
      else moved_content cb (slots \<sigma> ?a))"
    using movedD(3) [OF m(3)] moved_content_cong(1) [OF t2] moved_content_cong(2) [OF movedD(3) [OF m(1)]] a(1)
    by (simp del: not_None_eq)
  show "content (slots \<sigma>' x) = content (slots \<sigma> x)" if "x \<noteq> ?a" "x \<noteq> ?b" for x
    using that movedD(4) [OF m(1), of x] movedD(4) [OF m(2), of x] movedD(4) [OF m(3), of x]
      movedD(2) [OF m(3)] e by (cases "x = Tmp") auto
qed

lemma exchange_through_tmp:
  assumes wf: "mdb_wf \<sigma>" and ne: "Slot ca ia \<noteq> Slot cb ib"
    and a: "object_of \<sigma> (Slot ca ia) \<noteq> None"
  shows "\<exists>\<sigma>1 \<sigma>2 \<sigma>'. mdb_relocate (Slot ca ia) Tmp cx \<sigma> = Some \<sigma>1 \<and>
    (if object_of \<sigma> (Slot cb ib) \<noteq> None then mdb_relocate (Slot cb ib) (Slot ca ia) ca \<sigma>1 else Some \<sigma>1) = Some \<sigma>2 \<and>
    mdb_relocate Tmp (Slot cb ib) cb \<sigma>2 = Some \<sigma>' \<and> exchanged ca ia cb ib \<sigma> \<sigma>' \<and> ctr \<sigma>' = ctr \<sigma>"
proof -
  let ?a = "Slot ca ia" and ?b = "Slot cb ib"
  obtain L where rep: "mdb_rep \<sigma> L" and ok: "slots_ok \<sigma>" using wf unfolding mdb_wf_def by blast
  note te = Tmp_empty [OF ok]
  obtain \<sigma>1 where 1: "mdb_relocate ?a Tmp cx \<sigma> = Some \<sigma>1" "moved ?a Tmp cx \<sigma> \<sigma>1" "ctr \<sigma>1 = ctr \<sigma>"
    using relocate_moved [OF rep _ te] a node_iff [OF ok] by blast
  have rep1: "mdb_rep \<sigma>1 (conj_layout (exch ?a Tmp) L)" using movedD(1) [OF 1(2)] rep by (simp add: renamed_by_def)
  have b1: "content (slots \<sigma>1 ?b) = content (slots \<sigma> ?b)"
    by (rule movedD(4) [OF 1(2)]) (use ne in auto)
  have fin: "\<exists>\<sigma>'. mdb_relocate Tmp ?b cb \<sigma>2 = Some \<sigma>' \<and> moved Tmp ?b cb \<sigma>2 \<sigma>' \<and> ctr \<sigma>' = ctr \<sigma>2"
    if "mdb_rep \<sigma>2 L2" "slots \<sigma>2 ?b = empty_slot" "content (slots \<sigma>2 Tmp) = content (slots \<sigma>1 Tmp)" for \<sigma>2 L2
  proof -
    have "node \<sigma>2 Tmp"
      using that(3) movedD(3) [OF 1(2)] by (simp add: node_def content_def moved_content_def)
    from relocate_moved [OF that(1) this that(2)] show ?thesis by metis
  qed
  show ?thesis
  proof (cases "object_of \<sigma> ?b = None")
    case True
    note eb = slot_empty [OF ok True]
    have e1: "slots \<sigma>1 ?b = empty_slot" using slots_empty_content [OF rep1] b1 eb by simp
    then obtain \<sigma>' where 3: "mdb_relocate Tmp ?b cb \<sigma>1 = Some \<sigma>'" "moved Tmp ?b cb \<sigma>1 \<sigma>'" "ctr \<sigma>' = ctr \<sigma>1"
      using fin [OF rep1] by blast
    show ?thesis using 1 3 True moved_two [OF 1(2) 3(2) eb te a ne] by auto
  next
    case False
    have n1: "node \<sigma>1 ?b" using node_content [OF b1] False node_iff [OF ok] by simp
    obtain \<sigma>2 where 2: "mdb_relocate ?b ?a ca \<sigma>1 = Some \<sigma>2" "moved ?b ?a ca \<sigma>1 \<sigma>2" "ctr \<sigma>2 = ctr \<sigma>1"
      using relocate_moved [OF rep1 n1 movedD(2) [OF 1(2)]] by blast
    have rep2: "mdb_rep \<sigma>2 (conj_layout (exch ?b ?a) (conj_layout (exch ?a Tmp) L))"
      using movedD(1) [OF 2(2)] rep1 by (simp add: renamed_by_def)
    have t2: "content (slots \<sigma>2 Tmp) = content (slots \<sigma>1 Tmp)" using movedD(4) [OF 2(2), of Tmp] by simp
    obtain \<sigma>' where 3: "mdb_relocate Tmp ?b cb \<sigma>2 = Some \<sigma>'" "moved Tmp ?b cb \<sigma>2 \<sigma>'" "ctr \<sigma>' = ctr \<sigma>2"
      using fin [OF rep2 movedD(2) [OF 2(2)] t2] by blast
    show ?thesis using 1 2 3 False moved_three [OF 1(2) 2(2) 3(2) te ne a False] by auto
  qed
qed

lemma move_exchanged:
  assumes wf: "mdb_wf \<sigma>"
    and a: "object_of \<sigma> (Slot ca ia) \<noteq> None" and b: "object_of \<sigma> (Slot cb ib) = None"
  shows "\<exists>\<sigma>'. mdb_relocate (Slot ca ia) (Slot cb ib) cb \<sigma> = Some \<sigma>' \<and>
    exchanged ca ia cb ib \<sigma> \<sigma>' \<and> ctr \<sigma>' = ctr \<sigma>"
proof -
  obtain L where rep: "mdb_rep \<sigma> L" and ok: "slots_ok \<sigma>" using wf unfolding mdb_wf_def by blast
  obtain \<sigma>' where "mdb_relocate (Slot ca ia) (Slot cb ib) cb \<sigma> = Some \<sigma>'"
      "moved (Slot ca ia) (Slot cb ib) cb \<sigma> \<sigma>'" "ctr \<sigma>' = ctr \<sigma>"
    using relocate_moved [OF rep _ slot_empty [OF ok b]] a node_iff [OF ok] by blast
  then show ?thesis using moved_exchanged a b by blast
qed

lemma exchanged_upd_ctr [simp]:
  assumes "mdb_nodes_live (g (ctr \<sigma>')) = mdb_nodes_live (ctr \<sigma>')"
    "cdt_derived_live (g (ctr \<sigma>')) = cdt_derived_live (ctr \<sigma>')"
    "mdb_unparented_roots (g (ctr \<sigma>')) = mdb_unparented_roots (ctr \<sigma>')"
  shows "exchanged ca ia cb ib \<sigma> (upd_ctr g \<sigma>') = exchanged ca ia cb ib \<sigma> \<sigma>'"
  unfolding exchanged_def renamed_by_def
  by (simp add: rep_slots [of "upd_ctr g \<sigma>'" \<sigma>'] gauges_ctr assms)

end
