(* ===== verification/Iris_Slots.thy ===== *)
theory Iris_Slots
  imports Iris_CNode
begin

text \<open>
  What the slot primitives of \<^verbatim>\<open>kcnode.c\<close> do, operation by operation: the move family is
  a renaming of the derivation tree, revocation removes a subtree leaf by leaf, an install
  adds one node.  The locale \<open>slot_inv\<close> collects what a predicate has to satisfy to be an
  invariant of every primitive; it is interpreted on the well-formedness of the tree and on
  the exactness of its gauges.
\<close>

definition moved_slots ::
    "(slotref \<Rightarrow> slotref) \<Rightarrow> 'z mdb_state_scheme \<Rightarrow> 'z mdb_state_scheme \<Rightarrow> bool" where
  "moved_slots f \<sigma> \<sigma>' \<longleftrightarrow>
     (\<forall>s. cap_of (slots \<sigma>' s) = (let (ob, ri, ba, _, _) = cap_of (slots \<sigma> (f s)) in
            if f s = s then cap_of (slots \<sigma> s) else (ob, ri, ba, 0, 0))) \<and>
     (\<forall>s. par \<sigma>' (f s) = map_option f (par \<sigma> s))"

text \<open>The proper ancestors of a slot in the derivation tree.\<close>

definition descends :: "'z mdb_state_scheme \<Rightarrow> slotref \<Rightarrow> slotref \<Rightarrow> bool" where
  "descends \<sigma> r d \<longleftrightarrow> (r, d) \<in> (parent_rel (par \<sigma>))\<^sup>+"

subsection \<open>The move family\<close>

lemma exchanged_linked:
  assumes e: "exchanged ca ia cb ib \<sigma> \<sigma>'" and wf: "linked_wf \<sigma>"
  shows "linked_wf \<sigma>'"
proof -
  obtain L where rep: "mdb_rep \<sigma> L" and ok: "slots_ok \<sigma>" and con: "connected L (object_of \<sigma>)"
    using wf unfolding linked_wf_def by blast
  have "mdb_wf \<sigma>" using rep ok by (auto simp: mdb_wf_def)
  then have ok': "slots_ok \<sigma>'" using exchanged_wf [OF e] by (simp add: mdb_wf_def)
  have "object_of \<sigma>' = (\<lambda>x. object_of \<sigma> (exch (Slot ca ia) (Slot cb ib) x))"
    "mdb_rep \<sigma>' (conj_layout (exch (Slot ca ia) (Slot cb ib)) L)"
    using e rep by (auto simp: exchanged_def renamed_by_def)
  then show ?thesis using connected_conj [OF con, of "Slot ca ia" "Slot cb ib"] ok' by (auto simp: linked_wf_def)
qed

lemma exchanged_gauges: "exchanged ca ia cb ib \<sigma> \<sigma>' \<Longrightarrow> gauges_ok \<sigma> \<Longrightarrow> gauges_ok \<sigma>'"
  by (simp add: exchanged_def renamed_by_def)

lemma exchanged_moved:
  assumes e: "exchanged ca ia cb ib \<sigma> \<sigma>'" and wf: "mdb_wf \<sigma>" and ne: "Slot ca ia \<noteq> Slot cb ib"
  shows "moved_slots (exch (Slot ca ia) (Slot cb ib)) \<sigma> \<sigma>'"
  unfolding moved_slots_def
proof (intro conjI allI)
  obtain L where rep: "mdb_rep \<sigma> L" and ok: "slots_ok \<sigma>" using wf unfolding mdb_wf_def by blast
  have rep': "mdb_rep \<sigma>' (conj_layout (exch (Slot ca ia) (Slot cb ib)) L)"
    using e rep by (auto simp: exchanged_def renamed_by_def)
  fix s
  show "par \<sigma>' (exch (Slot ca ia) (Slot cb ib) s) = map_option (exch (Slot ca ia) (Slot cb ib)) (par \<sigma> s)"
    using rep_conj_par [OF rep rep', of "exch (Slot ca ia) (Slot cb ib) s"] by (simp add: exch_invol)
  show "cap_of (slots \<sigma>' s) = (let (ob, ri, ba, _, _) = cap_of (slots \<sigma> (exch (Slot ca ia) (Slot cb ib) s)) in
      if exch (Slot ca ia) (Slot cb ib) s = s then cap_of (slots \<sigma> s) else (ob, ri, ba, 0, 0))"
    using e ne slot_empty [OF ok, of "Slot ca ia"] slot_empty [OF ok, of "Slot cb ib"]
    by (cases "s = Slot ca ia"; cases "s = Slot cb ib")
      (auto simp: exchanged_def cap_of_def content_def moved_content_def exch_def Let_def split: if_splits)
qed

lemma exchanged_sym: "exchanged ca ia cb ib \<sigma> \<sigma>' \<longleftrightarrow> exchanged cb ib ca ia \<sigma> \<sigma>'"
proof -
  have "exch (Slot ca ia) (Slot cb ib) = exch (Slot cb ib) (Slot ca ia)" by (auto simp: exch_def)
  then show ?thesis by (auto simp: exchanged_def)
qed

lemma exchanged_none:
  assumes ok: "slots_ok \<sigma>" and n: "object_of \<sigma> (Slot ca ia) = None" "object_of \<sigma> (Slot cb ib) = None"
  shows "exchanged ca ia cb ib \<sigma> \<sigma>"
proof -
  have "\<not> node \<sigma> (Slot ca ia)" "\<not> node \<sigma> (Slot cb ib)" using n node_iff [OF ok] by simp_all
  from conj_layout_none [OF _ this] show ?thesis
    using slot_empty [OF ok n(1)] slot_empty [OF ok n(2)] by (auto simp: exchanged_def renamed_by_def exch_def)
qed

text \<open>Every result of a move: the status names the first test that failed.\<close>

definition move_status :: "oid \<Rightarrow> nat \<Rightarrow> oid \<Rightarrow> nat \<Rightarrow> bool \<Rightarrow> 'z mdb_state_scheme \<Rightarrow> iris_status" where
  "move_status sc si dc di inr \<sigma> =
     (if \<not> inr \<or> (sc = dc \<and> si = di) then IRIS_ERR_INVALID_ARG
      else if object_of \<sigma> (Slot sc si) = None then IRIS_ERR_NOT_FOUND
      else if object_of \<sigma> (Slot dc di) \<noteq> None then IRIS_ERR_ALREADY_EXISTS
      else IRIS_OK)"

lemma slots_in_range_Some:
  "objs \<sigma> sc = Some ks \<Longrightarrow> objs \<sigma> dc = Some kd \<Longrightarrow>
   slots_in_range sc si dc di \<sigma> = Some (si < ko_slot_count ks \<and> di < ko_slot_count kd)"
  by (simp add: slots_in_range_def)

lemma move_spec:
  assumes wf: "mdb_wf \<sigma>" and r: "slots_in_range sc si dc di \<sigma> = Some inr"
  shows "\<exists>\<sigma>'. kcnode_slot_move sc si dc di \<sigma> = Some (move_status sc si dc di inr \<sigma>, \<sigma>') \<and>
    (if move_status sc si dc di inr \<sigma> = IRIS_OK then exchanged sc si dc di \<sigma> \<sigma>' else \<sigma>' = \<sigma>)"
proof (cases "move_status sc si dc di inr \<sigma> = IRIS_OK")
  case True
  then have c: "inr" "\<not> (sc = dc \<and> si = di)" "object_of \<sigma> (Slot sc si) \<noteq> None" "object_of \<sigma> (Slot dc di) = None"
    by (auto simp: move_status_def split: if_splits)
  from move_exchanged [OF wf c(3,4)] obtain \<sigma>' where
    "mdb_relocate (Slot sc si) (Slot dc di) dc \<sigma> = Some \<sigma>'" "exchanged sc si dc di \<sigma> \<sigma>'" by blast
  then show ?thesis using c r True by (auto simp: kcnode_slot_move_def note_moves_def)
next
  case False
  then show ?thesis using r by (auto simp: kcnode_slot_move_def move_status_def split: if_splits)
qed

lemma swap_spec:
  assumes wf: "mdb_wf \<sigma>" and k: "objs \<sigma> cn = Some k"
  shows "\<exists>\<sigma>'. kcnode_swap cn i j \<sigma> =
      Some (if i \<noteq> j \<and> i < ko_slot_count k \<and> j < ko_slot_count k then IRIS_OK else IRIS_ERR_INVALID_ARG, \<sigma>') \<and>
    (if i \<noteq> j \<and> i < ko_slot_count k \<and> j < ko_slot_count k then exchanged cn i cn j \<sigma> \<sigma>' else \<sigma>' = \<sigma>)"
proof (cases "i \<noteq> j \<and> i < ko_slot_count k \<and> j < ko_slot_count k")
  case True
  obtain L where rep: "mdb_rep \<sigma> L" and ok: "slots_ok \<sigma>" using wf unfolding mdb_wf_def by blast
  note ct = clear_tmp_id [OF ok]
  show ?thesis
  proof (cases "object_of \<sigma> (Slot cn i) = None")
    case False
    from exchange_through_tmp [OF wf _ False, of cn j cn] True obtain \<sigma>1 \<sigma>2 \<sigma>' where
      "mdb_relocate (Slot cn i) Tmp cn \<sigma> = Some \<sigma>1"
      "(if object_of \<sigma> (Slot cn j) \<noteq> None then mdb_relocate (Slot cn j) (Slot cn i) cn \<sigma>1 else Some \<sigma>1) = Some \<sigma>2"
      "mdb_relocate Tmp (Slot cn j) cn \<sigma>2 = Some \<sigma>'" "exchanged cn i cn j \<sigma> \<sigma>'" by auto
    then show ?thesis using True k False by (simp add: kcnode_swap_def ct Let_def)
  next
    case a: True
    show ?thesis
    proof (cases "object_of \<sigma> (Slot cn j) = None")
      case b: True
      have e: "exchanged cn i cn j \<sigma> \<sigma>"
        using exchanged_none [OF ok a b] .
      then show ?thesis using True k a b by (simp add: kcnode_swap_def ct Let_def)
    next
      case False
      from move_exchanged [OF wf False a] obtain \<sigma>' where
        m: "mdb_relocate (Slot cn j) (Slot cn i) cn \<sigma> = Some \<sigma>'" "exchanged cn j cn i \<sigma> \<sigma>'" by blast
      then have "exchanged cn i cn j \<sigma> \<sigma>'" by (simp add: exchanged_sym)
      then show ?thesis using True k a False m(1) by (simp add: kcnode_swap_def ct Let_def)
    qed
  qed
qed (use k in \<open>auto simp: kcnode_swap_def\<close>)

definition rotate_status ::
    "oid \<Rightarrow> nat \<Rightarrow> oid \<Rightarrow> nat \<Rightarrow> oid \<Rightarrow> nat \<Rightarrow> bool \<Rightarrow> 'z mdb_state_scheme \<Rightarrow> iris_status" where
  "rotate_status dc di pc pi sc si inr \<sigma> =
     (if \<not> inr \<or> Slot sc si = Slot pc pi \<or> Slot dc di = Slot pc pi then IRIS_ERR_INVALID_ARG
      else if object_of \<sigma> (Slot sc si) = None \<or> object_of \<sigma> (Slot pc pi) = None then IRIS_ERR_NOT_FOUND
      else if Slot dc di \<noteq> Slot sc si \<and> object_of \<sigma> (Slot dc di) \<noteq> None then IRIS_ERR_ALREADY_EXISTS
      else IRIS_OK)"

text \<open>A rotation onto the source exchanges the two capabilities; onto a free slot it is two moves.\<close>

definition rotated :: "oid \<Rightarrow> nat \<Rightarrow> oid \<Rightarrow> nat \<Rightarrow> oid \<Rightarrow> nat \<Rightarrow> 'z mdb_state_scheme \<Rightarrow> 'z mdb_state_scheme \<Rightarrow> bool" where
  "rotated dc di pc pi sc si \<sigma> \<sigma>' \<longleftrightarrow>
     (if Slot dc di = Slot sc si then exchanged sc si pc pi \<sigma> \<sigma>'
      else \<exists>\<sigma>1. exchanged pc pi dc di \<sigma> \<sigma>1 \<and> exchanged sc si pc pi \<sigma>1 \<sigma>')"

lemma rotate_two:
  assumes wf: "mdb_wf \<sigma>" and ne: "Slot dc di \<noteq> Slot sc si" "Slot sc si \<noteq> Slot pc pi" "Slot dc di \<noteq> Slot pc pi"
    and o: "object_of \<sigma> (Slot sc si) \<noteq> None" "object_of \<sigma> (Slot pc pi) \<noteq> None" "object_of \<sigma> (Slot dc di) = None"
  shows "\<exists>\<sigma>1 \<sigma>'. mdb_relocate (Slot pc pi) (Slot dc di) dc \<sigma> = Some \<sigma>1 \<and>
    mdb_relocate (Slot sc si) (Slot pc pi) pc \<sigma>1 = Some \<sigma>' \<and> rotated dc di pc pi sc si \<sigma> \<sigma>'"
proof -
  from move_exchanged [OF wf o(2,3)] obtain \<sigma>1 where
    1: "mdb_relocate (Slot pc pi) (Slot dc di) dc \<sigma> = Some \<sigma>1" "exchanged pc pi dc di \<sigma> \<sigma>1" by blast
  have ob: "object_of \<sigma>1 x = object_of \<sigma> (exch (Slot pc pi) (Slot dc di) x)" for x
    using 1(2) by (simp add: exchanged_def renamed_by_def)
  have "object_of \<sigma>1 (Slot sc si) \<noteq> None" unfolding ob using ne o(1) by (auto simp: exch_def)
  moreover have "object_of \<sigma>1 (Slot pc pi) = None" unfolding ob using o(3) by (simp add: exch_def)
  ultimately obtain \<sigma>' where
    "mdb_relocate (Slot sc si) (Slot pc pi) pc \<sigma>1 = Some \<sigma>'" "exchanged sc si pc pi \<sigma>1 \<sigma>'"
    using move_exchanged [OF exchanged_wf [OF 1(2) wf]] by blast
  then show ?thesis using 1 ne by (auto simp: rotated_def)
qed

lemma rotated_note: "rotated dc di pc pi sc si \<sigma> \<sigma>' \<Longrightarrow> rotated dc di pc pi sc si \<sigma> (note_moves n \<sigma>')"
  by (auto simp: rotated_def note_moves_def split: if_splits)

lemma rotate_spec:
  assumes wf: "mdb_wf \<sigma>" and k: "objs \<sigma> dc = Some kd" "objs \<sigma> pc = Some kp" "objs \<sigma> sc = Some ks"
    and inr: "inr \<longleftrightarrow> di < ko_slot_count kd \<and> pi < ko_slot_count kp \<and> si < ko_slot_count ks"
  shows "\<exists>\<sigma>'. kcnode_slot_rotate dc di pc pi sc si \<sigma> = Some (rotate_status dc di pc pi sc si inr \<sigma>, \<sigma>') \<and>
    (if rotate_status dc di pc pi sc si inr \<sigma> = IRIS_OK then rotated dc di pc pi sc si \<sigma> \<sigma>' else \<sigma>' = \<sigma>)"
proof (cases "rotate_status dc di pc pi sc si inr \<sigma> = IRIS_OK")
  case True
  then have c: "inr" "Slot sc si \<noteq> Slot pc pi" "Slot dc di \<noteq> Slot pc pi"
    "object_of \<sigma> (Slot sc si) \<noteq> None" "object_of \<sigma> (Slot pc pi) \<noteq> None"
    "Slot dc di \<noteq> Slot sc si \<longrightarrow> object_of \<sigma> (Slot dc di) = None"
    unfolding rotate_status_def by (auto split: if_splits)
  have "slots_ok \<sigma>" using wf by (simp add: mdb_wf_def)
  note ct = clear_tmp_id [OF this]
  show ?thesis
  proof (cases "Slot dc di = Slot sc si")
    case eq: True
    from exchange_through_tmp [OF wf c(2,4), of sc] c(5) obtain \<sigma>1 \<sigma>2 \<sigma>' where
      "mdb_relocate (Slot sc si) Tmp sc \<sigma> = Some \<sigma>1" "mdb_relocate (Slot pc pi) (Slot sc si) sc \<sigma>1 = Some \<sigma>2"
      "mdb_relocate Tmp (Slot pc pi) pc \<sigma>2 = Some \<sigma>'" "exchanged sc si pc pi \<sigma> \<sigma>'"
      by (auto simp del: not_None_eq)
    then show ?thesis using True c eq k inr ct rotated_note [of dc di pc pi sc si \<sigma> \<sigma>' 2]
      by (auto simp: kcnode_slot_rotate_def Let_def rotated_def)
  next
    case False
    from rotate_two [OF wf False c(2,3,4,5)] c(6) False obtain \<sigma>1 \<sigma>' where
      "mdb_relocate (Slot pc pi) (Slot dc di) dc \<sigma> = Some \<sigma>1"
      "mdb_relocate (Slot sc si) (Slot pc pi) pc \<sigma>1 = Some \<sigma>'" "rotated dc di pc pi sc si \<sigma> \<sigma>'" by auto
    then show ?thesis using True c False k inr rotated_note [of dc di pc pi sc si \<sigma> \<sigma>' 2]
      by (auto simp: kcnode_slot_rotate_def Let_def)
  qed
qed (use k inr in \<open>auto simp: kcnode_slot_rotate_def rotate_status_def Let_def split: if_splits\<close>)

subsection \<open>Ancestors under a removal\<close>

lemma removed_descends:
  assumes rep: "mdb_rep \<sigma> L" and rep': "mdb_rep \<sigma>' L'" and rem: "lay_removed L s L'"
    and d: "descends \<sigma> r d" and ne: "r \<noteq> s" "d \<noteq> s"
  shows "descends \<sigma>' r d"
proof -
  let ?P = "parent_rel (par \<sigma>)" and ?Q = "parent_rel (par \<sigma>')"
  have self: "par \<sigma> s \<noteq> Some s" using forest_no_self [OF rep [unfolded mdb_rep_def], of s] by simp
  have edge: "(x, y) \<in> ?Q" if "(x, y) \<in> ?P" "x \<noteq> s" "y \<noteq> s" for x y
    using that rem rep_kids [OF rep, of y x] rep_kids [OF rep', of y x]
    by (auto simp: lay_removed_def split: if_splits)
  have bridge: "(x, z) \<in> ?Q" if "(x, s) \<in> ?P" "(s, z) \<in> ?P" for x z
  proof -
    have "s \<in> set (L (Kids x))" "z \<in> set (L (Kids s))" "x \<noteq> s"
      using that rep_kids [OF rep] self by auto
    then have "z \<in> set (L' (Kids x))" using rem by (simp add: lay_removed_def)
    then show ?thesis using rep_kids [OF rep'] by auto
  qed
  have "(y \<noteq> s \<longrightarrow> (r, y) \<in> ?Q\<^sup>+) \<and> (y = s \<longrightarrow> (\<forall>z. (s, z) \<in> ?P \<longrightarrow> (r, z) \<in> ?Q\<^sup>+))"
    if "(r, y) \<in> ?P\<^sup>+" for y
    using that
  proof (induction rule: trancl_induct)
    case (base y)
    then show ?case using edge [of r y] bridge [of r] ne by blast
  next
    case (step y z)
    show ?case
    proof (cases "z = s")
      case True
      then have "y \<noteq> s" using step(2) self by auto
      then have y: "(r, y) \<in> ?Q\<^sup>+" using step(3) by blast
      have "(r, w) \<in> ?Q\<^sup>+" if "(s, w) \<in> ?P" for w
        using y bridge [of y w] step(2) that True by (blast intro: trancl_into_trancl)
      then show ?thesis using True by blast
    next
      case False
      show ?thesis
      proof (cases "y = s")
        case True
        then show ?thesis using step(2,3) False by blast
      next
        case ys: False
        then have "(r, y) \<in> ?Q\<^sup>+" "(y, z) \<in> ?Q" using step edge False by blast+
        then show ?thesis using False by (blast intro: trancl_into_trancl)
      qed
    qed
  qed
  then show ?thesis using d ne by (simp add: descends_def)
qed

text \<open>
  A set of slots that descend from a root: a lifecycle call may empty some of them or the
  root, but it never cuts one loose from the root.
\<close>

definition tethered :: "slotref \<Rightarrow> slotref set \<Rightarrow> 'z mdb_state_scheme \<Rightarrow> bool" where
  "tethered r D \<sigma> \<longleftrightarrow> mdb_wf \<sigma> \<and>
     (object_of \<sigma> r \<noteq> None \<longrightarrow> (\<forall>d \<in> D. object_of \<sigma> d \<noteq> None \<longrightarrow> descends \<sigma> r d))"

lemma delete_keeps_tethered:
  assumes t: "tethered r D \<sigma>" and d: "kcnode_slot_delete_locked cn i \<sigma> = Some (st, old, \<sigma>')"
  shows "tethered r D \<sigma>'"
proof -
  obtain L where ok: "slots_ok \<sigma>" and rep: "mdb_rep \<sigma> L" using t by (auto simp: tethered_def mdb_wf_def)
  have wf': "mdb_wf \<sigma>'" using delete_keeps_wf [OF _ d] t by (simp add: tethered_def)
  from d rep ok show ?thesis
  proof (cases rule: delete_locked_cases)
    case same
    then show ?thesis using t by simp
  next
    case (gone \<sigma>1 q)
    note dd = detached_delete [OF gone(3)]
    let ?s = "Slot cn i"
    have n: "node \<sigma> ?s" using gone(2) node_iff [OF ok] by simp
    have step: "descends \<sigma>1 r x" if "descends \<sigma> r x" "r \<noteq> ?s" "x \<noteq> ?s" for x
      using removed_descends [OF rep dd(1) lay_detach_removed [OF rep n] that] .
    have "descends \<sigma>1 r x" if "x \<in> D" "object_of \<sigma>1 r \<noteq> None" "object_of \<sigma>1 x \<noteq> None" for x
    proof -
      have "r \<noteq> ?s" "x \<noteq> ?s" using that dd(2) by auto
      moreover from this have "object_of \<sigma> r \<noteq> None" "object_of \<sigma> x \<noteq> None"
        using that fun_cong [OF dd(4), of r] fun_cong [OF dd(4), of x] by simp_all
      ultimately show ?thesis using that(1) t step [of x] unfolding tethered_def by blast
    qed
    then show ?thesis using wf' gone(4) by (auto simp: tethered_def descends_def)
  qed
qed

lemma tethered_slots:
  assumes "slots \<sigma>' = slots \<sigma>"
  shows "tethered r D \<sigma> \<Longrightarrow> tethered r D \<sigma>'"
  by (simp add: tethered_def descends_def wf_slots [OF assms] assms)

interpretation twf: cascade_inv H "tethered r D" for H r D
  by unfold_locales (erule tethered_slots [rotated], simp | erule delete_keeps_tethered, assumption)+

subsection \<open>Revocation\<close>

text \<open>The walk to a leaf ends, at a descendant without children.\<close>

lemma leaf_reached:
  assumes rep: "mdb_rep \<sigma> L"
  shows "par \<sigma> v = Some p \<Longrightarrow> \<exists>w. leftmost_leaf (fch \<sigma>) v = Some w \<and> L (Kids w) = [] \<and> descends \<sigma> p w"
proof -
  have "finite (parent_rel (par \<sigma>))" using parent_rel_finite [OF rep] .
  then have "wf ((parent_rel (par \<sigma>))\<inverse>)"
    using rep_acyclic [OF rep] by (rule finite_acyclic_wf_converse)
  then show "par \<sigma> v = Some p \<Longrightarrow> ?thesis"
  proof (induction v arbitrary: p rule: wf_induct_rule)
    case (less v)
    have e: "(p, v) \<in> parent_rel (par \<sigma>)" using less(2) by auto
    show ?case
    proof (cases "L (Kids v)")
      case Nil
      then have "leftmost_leaf (fch \<sigma>) v = Some v"
        using rep_fch [OF rep, of v] by (subst leftmost_leaf.simps) simp
      then show ?thesis using Nil e by (auto simp: descends_def)
    next
      case (Cons c cs)
      then have c: "par \<sigma> c = Some v" "fch \<sigma> v = Some c"
        using rep_kids [OF rep, of c v] rep_fch [OF rep, of v] by simp_all
      then obtain w where w: "leftmost_leaf (fch \<sigma>) c = Some w" "L (Kids w) = []" "descends \<sigma> v w"
        using less(1) [of c v] by auto
      have "leftmost_leaf (fch \<sigma>) v = Some w" using w(1) c(2) by (subst leftmost_leaf.simps) simp
      moreover have "descends \<sigma> p w" using w(3) e unfolding descends_def by (rule trancl_into_trancl2 [rotated])
      ultimately show ?thesis using w(2) by blast
    qed
  qed
qed

definition victim_ctr :: "u32 \<Rightarrow> mdb_counters \<Rightarrow> mdb_counters" where
  "victim_ctr fl c = (let c1 = (if fl AND MDB_FLAG_UNPARENTED \<noteq> 0
        then c\<lparr>mdb_unparented_roots := mdb_unparented_roots c - 1\<rparr> else c) in
     c1\<lparr>mdb_nodes_live := mdb_nodes_live c1 - 1, cdt_derived_live := cdt_derived_live c1 - 1,
        mdb_revoked_nodes := mdb_revoked_nodes c1 + 1\<rparr>)"

definition victim_removed :: "slotref \<Rightarrow> 'z mdb_state_scheme \<Rightarrow> 'z mdb_state_scheme \<Rightarrow> bool" where
  "victim_removed v \<sigma> \<sigma>' \<longleftrightarrow> node \<sigma> v \<and> par \<sigma> v \<noteq> None \<and> slots \<sigma>' v = empty_slot \<and>
     (\<forall>x. x \<noteq> v \<longrightarrow> content (slots \<sigma>' x) = content (slots \<sigma> x)) \<and>
     ctr \<sigma>' = victim_ctr (mdb_flags (slots \<sigma> v)) (ctr \<sigma>) \<and> mdb_state.more \<sigma>' = mdb_state.more \<sigma> \<and>
     (\<forall>L. mdb_rep \<sigma> L \<longrightarrow> (\<exists>L'. mdb_rep \<sigma>' L' \<and> lay_removed L v L'))"

lemma victim_alt:
  "revoke_victim v \<sigma> = map_option (upd_ctr (\<lambda>c. c\<lparr>mdb_revoked_nodes := mdb_revoked_nodes c + 1\<rparr>))
     (mdb_clear_node v (upd_ctr (\<lambda>c. (victim_ctr (mdb_flags (slots \<sigma> v)) c)\<lparr>mdb_revoked_nodes := mdb_revoked_nodes c\<rparr>)
        (mdb_unlink_from_parent v (upd_slot v clear_content \<sigma>))))"
proof -
  let ?\<sigma>1 = "mdb_unlink_from_parent v (upd_slot v clear_content \<sigma>)"
  have "mdb_flags (slots ?\<sigma>1 v) = mdb_flags (slots \<sigma> v)"
    using unlink_views(5) [of v "upd_slot v clear_content \<sigma>" v] by (simp add: content_def clear_content_def)
  then show ?thesis
    unfolding revoke_victim_def Let_def clear_content_def [abs_def, symmetric]
    by (cases "mdb_flags (slots \<sigma> v) AND MDB_FLAG_UNPARENTED = 0")
      (simp_all add: victim_ctr_def Let_def upd_ctr_def map_conv_bind_option comp_def)
qed

lemma victim_step:
  assumes rep: "mdb_rep \<sigma> L" and p: "par \<sigma> v = Some p" and leaf: "L (Kids v) = []"
  shows "\<exists>\<sigma>'. revoke_victim v \<sigma> = Some \<sigma>' \<and> victim_removed v \<sigma> \<sigma>'"
proof -
  have v: "v \<in> set (L (Kids p))" using rep_kids [OF rep] p by simp
  then have n: "node \<sigma> v" using rep_in [OF rep] by blast
  let ?\<sigma>0 = "upd_slot v clear_content \<sigma>"
  have res: "\<exists>\<sigma>'. revoke_victim v \<sigma> = Some \<sigma>' \<and> (\<exists>L''. mdb_rep \<sigma>' L'' \<and> lay_removed L' v L'') \<and>
      slots \<sigma>' v = empty_slot \<and> (\<forall>x. x \<noteq> v \<longrightarrow> content (slots \<sigma>' x) = content (slots \<sigma> x)) \<and>
      ctr \<sigma>' = victim_ctr (mdb_flags (slots \<sigma> v)) (ctr \<sigma>) \<and> mdb_state.more \<sigma>' = mdb_state.more \<sigma>"
    if rep': "mdb_rep \<sigma> L'" for L'
  proof -
    have "v \<in> set (L' (Kids p))" using rep_kids [OF rep'] p by simp
    then obtain as bs where k: "L' (Kids p) = as @ v # bs" by (auto dest: split_list)
    have "fch \<sigma> v = None" using leaf rep_fch [OF rep, of v] by simp
    then have l': "L' (Kids v) = []" using rep_fch [OF rep', of v] by (cases "L' (Kids v)") auto
    have "mdb_rep ?\<sigma>0 L'" using rep' by (simp add: rep_clear_content)
    from rep_remove_leaf [OF this k l',
        of "\<lambda>c. (victim_ctr (mdb_flags (slots \<sigma> v)) c)\<lparr>mdb_revoked_nodes := mdb_revoked_nodes c\<rparr>"]
      lay_leaf_removed [OF rep' k l']
    show ?thesis unfolding victim_alt
      by (fastforce simp: clear_content_def empty_slot_def victim_ctr_def Let_def)
  qed
  from res [OF rep] obtain \<sigma>' where r: "revoke_victim v \<sigma> = Some \<sigma>'" by blast
  then have "victim_removed v \<sigma> \<sigma>'" unfolding victim_removed_def using res rep n p by auto
  then show ?thesis using r by blast
qed

lemma victim_wf:
  assumes v: "victim_removed v \<sigma> \<sigma>'" and wf: "mdb_wf \<sigma>"
  shows "mdb_wf \<sigma>'"
proof -
  obtain L where ok: "slots_ok \<sigma>" and rep: "mdb_rep \<sigma> L" using wf by (auto simp: mdb_wf_def)
  obtain L' where rep': "mdb_rep \<sigma>' L'" using v rep by (auto simp: victim_removed_def)
  have "slot_ok v (slots \<sigma>' v)" using v slot_ok_empty by (simp add: victim_removed_def)
  then have "slots_ok \<sigma>'" using slots_ok_content [OF ok rep rep', of v] v by (simp add: victim_removed_def)
  then show ?thesis using rep' by (auto simp: mdb_wf_def)
qed

lemma victim_object:
  assumes "victim_removed v \<sigma> \<sigma>'"
  shows "object_of \<sigma>' x = (if x = v then None else object_of \<sigma> x)"
  using assms by (auto simp: victim_removed_def content_def)

lemma victim_linked:
  assumes v: "victim_removed v \<sigma> \<sigma>'" and wf: "linked_wf \<sigma>"
  shows "linked_wf \<sigma>'"
proof -
  obtain L where ok: "slots_ok \<sigma>" and rep: "mdb_rep \<sigma> L" and con: "connected L (object_of \<sigma>)"
    using wf by (auto simp: linked_wf_def)
  obtain L' where rep': "mdb_rep \<sigma>' L'" and rem: "lay_removed L v L'"
    using v rep unfolding victim_removed_def by blast
  have "node \<sigma> v" using v by (simp add: victim_removed_def)
  then obtain k where k: "v \<in> set (L k)" using rep_node [OF rep] by blast
  have "slots_ok \<sigma>'" using victim_wf [OF v] ok rep by (auto simp: mdb_wf_def)
  moreover have "object_of \<sigma>' = (object_of \<sigma>)(v := None)" using victim_object [OF v] by auto
  ultimately show ?thesis using connected_removed [OF rep rem k con] rep' by (auto simp: linked_wf_def)
qed

lemma victim_gauges:
  assumes v: "victim_removed v \<sigma> \<sigma>'" and wf: "mdb_wf \<sigma>" and g: "gauges_ok \<sigma>"
  shows "gauges_ok \<sigma>'"
proof -
  obtain L where ok: "slots_ok \<sigma>" and rep: "mdb_rep \<sigma> L" using wf by (auto simp: mdb_wf_def)
  obtain L' where rep': "mdb_rep \<sigma>' L'" and rem: "lay_removed L v L'"
    using v rep unfolding victim_removed_def by blast
  have p: "par \<sigma> v \<noteq> None" and n: "node \<sigma> v" and e: "slots \<sigma>' v = empty_slot"
    and c: "\<And>x. x \<noteq> v \<Longrightarrow> content (slots \<sigma>' x) = content (slots \<sigma> x)"
    using v by (auto simp: victim_removed_def)
  have der: "derived_set \<sigma>' = derived_set \<sigma> - {v}" using removed_derived [OF rep rep' rem] p by simp
  have vd: "v \<in> derived_set \<sigma>" using p by (simp add: derived_set_def)
  have "node \<sigma>' x \<longleftrightarrow> node \<sigma> x \<and> x \<noteq> v" for x
    using node_content [OF c, of x] e by (cases "x = v") (auto simp: node_def)
  then have nd: "Collect (node \<sigma>') = Collect (node \<sigma>) - {v}" by blast
  have "x \<in> unparented_set \<sigma>' \<longleftrightarrow> x \<in> unparented_set \<sigma> \<and> x \<noteq> v" for x
    using c [of x] e by (cases "x = v") (auto simp: unparented_set_def content_def)
  then have un: "unparented_set \<sigma>' = unparented_set \<sigma> - {v}" by blast
  have uv: "v \<in> unparented_set \<sigma> \<longleftrightarrow> mdb_flags (slots \<sigma> v) AND MDB_FLAG_UNPARENTED \<noteq> 0"
    by (simp add: unparented_set_def)
  have 1: "of_nat (card (Collect (node \<sigma>'))) = (of_nat (card (Collect (node \<sigma>))) - 1 :: u32)"
    unfolding nd by (rule card_remove_word) (use rep_finite [OF rep] n in auto)
  have 2: "of_nat (card (derived_set \<sigma>')) = (of_nat (card (derived_set \<sigma>)) - 1 :: u32)"
    unfolding der by (rule card_remove_word [OF derived_finite [OF rep] vd])
  have 3: "of_nat (card (unparented_set \<sigma>')) =
      (of_nat (card (unparented_set \<sigma>)) - (if v \<in> unparented_set \<sigma> then 1 else 0) :: u32)"
    unfolding un using card_remove_word [OF unparented_finite [OF rep ok], of v] by auto
  have "ctr \<sigma>' = victim_ctr (mdb_flags (slots \<sigma> v)) (ctr \<sigma>)" using v by (simp add: victim_removed_def)
  then show ?thesis using g uv unfolding gauges_ok_def 1 2 3 by (simp add: victim_ctr_def Let_def)
qed

subsection \<open>Invariants of the primitives\<close>

definition same_gauges :: "mdb_counters \<Rightarrow> mdb_counters \<Rightarrow> bool" where
  "same_gauges c d \<longleftrightarrow> mdb_nodes_live c = mdb_nodes_live d \<and> cdt_derived_live c = cdt_derived_live d \<and>
     mdb_unparented_roots c = mdb_unparented_roots d"

locale revoke_inv = cascade_inv H I for H :: "'e hooks" and I :: "'e kst_scheme \<Rightarrow> bool" +
  assumes inv_wf: "I \<sigma> \<Longrightarrow> mdb_wf \<sigma>"
    and keep_ctr: "I \<sigma> \<Longrightarrow> same_gauges (g (ctr \<sigma>)) (ctr \<sigma>) \<Longrightarrow> I (upd_ctr g \<sigma>)"
    and keep_victim: "I \<sigma> \<Longrightarrow> victim_removed v \<sigma> \<sigma>' \<Longrightarrow> I \<sigma>'"
begin

lemma victim_of_child:
  assumes I: "I \<sigma>" and v0: "fch \<sigma> r = Some v0" and l: "leftmost_leaf (fch \<sigma>) v0 = Some v"
    and s: "revoke_victim v \<sigma> = Some \<sigma>'"
  shows "I \<sigma>'" "descends \<sigma> r v" "victim_removed v \<sigma> \<sigma>'"
proof -
  obtain L where rep: "mdb_rep \<sigma> L" using inv_wf [OF I] by (auto simp: mdb_wf_def)
  have "par \<sigma> v0 = Some r"
    using v0 rep_fch [OF rep, of r] rep_kids [OF rep, of v0 r] by (cases "L (Kids r)") auto
  from leaf_reached [OF rep this] l have leaf: "L (Kids v) = []" and d: "descends \<sigma> r v" by auto
  then obtain p where p: "par \<sigma> v = Some p" unfolding descends_def by (auto elim: tranclE)
  from victim_step [OF rep p leaf] s show r: "victim_removed v \<sigma> \<sigma>'" by auto
  then show "I \<sigma>'" using keep_victim [OF I] by blast
  show "descends \<sigma> r v" using d .
qed

definition revoke_post :: "slotref \<Rightarrow> u32 \<Rightarrow> u32 \<Rightarrow> iris_status \<times> u32 \<times> bool \<times> 'e kst_scheme \<Rightarrow> bool" where
  "revoke_post r b n res = (case res of (st, m, again, \<sigma>') \<Rightarrow> I \<sigma>' \<and>
     (b \<noteq> 0 \<longrightarrow> n \<le> b \<longrightarrow> m \<le> b) \<and> (again \<longrightarrow> b \<noteq> 0 \<and> b \<le> m) \<and>
     (again = (object_of \<sigma>' r \<noteq> None \<and> fch \<sigma>' r \<noteq> None)))"

lemma revoke_loop_post:
  assumes "revoke_loop H' cn i b n \<sigma> = Some res"
  shows "H' = H \<longrightarrow> I \<sigma> \<longrightarrow> revoke_post (Slot cn i) b n res"
  using assms
proof (rule revoke_loop.raw_induct [rotated])
  fix rl :: "'e hooks \<Rightarrow> oid \<Rightarrow> nat \<Rightarrow> u32 \<Rightarrow> u32 \<Rightarrow> 'e kst_scheme
       \<Rightarrow> (iris_status \<times> u32 \<times> bool \<times> 'e kst_scheme) option" and H' cn i b n \<sigma> res
  assume ih: "\<And>H' cn i b n \<sigma> res. rl H' cn i b n \<sigma> = Some res \<Longrightarrow>
      H' = H \<longrightarrow> I \<sigma> \<longrightarrow> revoke_post (Slot cn i) b n res"
  assume step: "(if b \<noteq> 0 \<and> n \<ge> b
      then Some (IRIS_OK, n, object_of \<sigma> (Slot cn i) \<noteq> None \<and> fch \<sigma> (Slot cn i) \<noteq> None, \<sigma>)
      else if object_of \<sigma> (Slot cn i) = None
      then Some (if n = 0 then IRIS_ERR_NOT_FOUND else IRIS_OK, n, False, \<sigma>)
      else (case fch \<sigma> (Slot cn i) of
              None \<Rightarrow> Some (IRIS_OK, n, False, \<sigma>)
            | Some v0 \<Rightarrow> do {
                v \<leftarrow> leftmost_leaf (fch \<sigma>) v0;
                v_cn \<leftarrow> mdb_cnode (slots \<sigma> v);
                \<sigma>1 \<leftarrow> revoke_victim v \<sigma>;
                \<sigma>2 \<leftarrow> kcnode_slot_drop_old H' v_cn (object_of \<sigma> v) \<sigma>1;
                rl H' cn i b (n + 1) \<sigma>2
              })) = Some res"
  show "H' = H \<longrightarrow> I \<sigma> \<longrightarrow> revoke_post (Slot cn i) b n res"
  proof (intro impI)
    assume h: "H' = H" and I: "I \<sigma>"
    show "revoke_post (Slot cn i) b n res"
    proof (cases "(b \<noteq> 0 \<and> n \<ge> b) \<or> object_of \<sigma> (Slot cn i) = None \<or> fch \<sigma> (Slot cn i) = None")
      case True
      then show ?thesis using step I by (auto simp: revoke_post_def split: if_splits option.splits)
    next
      case False
      then obtain v0 v c \<sigma>1 \<sigma>2 where v: "fch \<sigma> (Slot cn i) = Some v0" "leftmost_leaf (fch \<sigma>) v0 = Some v"
        "revoke_victim v \<sigma> = Some \<sigma>1" and d: "kcnode_slot_drop_old H c (object_of \<sigma> v) \<sigma>1 = Some \<sigma>2"
        and r: "rl H cn i b (n + 1) \<sigma>2 = Some res"
        using step h by (auto split: bind_splits)
      have "I \<sigma>1" using victim_of_child [OF I v] by blast
      then have "I \<sigma>2" using krun_keeps d by (simp add: kcnode_slot_drop_old_def)
      then have p: "revoke_post (Slot cn i) b (n + 1) res" using ih [OF r] by blast
      have "n + 1 \<le> b" if "b \<noteq> 0" using that False by (metis inc_le not_le)
      then show ?thesis using p by (auto simp: revoke_post_def split: prod.splits)
    qed
  qed
qed

lemma revoke_post:
  assumes "kcnode_slot_revoke_bounded H cn i b \<sigma> = Some res" "I \<sigma>" "objs \<sigma> cn = Some k" "i < ko_slot_count k"
  shows "revoke_post (Slot cn i) b 0 res"
proof -
  let ?g = "\<lambda>c. c\<lparr>cdt_revoke_count := cdt_revoke_count c + 1\<rparr>"
  have "I (upd_ctr ?g \<sigma>)" by (rule keep_ctr [OF assms(2)]) (simp add: same_gauges_def)
  moreover have "revoke_loop H cn i b 0 (upd_ctr ?g \<sigma>) = Some res"
    using assms by (simp add: kcnode_slot_revoke_bounded_def)
  ultimately show ?thesis using revoke_loop_post by blast
qed

lemma revoke_keeps:
  assumes "kcnode_slot_revoke_bounded H cn i b \<sigma> = Some (st, m, again, \<sigma>')" "I \<sigma>"
  shows "I \<sigma>'"
proof -
  obtain k where k: "objs \<sigma> cn = Some k"
    using assms(1) by (auto simp: kcnode_slot_revoke_bounded_def split: bind_splits)
  show ?thesis
  proof (cases "i < ko_slot_count k")
    case True
    then show ?thesis using revoke_post [OF assms k] by (simp add: revoke_post_def)
  qed (use assms k in \<open>simp add: kcnode_slot_revoke_bounded_def\<close>)
qed

end

lemma victim_removes:
  assumes v: "victim_removed v \<sigma> \<sigma>'" and wf: "mdb_wf \<sigma> \<and> only_removes \<sigma>0 \<sigma>"
  shows "mdb_wf \<sigma>' \<and> only_removes \<sigma>0 \<sigma>'"
proof -
  have wf': "mdb_wf \<sigma>'" using victim_wf [OF v] wf by simp
  then have ok': "slots_ok \<sigma>'" by (simp add: mdb_wf_def)
  have "slots \<sigma>' s = empty_slot \<or> cap_of (slots \<sigma>' s) = cap_of (slots \<sigma>0 s)" for s
  proof (cases "s = v")
    case False
    then have c: "content (slots \<sigma>' s) = content (slots \<sigma> s)" using v by (simp add: victim_removed_def)
    then have "cap_of (slots \<sigma>' s) = cap_of (slots \<sigma> s)" "object_of \<sigma>' s = object_of \<sigma> s"
      by (simp_all add: content_def cap_of_def)
    moreover have "slots \<sigma> s = empty_slot \<or> cap_of (slots \<sigma> s) = cap_of (slots \<sigma>0 s)"
      using wf by (simp add: only_removes_def)
    ultimately show ?thesis using slot_empty [OF ok', of s] by auto
  qed (use v in \<open>simp add: victim_removed_def\<close>)
  then show ?thesis using wf' by (simp add: only_removes_def)
qed

lemma victim_tethered:
  assumes v: "victim_removed v \<sigma> \<sigma>'" and t: "tethered r D \<sigma>"
  shows "tethered r D \<sigma>'"
proof -
  have wf: "mdb_wf \<sigma>" using t by (simp add: tethered_def)
  then obtain L where rep: "mdb_rep \<sigma> L" by (auto simp: mdb_wf_def)
  obtain L' where rep': "mdb_rep \<sigma>' L'" and rem: "lay_removed L v L'"
    using v rep unfolding victim_removed_def by blast
  have "descends \<sigma>' r d" if "d \<in> D" "object_of \<sigma>' r \<noteq> None" "object_of \<sigma>' d \<noteq> None" for d
  proof -
    have ne: "r \<noteq> v" "d \<noteq> v" using that victim_object [OF v] by (auto split: if_splits)
    then have "descends \<sigma> r d"
      using that t victim_object [OF v, of r] victim_object [OF v, of d] by (auto simp: tethered_def)
    then show ?thesis using removed_descends [OF rep rep' rem _ ne] by blast
  qed
  then show ?thesis using victim_wf [OF v wf] by (simp add: tethered_def)
qed

lemma tethered_leaf:
  assumes t: "tethered r D \<sigma>" and r: "object_of \<sigma> r \<noteq> None" "fch \<sigma> r = None" and d: "d \<in> D"
  shows "slots \<sigma> d = empty_slot"
proof (rule ccontr)
  assume ne: "slots \<sigma> d \<noteq> empty_slot"
  obtain L where ok: "slots_ok \<sigma>" and rep: "mdb_rep \<sigma> L" using t by (auto simp: tethered_def mdb_wf_def)
  have "descends \<sigma> r d" using t r d ne slot_empty [OF ok, of d] by (auto simp: tethered_def)
  then obtain c where "par \<sigma> c = Some r" unfolding descends_def by (auto dest: tranclD)
  then have "c \<in> set (L (Kids r))" using rep_kids [OF rep] by simp
  then show False using r(2) rep_fch [OF rep, of r] by (cases "L (Kids r)") auto
qed

interpretation rvl: revoke_inv H linked_wf for H
proof unfold_locales
  show "linked_wf \<sigma> \<Longrightarrow> mdb_wf \<sigma>" for \<sigma> :: "'a kst_scheme" by (auto simp: linked_wf_def mdb_wf_def)
  show "linked_wf \<sigma> \<Longrightarrow> linked_wf (upd_ctr g \<sigma>)" for g and \<sigma> :: "'a kst_scheme"
    by (erule transfer_slots(2) [rotated]) simp
qed (rule victim_linked)

interpretation rvr: revoke_inv H "\<lambda>\<sigma>. mdb_wf \<sigma> \<and> only_removes \<sigma>0 \<sigma>" for H \<sigma>0
proof unfold_locales
  show "mdb_wf \<sigma> \<and> only_removes \<sigma>0 \<sigma> \<Longrightarrow> mdb_wf \<sigma>" for \<sigma> :: "'a kst_scheme" by simp
  show "mdb_wf \<sigma> \<and> only_removes \<sigma>0 \<sigma> \<Longrightarrow> mdb_wf (upd_ctr g \<sigma>) \<and> only_removes \<sigma>0 (upd_ctr g \<sigma>)"
    for g and \<sigma> :: "'a kst_scheme" by (rule transfer_slots(3)) simp_all
qed (rule victim_removes)

interpretation rvt: revoke_inv H "tethered r D" for H r D
proof unfold_locales
  show "tethered r D \<sigma> \<Longrightarrow> mdb_wf \<sigma>" for \<sigma> :: "'a kst_scheme" by (simp add: tethered_def)
  show "tethered r D \<sigma> \<Longrightarrow> tethered r D (upd_ctr g \<sigma>)" for g and \<sigma> :: "'a kst_scheme"
    by (erule tethered_slots [rotated]) simp
qed (rule victim_tethered)

lemma mdb_badge_derive_err: "mdb_badge_derive b req ty = Inl e \<Longrightarrow> e \<noteq> IRIS_OK"
  by (auto simp: mdb_badge_derive_def split: if_splits)

text \<open>The successful paths of the installing primitives, as elimination rules.\<close>

lemma install_cases:
  assumes "kcnode_slot_install_linked H cn i obj rights badge parent expect excl unp \<sigma> = Some (st, \<sigma>')"
  obtains (refused) "\<sigma>' = \<sigma>" "st = IRIS_ERR_INVALID_ARG"
    | (run) kc \<sigma>1 \<sigma>2 \<sigma>3 de old where "rights \<noteq> RIGHT_NONE" "objs \<sigma> cn = Some kc"
      "kobject_retain obj \<sigma> = Some \<sigma>1"
      "(if obj \<noteq> cn then kobject_active_retain obj \<sigma>1 else Some \<sigma>1) = Some \<sigma>2"
      "(if excl then Some (IRIS_OK, None, \<sigma>2) else kcnode_slot_delete_locked cn i \<sigma>2) = Some (de, old, \<sigma>3)"
      "install_commit H cn i obj rights badge parent expect unp (ko_slot_count kc) de old \<sigma>3 = Some (st, \<sigma>')"
proof (cases "rights = RIGHT_NONE")
  case True
  then show thesis using assms refused by (simp add: kcnode_slot_install_linked_def)
next
  case False
  then obtain inr kc where k: "parent_in_range parent \<sigma> = Some inr" "objs \<sigma> cn = Some kc"
    using assms unfolding kcnode_slot_install_linked_def by (auto simp: bind_eq_Some_conv split del: if_split)
  show thesis
  proof (cases "\<not> inr \<or> (\<not> excl \<and> i \<ge> ko_slot_count kc)")
    case True
    then show thesis using assms refused k False by (auto simp: kcnode_slot_install_linked_def split: if_split_asm)
  next
    case ok: False
    then have c: "inr = True" "(\<not> excl \<and> ko_slot_count kc \<le> i) = False" by auto
    obtain \<sigma>1 \<sigma>2 res where r: "kobject_retain obj \<sigma> = Some \<sigma>1"
      "(if obj \<noteq> cn then kobject_active_retain obj \<sigma>1 else Some \<sigma>1) = Some \<sigma>2"
      "(if excl then Some (IRIS_OK, None, \<sigma>2) else kcnode_slot_delete_locked cn i \<sigma>2) = Some res"
      "(case res of (de, old, \<sigma>3) \<Rightarrow> install_commit H cn i obj rights badge parent expect unp
          (ko_slot_count kc) de old \<sigma>3) = Some (st, \<sigma>')"
      using assms unfolding kcnode_slot_install_linked_def k bind.bind_lunit c if_False not_True_eq_False
      by (simp only: False bind_eq_Some_conv if_False) blast
    show thesis using run [OF False k(2) r(1,2)] r(3,4) by (cases res) auto
  qed
qed

lemma derive_cases:
  assumes "kcnode_slot_derive H sc si dc di rq bd \<sigma> = Some (st, \<sigma>')"
  obtains (refused) "\<sigma>' = \<sigma>" "st \<noteq> IRIS_OK"
    | (run) obj ko r b where "object_of \<sigma> (Slot sc si) = Some obj" "objs \<sigma> obj = Some ko"
      "authority_derive (ko_type ko) (s_rights (slots \<sigma> (Slot sc si)), s_badge (slots \<sigma> (Slot sc si))) (rq, bd) = Inr (r, b)"
      "kcnode_slot_install_linked H dc di obj r b (Some (sc, si)) (Some obj) True False \<sigma> = Some (st, \<sigma>')"
proof -
  obtain inr where inr: "slots_in_range sc si dc di \<sigma> = Some inr"
    using assms by (auto simp: kcnode_slot_derive_def bind_eq_Some_conv)
  show thesis
  proof (cases "inr \<and> \<not> (sc = dc \<and> si = di) \<and> object_of \<sigma> (Slot sc si) \<noteq> None \<and>
      rights_check (s_rights (slots \<sigma> (Slot sc si))) RIGHT_DUPLICATE \<and>
      rights_reduce (s_rights (slots \<sigma> (Slot sc si))) rq \<noteq> RIGHT_NONE")
    case False
    then show thesis using assms inr refused
      by (auto simp: kcnode_slot_derive_def Let_def split: if_split_asm option.splits)
  next
    case True
    then obtain obj where obj: "object_of \<sigma> (Slot sc si) = Some obj" by blast
    then obtain ko where ko: "objs \<sigma> obj = Some ko"
      using assms True inr by (auto simp: kcnode_slot_derive_def Let_def bind_eq_Some_conv split: if_split_asm)
    show thesis
      using assms True inr obj ko refused run
      by (cases "mdb_badge_derive (s_badge (slots \<sigma> (Slot sc si))) bd (ko_type ko)")
        (auto simp: kcnode_slot_derive_def Let_def authority_derive_def dest: mdb_badge_derive_err)
  qed
qed

lemma sibling_cases:
  assumes "kcnode_slot_install_sibling H sc si dc di \<sigma> = Some (st, \<sigma>')"
  obtains (refused) "\<sigma>' = \<sigma>" "st \<noteq> IRIS_OK"
    | (parent) obj p_cn p_idx c where "object_of \<sigma> (Slot sc si) = Some obj" "par \<sigma> (Slot sc si) = Some (Slot c p_idx)"
      "mdb_cnode (slots \<sigma> (Slot c p_idx)) = Some p_cn"
      "kcnode_slot_install_linked H dc di obj (s_rights (slots \<sigma> (Slot sc si))) (s_badge (slots \<sigma> (Slot sc si)))
         (Some (p_cn, p_idx)) (object_of \<sigma> (Slot c p_idx)) True False \<sigma> = Some (st, \<sigma>')"
    | (child) obj where "object_of \<sigma> (Slot sc si) = Some obj"
      "kcnode_slot_install_linked H dc di obj (s_rights (slots \<sigma> (Slot sc si))) (s_badge (slots \<sigma> (Slot sc si)))
         (Some (sc, si)) (Some obj) True False \<sigma> = Some (st, \<sigma>')"
proof -
  obtain inr where inr: "slots_in_range sc si dc di \<sigma> = Some inr"
    using assms by (auto simp: kcnode_slot_install_sibling_def bind_eq_Some_conv)
  show thesis
    using assms inr refused parent child
    by (auto simp: kcnode_slot_install_sibling_def Let_def split: if_split_asm option.split_asm slotref.split_asm)
qed

lemma retain_slots: "kobject_retain obj \<sigma> = Some \<sigma>' \<Longrightarrow> slots \<sigma>' = slots \<sigma>"
  by (auto simp: kobject_retain_def put_obj_def Let_def bind_eq_Some_conv split: if_split_asm)

lemma active_retain_slots: "kobject_active_retain obj \<sigma> = Some \<sigma>' \<Longrightarrow> slots \<sigma>' = slots \<sigma>"
  by (auto simp: kobject_active_retain_def put_obj_def Let_def bind_eq_Some_conv split: if_split_asm)

lemma authority_le_refl [simp]: "authority_le a a"
  by (simp add: authority_le_def rights_le_def)

type_synonym admission = "(slotref \<Rightarrow> kcslot) \<Rightarrow> (oid \<times> nat) option \<Rightarrow> oid \<Rightarrow> authority \<Rightarrow> bool"

definition auth_of :: "kcslot \<Rightarrow> authority" where
  "auth_of x = (s_rights x, s_badge x)"

text \<open>
  An invariant of every primitive.  \<open>W\<close> says which installs it admits; derivations, copies for a
  thread and copies beside the source must be among them.
\<close>

locale slot_inv = revoke_inv H I for H :: "'e hooks" and I :: "'e kst_scheme \<Rightarrow> bool" +
  fixes W :: admission
  assumes keep_write: "I \<sigma> \<Longrightarrow> W (slots \<sigma>) parent obj (rights, badge) \<Longrightarrow>
      object_of \<sigma> (Slot cn i) = None \<Longrightarrow> rights \<noteq> RIGHT_NONE \<Longrightarrow>
      (\<And>pc pi. parent = Some (pc, pi) \<Longrightarrow> object_of \<sigma> (Slot pc pi) \<noteq> None) \<Longrightarrow>
      install_write cn i obj rights badge parent unp \<sigma> = Some \<sigma>' \<Longrightarrow> I \<sigma>'"
    and keep_exchange: "I \<sigma> \<Longrightarrow> exchanged ca ia cb ib \<sigma> \<sigma>' \<Longrightarrow> I \<sigma>'"
    and keep_guard: "I \<sigma> \<Longrightarrow> object_of \<sigma> (Slot cn i) \<noteq> None \<Longrightarrow>
      I (upd_slot (Slot cn i) (\<lambda>x. x\<lparr>s_guard := gd, s_guard_bits := gb\<rparr>) \<sigma>)"
    and W_delete: "I \<sigma> \<Longrightarrow> W (slots \<sigma>) None obj a \<Longrightarrow>
      kcnode_slot_delete_locked cn i \<sigma> = Some (st, old, \<sigma>') \<Longrightarrow> W (slots \<sigma>') None obj a"
    and W_derive: "I \<sigma> \<Longrightarrow> object_of \<sigma> (Slot sc si) = Some obj \<Longrightarrow>
      authority_le a (auth_of (slots \<sigma> (Slot sc si))) \<Longrightarrow> W (slots \<sigma>) (Some (sc, si)) obj a"
    and W_sibling: "I \<sigma> \<Longrightarrow> object_of \<sigma> (Slot sc si) = Some obj \<Longrightarrow> par \<sigma> (Slot sc si) = Some (Slot pc pi) \<Longrightarrow>
      W (slots \<sigma>) (Some (pc, pi)) obj (auth_of (slots \<sigma> (Slot sc si)))"
begin

lemma drop_old_keeps: "kcnode_slot_drop_old H cn old \<sigma> = Some \<sigma>' \<Longrightarrow> I \<sigma> \<Longrightarrow> I \<sigma>'"
  by (auto simp: kcnode_slot_drop_old_def intro: krun_keeps)

lemma backout_keeps: "install_backout H cn old obj e \<sigma> = Some (st, \<sigma>') \<Longrightarrow> I \<sigma> \<Longrightarrow> I \<sigma>'"
  by (auto simp: install_backout_def kcnode_slot_drop_old_def kobject_active_release_def kobject_release_def
      split: bind_splits if_splits) (metis krun_keeps)+

lemma commit_keeps:
  assumes "install_commit H cn i obj rights badge parent expect unp n de old \<sigma> = Some (st, \<sigma>')" "I \<sigma>"
    "rights \<noteq> RIGHT_NONE" "W (slots \<sigma>) parent obj (rights, badge)"
  shows "I \<sigma>'"
proof (cases "\<exists>e old'. install_backout H cn old' obj e \<sigma> = Some (st, \<sigma>')")
  case True
  then show ?thesis using backout_keeps assms(2) by blast
next
  case False
  then obtain \<sigma>1 where w: "install_write cn i obj rights badge parent unp \<sigma> = Some \<sigma>1"
    "kcnode_slot_drop_old H cn old \<sigma>1 = Some \<sigma>'" "object_of \<sigma> (Slot cn i) = None"
    "\<not> parent_refused cn i parent expect \<sigma>"
    using assms(1) by (auto simp: install_commit_def split: if_splits bind_splits)
  have "I \<sigma>1" by (rule keep_write [OF assms(2,4) w(3) assms(3) _ w(1)]) (use w(4) in \<open>auto simp: parent_refused_def\<close>)
  then show ?thesis using drop_old_keeps w(2) by blast
qed

lemma install_keeps:
  assumes "kcnode_slot_install_linked H cn i obj rights badge parent expect excl unp \<sigma> = Some (st, \<sigma>')" "I \<sigma>"
    "W (slots \<sigma>) parent obj (rights, badge)" "excl \<or> parent = None"
  shows "I \<sigma>'"
  using assms(1)
proof (cases rule: install_cases)
  case (run kc \<sigma>1 \<sigma>2 \<sigma>3 de old)
  have "I \<sigma>1" using keep_retain [OF run(3) assms(2)] .
  then have I2: "I \<sigma>2" using run(4) keep_active_retain by (auto split: if_splits)
  have W2: "W (slots \<sigma>2) parent obj (rights, badge)"
    using assms(3) run(3,4) retain_slots active_retain_slots by (metis option.inject)
  have "I \<sigma>3" using I2 run(5) keep_delete by (auto split: if_splits)
  moreover have "W (slots \<sigma>3) parent obj (rights, badge)"
    using W2 run(5) assms(4) W_delete [OF I2] by (auto split: if_splits)
  ultimately show ?thesis using commit_keeps [OF run(6) _ run(1)] by blast
qed (use assms in simp)

lemma derive_keeps:
  assumes "kcnode_slot_derive H sc si dc di rq bd \<sigma> = Some (st, \<sigma>')" and I: "I \<sigma>"
  shows "I \<sigma>'"
  using assms(1)
proof (cases rule: derive_cases)
  case (run obj ko r b)
  have "authority_le (r, b) (auth_of (slots \<sigma> (Slot sc si)))"
    using authority_derive_le [OF run(3)] by (simp add: auth_of_def)
  from install_keeps [OF run(4) I W_derive [OF I run(1) this]] show ?thesis by simp
qed (use I in simp)

lemma for_thread_keeps:
  assumes "kcnode_slot_install_for_thread H sc si dc di \<sigma> = Some (st, \<sigma>')" and I: "I \<sigma>"
  shows "I \<sigma>'"
proof (cases "\<sigma>' = \<sigma>")
  case False
  then obtain obj where o: "object_of \<sigma> (Slot sc si) = Some obj"
    "kcnode_slot_install_linked H dc di obj (s_rights (slots \<sigma> (Slot sc si))) (s_badge (slots \<sigma> (Slot sc si)))
       (Some (sc, si)) (Some obj) True False \<sigma> = Some (st, \<sigma>')"
    using assms by (auto simp: kcnode_slot_install_for_thread_def Let_def bind_eq_Some_conv
        split: if_split_asm option.splits)
  from install_keeps [OF o(2) I W_derive [OF I o(1)]] show ?thesis by (simp add: authority_le_refl auth_of_def)
qed (use I in simp)

lemma sibling_keeps:
  assumes "kcnode_slot_install_sibling H sc si dc di \<sigma> = Some (st, \<sigma>')" and I: "I \<sigma>"
  shows "I \<sigma>'"
  using assms(1)
proof (cases rule: sibling_cases)
  case (parent obj p_cn p_idx c)
  have "slots_ok \<sigma>" using inv_wf [OF I] by (simp add: mdb_wf_def)
  then have "slot_ok (Slot c p_idx) (slots \<sigma> (Slot c p_idx))" by (rule slots_okD)
  then have "c = p_cn" using parent(3) by (auto simp: slot_ok_def split: if_splits)
  then have "par \<sigma> (Slot sc si) = Some (Slot p_cn p_idx)" using parent(2) by simp
  from install_keeps [OF parent(4) I] W_sibling [OF I parent(1) this] show ?thesis by (simp add: auth_of_def)
next
  case (child obj)
  from install_keeps [OF child(2) I W_derive [OF I child(1)]] show ?thesis by (simp add: authority_le_refl auth_of_def)
qed (use I in simp)

lemma move_keeps:
  assumes m: "kcnode_slot_move sc si dc di \<sigma> = Some (st, \<sigma>')" and I: "I \<sigma>"
  shows "I \<sigma>'"
proof -
  obtain inr where "slots_in_range sc si dc di \<sigma> = Some inr"
    using m by (auto simp: kcnode_slot_move_def bind_eq_Some_conv)
  from move_spec [OF inv_wf [OF I] this] m I show ?thesis
    using keep_exchange by (auto split: if_splits)
qed

lemma swap_keeps:
  assumes m: "kcnode_swap cn i j \<sigma> = Some (st, \<sigma>')" and I: "I \<sigma>"
  shows "I \<sigma>'"
proof (cases "i = j")
  case False
  then obtain k where "objs \<sigma> cn = Some k" using m by (auto simp: kcnode_swap_def bind_eq_Some_conv)
  from swap_spec [OF inv_wf [OF I] this, of i j] m I show ?thesis
    using keep_exchange by (auto split: if_splits)
qed (use assms in \<open>simp add: kcnode_swap_def\<close>)

lemma rotate_keeps:
  assumes m: "kcnode_slot_rotate dc di pc pi sc si \<sigma> = Some (st, \<sigma>')" and I: "I \<sigma>"
  shows "I \<sigma>'"
proof -
  obtain kd kp ks where "objs \<sigma> dc = Some kd" "objs \<sigma> pc = Some kp" "objs \<sigma> sc = Some ks"
    using m by (auto simp: kcnode_slot_rotate_def bind_eq_Some_conv)
  from rotate_spec [OF inv_wf [OF I] this refl, of di pi si] m
  have "\<sigma>' = \<sigma> \<or> rotated dc di pc pi sc si \<sigma> \<sigma>'" by (auto split: if_splits)
  then show ?thesis using I unfolding rotated_def by (metis keep_exchange)
qed

lemma set_guard_keeps:
  "kcnode_slot_set_guard cn i gd gb \<sigma> = Some (st, \<sigma>') \<Longrightarrow> I \<sigma> \<Longrightarrow> I \<sigma>'"
  by (auto simp: kcnode_slot_set_guard_def bind_eq_Some_conv intro!: keep_guard
      split: if_split_asm option.splits)

end

end
