(* ===== verification/Iris_Steps.thy ===== *)
theory Iris_Steps
  imports Iris_Slots
begin

text \<open>
  The capability system as a transition system: one step is one call of a slot primitive, of a
  lifecycle operation or of an allocator.  What every reachable state satisfies follows from
  \<open>slot_inv\<close>: the tree is well formed and its gauges are exact, the authority over an object
  never exceeds what the first state held, and, where installs of a new root are kept to
  objects no slot names yet, the final-capability predicate is exact.
\<close>

inductive kstep :: "admission \<Rightarrow> 'e hooks \<Rightarrow> 'e kst_scheme \<Rightarrow> 'e kst_scheme \<Rightarrow> bool" for W H where
  step_install: "W (slots \<sigma>) parent obj (rights, badge) \<Longrightarrow> excl \<or> parent = None \<Longrightarrow>
     kcnode_slot_install_linked H cn i obj rights badge parent expect excl unp \<sigma> = Some (st, \<sigma>') \<Longrightarrow> kstep W H \<sigma> \<sigma>'"
| step_derive: "kcnode_slot_derive H sc si dc di rq bd \<sigma> = Some (st, \<sigma>') \<Longrightarrow> kstep W H \<sigma> \<sigma>'"
| step_sibling: "kcnode_slot_install_sibling H sc si dc di \<sigma> = Some (st, \<sigma>') \<Longrightarrow> kstep W H \<sigma> \<sigma>'"
| step_for_thread: "kcnode_slot_install_for_thread H sc si dc di \<sigma> = Some (st, \<sigma>') \<Longrightarrow> kstep W H \<sigma> \<sigma>'"
| step_move: "kcnode_slot_move sc si dc di \<sigma> = Some (st, \<sigma>') \<Longrightarrow> kstep W H \<sigma> \<sigma>'"
| step_rotate: "kcnode_slot_rotate dc di pc pi sc si \<sigma> = Some (st, \<sigma>') \<Longrightarrow> kstep W H \<sigma> \<sigma>'"
| step_swap: "kcnode_swap cn i j \<sigma> = Some (st, \<sigma>') \<Longrightarrow> kstep W H \<sigma> \<sigma>'"
| step_delete: "kcnode_slot_delete H cn i \<sigma> = Some (st, \<sigma>') \<Longrightarrow> kstep W H \<sigma> \<sigma>'"
| step_revoke: "kcnode_slot_revoke_bounded H cn i b \<sigma> = Some (st, n, again, \<sigma>') \<Longrightarrow> kstep W H \<sigma> \<sigma>'"
| step_set_guard: "kcnode_slot_set_guard cn i gd gb \<sigma> = Some (st, \<sigma>') \<Longrightarrow> kstep W H \<sigma> \<sigma>'"
| step_fetch: "kcnode_fetch_guarded cn i \<sigma> = Some (res, \<sigma>') \<Longrightarrow> kstep W H \<sigma> \<sigma>'"
| step_fetch_badged: "kcnode_fetch_badged cn i \<sigma> = Some (res', \<sigma>') \<Longrightarrow> kstep W H \<sigma> \<sigma>'"
| step_retain: "kobject_retain q \<sigma> = Some \<sigma>' \<Longrightarrow> kstep W H \<sigma> \<sigma>'"
| step_active_retain: "kobject_active_retain q \<sigma> = Some \<sigma>' \<Longrightarrow> kstep W H \<sigma> \<sigma>'"
| step_call: "krun H c \<sigma> = Some \<sigma>' \<Longrightarrow> kstep W H \<sigma> \<sigma>'"
| step_alloc: "objs \<sigma> new = None \<Longrightarrow> kcnode_alloc avail new n \<sigma> = Some \<sigma>' \<Longrightarrow> kstep W H \<sigma> \<sigma>'"
| step_alloc_at: "objs \<sigma> new = None \<Longrightarrow> kcnode_alloc_at new pool bytes n \<sigma> = Some \<sigma>' \<Longrightarrow> kstep W H \<sigma> \<sigma>'"

text \<open>What the first state grants over an object, and the states that stay within it.\<close>

definition granted :: "'z mdb_state_scheme \<Rightarrow> oid \<Rightarrow> authority \<Rightarrow> bool" where
  "granted \<sigma> obj a \<longleftrightarrow> (\<exists>s. object_of \<sigma> s = Some obj \<and> authority_le a (auth_of (slots \<sigma> s)))"

definition confined :: "'y mdb_state_scheme \<Rightarrow> 'z mdb_state_scheme \<Rightarrow> bool" where
  "confined \<sigma>0 \<sigma> \<longleftrightarrow> (\<forall>s obj. object_of \<sigma> s = Some obj \<longrightarrow> granted \<sigma>0 obj (auth_of (slots \<sigma> s)))"

text \<open>Installs that keep the slots of an object together: under a parent or beside a sibling that
names the object already, or of an object no slot names.\<close>

definition links_up :: admission where
  "links_up sl parent obj a \<longleftrightarrow> (\<forall>x. s_object (sl x) \<noteq> Some obj) \<or>
     (case parent of None \<Rightarrow> False
      | Some (pc, pi) \<Rightarrow> s_object (sl (Slot pc pi)) = Some obj \<or>
          (\<exists>x. s_object (sl x) = Some obj \<and> mdb_parent (sl x) = Some (Slot pc pi)))"

subsection \<open>Steps keep invariants\<close>

context slot_inv
begin

lemma fetch_keeps: "kcnode_fetch_guarded cn i \<sigma> = Some (res, \<sigma>') \<Longrightarrow> I \<sigma> \<Longrightarrow> I \<sigma>'"
  by (auto simp: kcnode_fetch_guarded_def Let_def bind_eq_Some_conv dest: keep_retain keep_active_retain
      split: if_split_asm option.splits)

lemma fetch_badged_keeps: "kcnode_fetch_badged cn i \<sigma> = Some (res, \<sigma>') \<Longrightarrow> I \<sigma> \<Longrightarrow> I \<sigma>'"
  by (auto simp: kcnode_fetch_badged_def Let_def bind_eq_Some_conv dest: keep_retain keep_active_retain
      split: if_split_asm option.splits)

lemma alloc_keeps: "kcnode_alloc avail new n \<sigma> = Some \<sigma>' \<Longrightarrow> I \<sigma> \<Longrightarrow> I \<sigma>'"
  by (auto simp: kcnode_alloc_def kobject_init_def intro!: keep_live keep_put split: if_splits)

lemma alloc_at_keeps: "kcnode_alloc_at new pool bytes n \<sigma> = Some \<sigma>' \<Longrightarrow> I \<sigma> \<Longrightarrow> I \<sigma>'"
  by (auto simp: kcnode_alloc_at_def kobject_init_in_untyped_def intro!: keep_live keep_put split: if_splits)

lemmas step_keeps = derive_keeps sibling_keeps for_thread_keeps move_keeps rotate_keeps swap_keeps
  slot_delete_keeps revoke_keeps set_guard_keeps fetch_keeps fetch_badged_keeps keep_retain keep_active_retain krun_keeps alloc_keeps alloc_at_keeps

lemma kstep_keeps:
  assumes "kstep V H \<sigma> \<sigma>'" and "\<And>sl p q a. V sl p q a \<Longrightarrow> W sl p q a" and I: "I \<sigma>"
  shows "I \<sigma>'"
  using assms(1)
proof cases
  case (step_install parent obj rights badge excl cn i expect unp st)
  then show ?thesis using install_keeps [OF step_install(3) I] assms(2) by blast
qed (use I in \<open>blast intro: step_keeps\<close>)+

lemma reach_keeps:
  assumes "(kstep V H)\<^sup>*\<^sup>* \<sigma> \<sigma>'" "\<And>sl p q a. V sl p q a \<Longrightarrow> W sl p q a" "I \<sigma>"
  shows "I \<sigma>'"
  using assms(1) by (induction rule: rtranclp_induct) (use assms(2,3) kstep_keeps in blast)+

end

subsection \<open>The tree and its gauges\<close>

lemma write_keeps_gauges:
  assumes g: "mdb_wf \<sigma> \<and> gauges_ok \<sigma>" and s: "object_of \<sigma> (Slot cn i) = None" "rights \<noteq> RIGHT_NONE"
    and p: "\<And>pc pi. parent = Some (pc, pi) \<Longrightarrow> object_of \<sigma> (Slot pc pi) \<noteq> None"
    and w: "install_write cn i obj rights badge parent unp \<sigma> = Some \<sigma>'"
  shows "mdb_wf \<sigma>' \<and> gauges_ok \<sigma>'"
proof -
  obtain L where ok: "slots_ok \<sigma>" and rep: "mdb_rep \<sigma> L" using g by (auto simp: mdb_wf_def)
  show ?thesis
  proof (cases parent)
    case None
    obtain gr where gr: "L (Grp gr) = []" using rep_fresh_group [OF rep] by blast
    from install_write_root [OF rep ok s(1) gr, of obj rights badge unp] w None
    have inst: "installed cn i obj rights badge (if unp then MDB_FLAG_UNPARENTED else 0) (L(Grp gr := [Slot cn i])) \<sigma> \<sigma>'"
      and c: "cdt_derived_live (ctr \<sigma>') = cdt_derived_live (ctr \<sigma>)"
        "mdb_unparented_roots (ctr \<sigma>') = mdb_unparented_roots (ctr \<sigma>) + (if unp then 1 else 0)" by auto
    show ?thesis
      using installed_slots_ok [OF inst rep ok s(2)] gauges_install_root [OF inst rep ok s(1) c] g inst
      by (auto simp: mdb_wf_def installed_def)
  next
    case (Some q)
    obtain pc pi where q: "q = (pc, pi)" by (cases q)
    from install_write_child [OF rep ok s(1), of pc pi obj rights badge unp] w p [of pc pi] Some q
    have inst: "installed cn i obj rights badge 0 (L(Kids (Slot pc pi) := Slot cn i # L (Kids (Slot pc pi)))) \<sigma> \<sigma>'"
      and c: "cdt_derived_live (ctr \<sigma>') = cdt_derived_live (ctr \<sigma>) + 1"
        "mdb_unparented_roots (ctr \<sigma>') = mdb_unparented_roots (ctr \<sigma>)" by auto
    show ?thesis
      using installed_slots_ok [OF inst rep ok s(2)] gauges_install_child [OF inst rep ok s(1) c] g inst
      by (auto simp: mdb_wf_def installed_def)
  qed
qed

text \<open>A guard write touches neither the links nor what the predicates read of the content.\<close>

lemma guard_views:
  fixes \<sigma> :: "'z mdb_state_scheme" and gd gb
  assumes "object_of \<sigma> (Slot cn i) \<noteq> None"
  defines "\<sigma>' \<equiv> upd_slot (Slot cn i) (\<lambda>x. x\<lparr>s_guard := gd, s_guard_bits := gb\<rparr>) \<sigma>"
  shows "mdb_rep \<sigma>' L = mdb_rep \<sigma> L" "slots_ok \<sigma> \<Longrightarrow> slots_ok \<sigma>'" "object_of \<sigma>' = object_of \<sigma>"
    "auth_of (slots \<sigma>' x) = auth_of (slots \<sigma> x)" "gauges_ok \<sigma>' = gauges_ok \<sigma>"
proof -
  show "mdb_rep \<sigma>' L = mdb_rep \<sigma> L" by (rule mdb_rep_cong) (simp_all add: \<sigma>'_def node_def)
  show "object_of \<sigma>' = object_of \<sigma>" "auth_of (slots \<sigma>' x) = auth_of (slots \<sigma> x)"
    by (auto simp: \<sigma>'_def auth_of_def)
  have "node \<sigma>' = node \<sigma>" "derived_set \<sigma>' = derived_set \<sigma>" "unparented_set \<sigma>' = unparented_set \<sigma>"
    by (auto simp: \<sigma>'_def node_def derived_set_def unparented_set_def fun_eq_iff)
  then show "gauges_ok \<sigma>' = gauges_ok \<sigma>" by (simp add: gauges_ok_def) (simp add: \<sigma>'_def)
  assume ok: "slots_ok \<sigma>"
  have "slot_ok s (slots \<sigma>' s)" for s
    using slots_okD [OF ok, of s] assms(1) by (auto simp: \<sigma>'_def slot_ok_def)
  then show "slots_ok \<sigma>'" by (simp add: slots_ok_def)
qed

interpretation sg: slot_inv H "\<lambda>\<sigma>. mdb_wf \<sigma> \<and> gauges_ok \<sigma>" "\<lambda>_ _ _ _. True" for H
proof unfold_locales
  show "mdb_wf (upd_ctr g \<sigma>) \<and> gauges_ok (upd_ctr g \<sigma>)"
    if "mdb_wf \<sigma> \<and> gauges_ok \<sigma>" "same_gauges (g (ctr \<sigma>)) (ctr \<sigma>)" for g and \<sigma> :: "'a kst_scheme"
    using that wf_slots [of "upd_ctr g \<sigma>" \<sigma>] by (simp add: same_gauges_def gauges_ctr)
  show "mdb_wf \<sigma>' \<and> gauges_ok \<sigma>'" if "mdb_wf \<sigma> \<and> gauges_ok \<sigma>" "victim_removed v \<sigma> \<sigma>'"
    for v and \<sigma> \<sigma>' :: "'a kst_scheme" using that victim_wf victim_gauges by blast
  show "mdb_wf \<sigma>' \<and> gauges_ok \<sigma>'" if "mdb_wf \<sigma> \<and> gauges_ok \<sigma>" "exchanged ca ia cb ib \<sigma> \<sigma>'"
    for ca ia cb ib and \<sigma> \<sigma>' :: "'a kst_scheme" using that exchanged_wf exchanged_gauges by blast
  show "mdb_wf (upd_slot (Slot cn i) (\<lambda>x. x\<lparr>s_guard := gd, s_guard_bits := gb\<rparr>) \<sigma>) \<and>
      gauges_ok (upd_slot (Slot cn i) (\<lambda>x. x\<lparr>s_guard := gd, s_guard_bits := gb\<rparr>) \<sigma>)"
    if "mdb_wf \<sigma> \<and> gauges_ok \<sigma>" "object_of \<sigma> (Slot cn i) \<noteq> None" for cn i gd gb and \<sigma> :: "'a kst_scheme"
    using that guard_views [OF that(2), where gd = gd and gb = gb] by (auto simp: mdb_wf_def)
  show "mdb_wf \<sigma> \<and> gauges_ok \<sigma> \<Longrightarrow> mdb_wf \<sigma>" for \<sigma> :: "'a kst_scheme" by simp
qed (erule write_keeps_gauges; assumption | rule TrueI)+

subsection \<open>Slots of one object stay together\<close>

lemma write_keeps_linked:
  assumes g: "linked_wf \<sigma>" and a: "links_up (slots \<sigma>) parent obj at"
    and s: "object_of \<sigma> (Slot cn i) = None" "rights \<noteq> RIGHT_NONE"
    and p: "\<And>pc pi. parent = Some (pc, pi) \<Longrightarrow> object_of \<sigma> (Slot pc pi) \<noteq> None"
    and w: "install_write cn i obj rights badge parent unp \<sigma> = Some \<sigma>'"
  shows "linked_wf \<sigma>'"
proof -
  obtain L where ok: "slots_ok \<sigma>" and rep: "mdb_rep \<sigma> L" and con: "connected L (object_of \<sigma>)"
    using g by (auto simp: linked_wf_def)
  show ?thesis
  proof (cases parent)
    case None
    obtain gr where gr: "L (Grp gr) = []" using rep_fresh_group [OF rep] by blast
    from install_write_root [OF rep ok s(1) gr, of obj rights badge unp] w None
    have inst: "installed cn i obj rights badge (if unp then MDB_FLAG_UNPARENTED else 0) (L(Grp gr := [Slot cn i])) \<sigma> \<sigma>'"
      by auto
    have "\<forall>x. object_of \<sigma> x \<noteq> Some obj" using a None by (simp add: links_up_def)
    from connected_root [OF con s(1) this gr] show ?thesis
      using installed_slots_ok [OF inst rep ok s(2)] installed_object [OF inst] inst
      by (auto simp: linked_wf_def installed_def)
  next
    case (Some q)
    obtain pc pi where q: "q = (pc, pi)" by (cases q)
    from install_write_child [OF rep ok s(1), of pc pi obj rights badge unp] w p [of pc pi] Some q
    have inst: "installed cn i obj rights badge 0 (L(Kids (Slot pc pi) := Slot cn i # L (Kids (Slot pc pi)))) \<sigma> \<sigma>'"
      by auto
    have "(\<forall>x. object_of \<sigma> x \<noteq> Some obj) \<or>
        (\<exists>t. object_of \<sigma> t = Some obj \<and> (t = Slot pc pi \<or> t \<in> set (L (Kids (Slot pc pi)))))"
      using a Some q unfolding links_up_def rep_kids [OF rep] by (simp only: option.case prod.case) blast
    from connected_child [OF con s(1) this] show ?thesis
      using installed_slots_ok [OF inst rep ok s(2)] installed_object [OF inst] inst
      by (auto simp: linked_wf_def installed_def)
  qed
qed

lemma delete_keeps_unnamed:
  assumes wf: "mdb_wf \<sigma>" and u: "\<forall>x. object_of \<sigma> x \<noteq> Some obj"
    and d: "kcnode_slot_delete_locked cn i \<sigma> = Some (st, old, \<sigma>')"
  shows "\<forall>x. object_of \<sigma>' x \<noteq> Some obj"
proof
  fix x
  have "mdb_wf \<sigma> \<and> only_removes \<sigma> \<sigma>" using wf by (simp add: only_removes_def)
  from delete_keeps_removes [OF this d]
  have "slots \<sigma>' x = empty_slot \<or> cap_of (slots \<sigma>' x) = cap_of (slots \<sigma> x)" by (simp add: only_removes_def)
  then show "object_of \<sigma>' x \<noteq> Some obj" using u by (auto simp: cap_of_def)
qed

lemma linked_imp_wf: "linked_wf \<sigma> \<Longrightarrow> mdb_wf \<sigma>"
  by (auto simp: linked_wf_def mdb_wf_def)

lemma guard_keeps_linked:
  assumes "linked_wf \<sigma>" "object_of \<sigma> (Slot cn i) \<noteq> None"
  shows "linked_wf (upd_slot (Slot cn i) (\<lambda>x. x\<lparr>s_guard := gd, s_guard_bits := gb\<rparr>) \<sigma>)"
proof -
  note v = guard_views(1,2,3) [OF assms(2), where gd = gd and gb = gb]
  show ?thesis using assms(1) v(2) unfolding linked_wf_def v(1) v(3) by blast
qed

lemma delete_keeps_links_up:
  "linked_wf \<sigma> \<Longrightarrow> links_up (slots \<sigma>) None obj a \<Longrightarrow>
   kcnode_slot_delete_locked cn i \<sigma> = Some (st, old, \<sigma>') \<Longrightarrow> links_up (slots \<sigma>') None obj a"
  using delete_keeps_unnamed [OF linked_imp_wf] by (simp add: links_up_def)

interpretation sl: slot_inv H linked_wf links_up for H
  apply unfold_locales
       apply (erule write_keeps_linked; assumption)
      apply (erule (1) exchanged_linked [rotated])
     apply (erule (1) guard_keeps_linked)
    apply (erule (2) delete_keeps_links_up)
   apply (simp add: links_up_def)
  apply (simp add: links_up_def, blast)
  done

subsection \<open>Authority stays confined\<close>

lemma confined_same:
  assumes "confined \<sigma>0 \<sigma>"
    and "\<And>x. object_of \<sigma>' x = None \<or>
      (\<exists>y. object_of \<sigma>' x = object_of \<sigma> y \<and> auth_of (slots \<sigma>' x) = auth_of (slots \<sigma> y))"
  shows "confined \<sigma>0 \<sigma>'"
  unfolding confined_def
proof (intro allI impI)
  fix x obj assume o: "object_of \<sigma>' x = Some obj"
  with assms(2) [of x] obtain y where "object_of \<sigma> y = Some obj" "auth_of (slots \<sigma>' x) = auth_of (slots \<sigma> y)"
    by auto
  then show "granted \<sigma>0 obj (auth_of (slots \<sigma>' x))" using assms(1) by (simp add: confined_def)
qed

lemma confined_removes:
  assumes "confined \<sigma>0 \<sigma>" "only_removes \<sigma> \<sigma>'"
  shows "confined \<sigma>0 \<sigma>'"
proof (rule confined_same [OF assms(1)])
  fix x
  from assms(2) consider "slots \<sigma>' x = empty_slot" | "cap_of (slots \<sigma>' x) = cap_of (slots \<sigma> x)"
    unfolding only_removes_def by blast
  then show "object_of \<sigma>' x = None \<or>
      (\<exists>y. object_of \<sigma>' x = object_of \<sigma> y \<and> auth_of (slots \<sigma>' x) = auth_of (slots \<sigma> y))"
  proof cases
    case 2
    then have "object_of \<sigma>' x = object_of \<sigma> x \<and> auth_of (slots \<sigma>' x) = auth_of (slots \<sigma> x)"
      by (simp add: cap_of_def auth_of_def)
    then show ?thesis by blast
  qed simp
qed

lemma confined_exchanged:
  assumes "confined \<sigma>0 \<sigma>" "exchanged ca ia cb ib \<sigma> \<sigma>'"
  shows "confined \<sigma>0 \<sigma>'"
proof (rule confined_same [OF assms(1)])
  have m: "object_of \<sigma>' x = None \<or>
      (\<exists>y. object_of \<sigma>' x = object_of \<sigma> y \<and> auth_of (slots \<sigma>' x) = auth_of (slots \<sigma> y))"
    if "content (slots \<sigma>' x) = (if object_of \<sigma> y = None then content empty_slot else moved_content c (slots \<sigma> y))"
    for x y c
  proof (cases "object_of \<sigma> y = None")
    case True
    then show ?thesis using that by (simp add: content_def)
  next
    case False
    then have "content (slots \<sigma>' x) = moved_content c (slots \<sigma> y)" using that by (simp del: not_None_eq)
    then show ?thesis by (auto simp: content_def moved_content_def auth_of_def)
  qed
  show "object_of \<sigma>' x = None \<or>
      (\<exists>y. object_of \<sigma>' x = object_of \<sigma> y \<and> auth_of (slots \<sigma>' x) = auth_of (slots \<sigma> y))" for x
  proof (cases "x = Slot ca ia \<or> x = Slot cb ib")
    case True
    have e: "content (slots \<sigma>' (Slot ca ia)) = (if object_of \<sigma> (Slot cb ib) = None then content empty_slot
        else moved_content ca (slots \<sigma> (Slot cb ib)))"
      "content (slots \<sigma>' (Slot cb ib)) = (if object_of \<sigma> (Slot ca ia) = None then content empty_slot
        else moved_content cb (slots \<sigma> (Slot ca ia)))"
      using assms(2) unfolding exchanged_def by blast+
    show ?thesis using True m [OF e(1)] m [OF e(2)] by (elim disjE) simp_all
  next
    case False
    then have "content (slots \<sigma>' x) = content (slots \<sigma> x)" using assms(2) by (simp add: exchanged_def)
    then show ?thesis by (auto simp: content_def auth_of_def)
  qed
qed

lemma confined_write:
  assumes c: "confined \<sigma>0 \<sigma>" and g: "granted \<sigma>0 obj (rights, badge)" and wf: "mdb_wf \<sigma>"
    and s: "object_of \<sigma> (Slot cn i) = None"
    and p: "\<And>pc pi. parent = Some (pc, pi) \<Longrightarrow> object_of \<sigma> (Slot pc pi) \<noteq> None"
    and w: "install_write cn i obj rights badge parent unp \<sigma> = Some \<sigma>'"
  shows "confined \<sigma>0 \<sigma>'"
proof -
  obtain L where ok: "slots_ok \<sigma>" and rep: "mdb_rep \<sigma> L" using wf by (auto simp: mdb_wf_def)
  obtain gr where gr: "L (Grp gr) = []" using rep_fresh_group [OF rep] by blast
  obtain fl L' where inst: "installed cn i obj rights badge fl L' \<sigma> \<sigma>'"
  proof (cases parent)
    case None
    then show ?thesis using that install_write_root [OF rep ok s gr, of obj rights badge unp] w by auto
  next
    case (Some q)
    then show ?thesis
      using that install_write_child [OF rep ok s p, of "fst q" "snd q" obj rights badge unp] w by auto
  qed
  have "granted \<sigma>0 q (auth_of (slots \<sigma>' x))" if "object_of \<sigma>' x = Some q" for x q
  proof (cases "x = Slot cn i")
    case True
    then show ?thesis using inst that g by (simp add: installed_def content_def auth_of_def)
  next
    case False
    then have "content (slots \<sigma>' x) = content (slots \<sigma> x)" using inst by (simp add: installed_def)
    then show ?thesis using c that by (simp add: content_def auth_of_def confined_def)
  qed
  then show ?thesis by (simp add: confined_def)
qed

lemma granted_le: "granted \<sigma>0 obj b \<Longrightarrow> authority_le a b \<Longrightarrow> granted \<sigma>0 obj a"
  unfolding granted_def using authority_le_trans by blast

definition conf_wf :: "'y mdb_state_scheme \<Rightarrow> 'z mdb_state_scheme \<Rightarrow> bool" where
  "conf_wf \<sigma>0 \<sigma> \<longleftrightarrow> mdb_wf \<sigma> \<and> gauges_ok \<sigma> \<and> confined \<sigma>0 \<sigma>"

lemma conf_slots:
  assumes "slots \<sigma>' = slots \<sigma>" "same_gauges (ctr \<sigma>') (ctr \<sigma>)"
  shows "conf_wf \<sigma>0 \<sigma> \<Longrightarrow> conf_wf \<sigma>0 \<sigma>'"
  unfolding conf_wf_def confined_def gauges_ok_def derived_set_def unparented_set_def
    wf_slots [OF assms(1)] node_slots [OF assms(1)] assms(1)
  using assms(2) by (simp only: same_gauges_def) blast

lemma conf_delete:
  assumes "conf_wf \<sigma>0 \<sigma>" "kcnode_slot_delete_locked cn i \<sigma> = Some (r, old, \<sigma>')"
  shows "conf_wf \<sigma>0 \<sigma>'"
proof -
  have "mdb_wf \<sigma> \<and> only_removes \<sigma> \<sigma>" using assms(1) by (simp add: conf_wf_def only_removes_def)
  from delete_keeps_removes [OF this assms(2)] show ?thesis
    using delete_keeps_gauges [OF _ assms(2)] assms(1) confined_removes unfolding conf_wf_def by blast
qed

lemma conf_victim:
  assumes "conf_wf \<sigma>0 \<sigma>" "victim_removed v \<sigma> \<sigma>'"
  shows "conf_wf \<sigma>0 \<sigma>'"
proof -
  have "mdb_wf \<sigma> \<and> only_removes \<sigma> \<sigma>" using assms(1) by (simp add: conf_wf_def only_removes_def)
  from victim_removes [OF assms(2) this] show ?thesis
    using victim_gauges [OF assms(2)] assms(1) confined_removes unfolding conf_wf_def by blast
qed

lemma conf_write:
  assumes "conf_wf \<sigma>0 \<sigma>" "granted \<sigma>0 obj (rights, badge)" "object_of \<sigma> (Slot cn i) = None" "rights \<noteq> RIGHT_NONE"
    "\<And>pc pi. parent = Some (pc, pi) \<Longrightarrow> object_of \<sigma> (Slot pc pi) \<noteq> None"
    "install_write cn i obj rights badge parent unp \<sigma> = Some \<sigma>'"
  shows "conf_wf \<sigma>0 \<sigma>'"
proof -
  have "mdb_wf \<sigma> \<and> gauges_ok \<sigma>" "confined \<sigma>0 \<sigma>" "mdb_wf \<sigma>" using assms(1) by (simp_all add: conf_wf_def)
  from write_keeps_gauges [OF this(1) assms(3-6)] confined_write [OF this(2) assms(2) this(3) assms(3,5,6)]
  show ?thesis by (simp add: conf_wf_def)
qed

lemma conf_guard:
  assumes "conf_wf \<sigma>0 \<sigma>" "object_of \<sigma> (Slot cn i) \<noteq> None"
  shows "conf_wf \<sigma>0 (upd_slot (Slot cn i) (\<lambda>x. x\<lparr>s_guard := gd, s_guard_bits := gb\<rparr>) \<sigma>)"
    (is "conf_wf \<sigma>0 ?\<sigma>")
proof -
  note v = guard_views [OF assms(2), where gd = gd and gb = gb]
  have "mdb_wf ?\<sigma>" "gauges_ok ?\<sigma>" using assms(1) v(1,2,5) by (auto simp: conf_wf_def mdb_wf_def)
  moreover have "confined \<sigma>0 ?\<sigma>" using assms(1) unfolding conf_wf_def confined_def v(4) fun_cong [OF v(3)] by blast
  ultimately show ?thesis by (simp add: conf_wf_def)
qed

interpretation ca: cascade_inv H "conf_wf \<sigma>0" for H \<sigma>0
  by unfold_locales
    (rule conf_slots, simp, simp add: same_gauges_def, assumption | erule (1) conf_delete)+

interpretation sc: slot_inv H "conf_wf \<sigma>0" "\<lambda>_ _ obj a. granted \<sigma>0 obj a" for H \<sigma>0
  apply unfold_locales
          apply (simp add: conf_wf_def)
         apply (erule conf_slots [rotated 2]; simp)
        apply (erule (1) conf_victim)
       apply (erule conf_write; assumption)
      apply (simp add: conf_wf_def, meson exchanged_wf exchanged_gauges confined_exchanged)
     apply (erule (1) conf_guard)
    apply assumption
   apply (erule granted_le [rotated], simp add: conf_wf_def confined_def)
  apply (simp add: conf_wf_def confined_def)
  done

lemma moved_slotsD:
  assumes "moved_slots f \<sigma> \<sigma>'"
  shows "f s \<noteq> s \<Longrightarrow> cap_of (slots \<sigma>' s) = (object_of \<sigma> (f s), s_rights (slots \<sigma> (f s)), s_badge (slots \<sigma> (f s)), 0, 0)"
    "par \<sigma>' (f s) = map_option f (par \<sigma> s)"
  using assms by (simp_all add: moved_slots_def cap_of_def)

subsection \<open>The outcome of an exclusive install\<close>

lemma drop_none [simp]: "kcnode_slot_drop_old H cn None \<sigma> = Some \<sigma>"
  by (simp add: kcnode_slot_drop_old_def krun_unfold drop_old_with_def)

lemma backout_status: "install_backout H cn old obj e \<sigma> = Some (st, \<sigma>') \<Longrightarrow> st = e"
  by (auto simp: install_backout_def bind_eq_Some_conv)

lemma retains_frame:
  assumes "kobject_retain obj \<sigma> = Some \<sigma>1"
    "(if obj \<noteq> cn then kobject_active_retain obj \<sigma>1 else Some \<sigma>1) = Some \<sigma>2"
  shows "slots \<sigma>2 = slots \<sigma>" "ctr \<sigma>2 = ctr \<sigma>"
  using assms by (auto simp: kobject_retain_def kobject_active_retain_def put_obj_def Let_def bind_eq_Some_conv
      split: if_split_asm)

lemma commit_ok:
  assumes "install_commit H cn i obj rights badge parent expect unp n IRIS_OK None \<sigma> = Some (IRIS_OK, \<sigma>')"
  shows "i < n" "\<not> parent_refused cn i parent expect \<sigma>" "object_of \<sigma> (Slot cn i) = None"
    "install_write cn i obj rights badge parent unp \<sigma> = Some \<sigma>'"
  using assms by (auto simp: install_commit_def bind_eq_Some_conv dest: backout_status split: if_split_asm)

lemma install_excl_ok:
  assumes "kcnode_slot_install_linked H cn i obj rights badge parent expect True unp \<sigma> = Some (IRIS_OK, \<sigma>')"
  obtains \<sigma>2 where "slots \<sigma>2 = slots \<sigma>" "ctr \<sigma>2 = ctr \<sigma>" "\<not> parent_refused cn i parent expect \<sigma>"
    "object_of \<sigma> (Slot cn i) = None" "rights \<noteq> RIGHT_NONE"
    "install_write cn i obj rights badge parent unp \<sigma>2 = Some \<sigma>'"
  using assms
proof (cases rule: install_cases)
  case (run kc \<sigma>1 \<sigma>2 \<sigma>3 de old)
  note f = retains_frame [OF run(3,4)]
  have e: "de = IRIS_OK" "old = None" "\<sigma>3 = \<sigma>2" using run(5) by simp_all
  note c = commit_ok [OF run(6) [unfolded e]]
  have "parent_refused cn i parent expect \<sigma>2 = parent_refused cn i parent expect \<sigma>"
    using f(1) by (simp add: parent_refused_def split: option.split)
  then show thesis using that [OF f] c f(1) run(1) by simp
qed simp

lemma excl_child_ok:
  assumes wf: "mdb_wf \<sigma>"
    and r: "kcnode_slot_install_linked H cn i obj rights badge (Some (pc, pi)) expect True unp \<sigma> = Some (IRIS_OK, \<sigma>')"
  shows "object_of \<sigma> (Slot cn i) = None" "object_of \<sigma>' (Slot cn i) = Some obj"
    "auth_of (slots \<sigma>' (Slot cn i)) = (rights, badge)" "par \<sigma>' (Slot cn i) = Some (Slot pc pi)"
    "x \<noteq> Slot cn i \<Longrightarrow> content (slots \<sigma>' x) = content (slots \<sigma> x)"
proof -
  from r obtain \<sigma>2 where f: "slots \<sigma>2 = slots \<sigma>" "\<not> parent_refused cn i (Some (pc, pi)) expect \<sigma>"
    "object_of \<sigma> (Slot cn i) = None" "install_write cn i obj rights badge (Some (pc, pi)) unp \<sigma>2 = Some \<sigma>'"
    by (rule install_excl_ok)
  show "object_of \<sigma> (Slot cn i) = None" by (rule f(3))
  have "mdb_wf \<sigma>2" using wf wf_slots [OF f(1)] by simp
  then obtain L where ok: "slots_ok \<sigma>2" and rep: "mdb_rep \<sigma>2 L" by (auto simp: mdb_wf_def)
  have "object_of \<sigma>2 (Slot cn i) = None" "object_of \<sigma>2 (Slot pc pi) \<noteq> None"
    using f(1-3) by (auto simp: parent_refused_def)
  from install_write_child [OF rep ok this, of obj rights badge unp] f(4) obtain
    inst: "installed cn i obj rights badge 0 (L(Kids (Slot pc pi) := Slot cn i # L (Kids (Slot pc pi)))) \<sigma>2 \<sigma>'"
    by auto
  then show "object_of \<sigma>' (Slot cn i) = Some obj" "auth_of (slots \<sigma>' (Slot cn i)) = (rights, badge)"
    "x \<noteq> Slot cn i \<Longrightarrow> content (slots \<sigma>' x) = content (slots \<sigma> x)"
    using f(1) by (simp_all add: installed_def content_def auth_of_def)
  have "mdb_rep \<sigma>' (L(Kids (Slot pc pi) := Slot cn i # L (Kids (Slot pc pi))))" using inst by (simp add: installed_def)
  from rep_kids [OF this, of "Slot cn i" "Slot pc pi"] show "par \<sigma>' (Slot cn i) = Some (Slot pc pi)" by simp
qed

text \<open>The retains of a refused install are given back exactly, as long as the counts are live and
do not wrap.\<close>

definition counts_live :: "oid \<Rightarrow> oid \<Rightarrow> 'e kst_scheme \<Rightarrow> bool" where
  "counts_live cn obj \<sigma> = (case objs \<sigma> obj of None \<Rightarrow> False
     | Some k \<Rightarrow> ko_refcount k \<noteq> 0 \<and> ko_refcount k + 1 \<noteq> 0 \<and>
         (obj = cn \<or> ko_active k \<noteq> 0 \<and> ko_active k + 1 \<noteq> 0))"

lemma backout_restores:
  assumes live: "counts_live cn obj \<sigma>" and r: "kobject_retain obj \<sigma> = Some \<sigma>1"
    "(if obj \<noteq> cn then kobject_active_retain obj \<sigma>1 else Some \<sigma>1) = Some \<sigma>2"
  shows "install_backout H cn None obj e \<sigma>2 = Some (e, \<sigma>)"
proof -
  obtain k where k: "objs \<sigma> obj = Some k" "ko_refcount k \<noteq> 0" "ko_refcount k + 1 \<noteq> 0"
    "obj = cn \<or> ko_active k \<noteq> 0 \<and> ko_active k + 1 \<noteq> 0"
    using live by (auto simp: counts_live_def split: option.splits)
  have id: "(objs \<sigma>)(q \<mapsto> k) = objs \<sigma>" if "objs \<sigma> q = Some k" for q using that by (simp add: fun_upd_idem)
  have lt: "x < 1 \<longleftrightarrow> x = 0" for x :: u32 by (simp add: word_less_1)
  have one: "x + 1 = 1 \<longleftrightarrow> x = 0" for x :: u32 by simp
  note defs = install_backout_def kobject_active_release_def kobject_release_def krun_unfold
    active_release_with_def release_with_def kobject_retain_def kobject_active_retain_def put_obj_def Let_def
  show ?thesis
  proof (cases "obj = cn")
    case True
    then have "\<sigma>2 = put_obj obj (k\<lparr>ko_refcount := ko_refcount k + 1\<rparr>) \<sigma>"
      using r k by (auto simp: kobject_retain_def Let_def)
    then show ?thesis using k True by (simp add: defs lt one id)
  next
    case False
    then have "\<sigma>2 = put_obj obj (k\<lparr>ko_refcount := ko_refcount k + 1, ko_active := ko_active k + 1\<rparr>) \<sigma>"
      using r k by (auto simp: kobject_retain_def kobject_active_retain_def put_obj_def Let_def split: if_split_asm)
    then show ?thesis using k False by (simp add: defs lt one id)
  qed
qed

lemma excl_refused:
  assumes r: "kcnode_slot_install_linked H cn i obj rights badge parent expect True unp \<sigma> = Some (st, \<sigma>')"
    and st: "st \<noteq> IRIS_OK" and live: "counts_live cn obj \<sigma>"
  shows "\<sigma>' = \<sigma>"
  using r
proof (cases rule: install_cases)
  case (run kc \<sigma>1 \<sigma>2 \<sigma>3 de old)
  have e: "de = IRIS_OK" "old = None" "\<sigma>3 = \<sigma>2" using run(5) by simp_all
  note b = backout_restores [OF live run(3,4)]
  show ?thesis using run(6) st unfolding e install_commit_def by (auto simp: b bind_eq_Some_conv split: if_split_asm)
qed simp

subsection \<open>Authority along a run\<close>

lemma confined_reach:
  assumes "(kstep (\<lambda>_ _ _ _. False) H)\<^sup>*\<^sup>* \<sigma> \<sigma>'" "mdb_wf \<sigma>" "gauges_ok \<sigma>" "object_of \<sigma>' s = Some obj"
  shows "\<exists>t. object_of \<sigma> t = Some obj \<and> rights_le (s_rights (slots \<sigma>' s)) (s_rights (slots \<sigma> t)) \<and>
    (s_badge (slots \<sigma> t) = 0 \<or> s_badge (slots \<sigma>' s) = s_badge (slots \<sigma> t))"
proof -
  have "granted \<sigma> obj' (auth_of (slots \<sigma> t))" if "object_of \<sigma> t = Some obj'" for t obj'
    using that by (auto simp: granted_def)
  then have "conf_wf \<sigma> \<sigma>" using assms(2,3) by (simp add: conf_wf_def confined_def)
  then have "conf_wf \<sigma> \<sigma>'" using sc.reach_keeps [OF assms(1)] by blast
  then show ?thesis using assms(4) by (auto simp: conf_wf_def confined_def granted_def authority_le_def auth_of_def)
qed

end
