(* ===== verification/Iris_CSpace.thy ===== *)
theory Iris_CSpace
  imports Iris_CNode
begin

text \<open>
  Capability addresses: \<^verbatim>\<open>kernel/new_core/src/cspace.c\<close>.  A walk starts at a root CNode with a
  lifecycle and an active reference, consumes the address level by level (index, then the guard
  of the capability it came through), and hands the references of each level to the next.  The
  guard of the root belongs to the running thread; it is the argument \<open>self\<close>, which is None
  when no thread runs.  \<open>cs_path\<close> is the walk without the references; the refinement lemmas say
  that the references of a walk cancel out but for those of its result.
\<close>

type_synonym cptr = u64

definition IRIS_CPTR_NULL :: cptr where "IRIS_CPTR_NULL = 0"
definition IRIS_CPTR_LIMIT :: cptr where "IRIS_CPTR_LIMIT = push_bit 31 1"
definition CSPACE_MAX_DEPTH :: nat where "CSPACE_MAX_DEPTH = 8"

definition cspace_value_is_cptr :: "cptr \<Rightarrow> bool" where
  "cspace_value_is_cptr v \<longleftrightarrow> v \<noteq> IRIS_CPTR_NULL \<and> v < IRIS_CPTR_LIMIT"

text \<open>The running thread as the walk sees it: its root CSpace and the guard that rides on it.\<close>

type_synonym thread_root = "(oid \<times> u64 \<times> u8) option"

definition root_guard :: "thread_root \<Rightarrow> oid \<Rightarrow> u64 \<times> u8" where
  "root_guard self root =
     (case self of Some (r, g, b) \<Rightarrow> if r = root \<and> b \<noteq> 0 then (g, b) else (0, 0) | None \<Rightarrow> (0, 0))"

text \<open>The index part of one level and what it leaves.\<close>

definition level_index :: "nat \<Rightarrow> cptr \<Rightarrow> nat" where
  "level_index slot_count c = unat (c AND (of_nat slot_count - 1))"

definition level_rest :: "nat \<Rightarrow> cptr \<Rightarrow> cptr" where
  "level_rest slot_count c = drop_bit (ctz slot_count) c"

definition guard_mask :: "u8 \<Rightarrow> u64" where
  "guard_mask b = (if b \<ge> 64 then NOT 0 else push_bit (unat b) 1 - 1)"

definition guard_fails :: "u64 \<Rightarrow> u8 \<Rightarrow> cptr \<Rightarrow> bool" where
  "guard_fails g b c \<longleftrightarrow> b \<noteq> 0 \<and> c AND guard_mask b \<noteq> g"

definition guard_rest :: "u8 \<Rightarrow> cptr \<Rightarrow> cptr" where
  "guard_rest b c = (if b \<noteq> 0 then drop_bit (unat b) c else c)"

text \<open>Both references of a level go together.\<close>

definition take_refs :: "oid \<Rightarrow> 'e kst_scheme \<Rightarrow> 'e kst_scheme option" where
  "take_refs q \<sigma> = do { \<sigma>1 \<leftarrow> kobject_retain q \<sigma>; kobject_active_retain q \<sigma>1 }"

definition drop_refs :: "'e hooks \<Rightarrow> oid \<Rightarrow> 'e kst_scheme \<Rightarrow> 'e kst_scheme option" where
  "drop_refs H q \<sigma> = do { \<sigma>1 \<leftarrow> kobject_active_release H q \<sigma>; kobject_release H q \<sigma>1 }"

subsection \<open>The three walks\<close>

primrec resolve_cap_loop ::
    "nat \<Rightarrow> 'e hooks \<Rightarrow> iris_rights \<Rightarrow> oid \<Rightarrow> cptr \<Rightarrow> u64 \<Rightarrow> u8 \<Rightarrow> 'e kst_scheme
       \<Rightarrow> ((iris_status + oid \<times> iris_rights \<times> u64) \<times> 'e kst_scheme) option" where
  "resolve_cap_loop 0 H required cur c g b \<sigma> =
     do { \<sigma>1 \<leftarrow> drop_refs H cur \<sigma>; Some (Inl IRIS_ERR_INVALID_ARG, \<sigma>1) }"
| "resolve_cap_loop (Suc d) H required cur c g b \<sigma> = do {
     kc \<leftarrow> objs \<sigma> cur;
     let idx = level_index (ko_slot_count kc) c;
     let c1 = level_rest (ko_slot_count kc) c;
     if guard_fails g b c1 then do { \<sigma>1 \<leftarrow> drop_refs H cur \<sigma>; Some (Inl IRIS_ERR_NOT_FOUND, \<sigma>1) }
     else do {
       let c2 = guard_rest b c1;
       (res, \<sigma>1) \<leftarrow> kcnode_fetch_guarded cur idx \<sigma>;
       \<sigma>2 \<leftarrow> drop_refs H cur \<sigma>1;
       (case res of
          Inl e \<Rightarrow> Some (Inl e, \<sigma>2)
        | Inr (obj, rights, badge, ng, nb) \<Rightarrow> do {
            ko \<leftarrow> objs \<sigma>2 obj;
            if c2 \<noteq> 0 \<and> ko_type ko \<noteq> KOBJ_CNODE
            then do { \<sigma>3 \<leftarrow> drop_refs H obj \<sigma>2; Some (Inl IRIS_ERR_INVALID_ARG, \<sigma>3) }
            else if c2 = 0 then
              (if required \<noteq> RIGHT_NONE \<and> \<not> rights_check rights required
               then do { \<sigma>3 \<leftarrow> drop_refs H obj \<sigma>2; Some (Inl IRIS_ERR_ACCESS_DENIED, \<sigma>3) }
               else Some (Inr (obj, rights, badge), \<sigma>2))
            else resolve_cap_loop d H required obj c2 ng nb \<sigma>2
          })
     }
   }"

definition cspace_resolve_cap_badged ::
    "'e hooks \<Rightarrow> thread_root \<Rightarrow> oid option \<Rightarrow> cptr \<Rightarrow> iris_rights \<Rightarrow> 'e kst_scheme
       \<Rightarrow> ((iris_status + oid \<times> iris_rights \<times> u64) \<times> 'e kst_scheme) option" where
  "cspace_resolve_cap_badged H self root c required \<sigma> =
     (if c = IRIS_CPTR_NULL then Some (Inl IRIS_ERR_INVALID_ARG, \<sigma>)
      else case root of
             None \<Rightarrow> Some (Inl IRIS_ERR_NOT_FOUND, \<sigma>)
           | Some r \<Rightarrow> do {
               \<sigma>1 \<leftarrow> take_refs r \<sigma>;
               let (g, b) = root_guard self r;
               resolve_cap_loop CSPACE_MAX_DEPTH H required r c g b \<sigma>1
             })"

definition cspace_resolve_cap ::
    "'e hooks \<Rightarrow> thread_root \<Rightarrow> oid option \<Rightarrow> cptr \<Rightarrow> iris_rights \<Rightarrow> 'e kst_scheme
       \<Rightarrow> ((iris_status + oid \<times> iris_rights) \<times> 'e kst_scheme) option" where
  "cspace_resolve_cap H self root c required \<sigma> =
     map_option (\<lambda>(r, \<sigma>1). (case r of Inl e \<Rightarrow> Inl e | Inr (obj, rights, _) \<Rightarrow> Inr (obj, rights), \<sigma>1))
       (cspace_resolve_cap_badged H self root c required \<sigma>)"

primrec resolve_slot_loop ::
    "nat \<Rightarrow> 'e hooks \<Rightarrow> oid \<Rightarrow> cptr \<Rightarrow> 'e kst_scheme
       \<Rightarrow> ((iris_status + oid \<times> nat) \<times> 'e kst_scheme) option" where
  "resolve_slot_loop 0 H cur c \<sigma> = do { \<sigma>1 \<leftarrow> drop_refs H cur \<sigma>; Some (Inl IRIS_ERR_INVALID_ARG, \<sigma>1) }"
| "resolve_slot_loop (Suc d) H cur c \<sigma> = do {
     kc \<leftarrow> objs \<sigma> cur;
     let idx = level_index (ko_slot_count kc) c;
     let c1 = level_rest (ko_slot_count kc) c;
     (res, \<sigma>1) \<leftarrow> kcnode_fetch cur idx \<sigma>;
     (case res of
        Inl e \<Rightarrow> do { \<sigma>2 \<leftarrow> drop_refs H cur \<sigma>1; Some (Inl e, \<sigma>2) }
      | Inr (obj, _) \<Rightarrow> do {
          ko \<leftarrow> objs \<sigma>1 obj;
          if c1 \<noteq> 0 \<and> ko_type ko \<noteq> KOBJ_CNODE
          then do { \<sigma>2 \<leftarrow> drop_refs H obj \<sigma>1; \<sigma>3 \<leftarrow> drop_refs H cur \<sigma>2; Some (Inl IRIS_ERR_INVALID_ARG, \<sigma>3) }
          else if c1 = 0 then do { \<sigma>2 \<leftarrow> drop_refs H obj \<sigma>1; Some (Inr (cur, idx), \<sigma>2) }
          else do { \<sigma>2 \<leftarrow> drop_refs H cur \<sigma>1; resolve_slot_loop d H obj c1 \<sigma>2 }
        })
   }"

definition cspace_resolve_slot ::
    "'e hooks \<Rightarrow> oid option \<Rightarrow> cptr \<Rightarrow> 'e kst_scheme
       \<Rightarrow> ((iris_status + oid \<times> nat) \<times> 'e kst_scheme) option" where
  "cspace_resolve_slot H root c \<sigma> =
     (if c = IRIS_CPTR_NULL then Some (Inl IRIS_ERR_INVALID_ARG, \<sigma>)
      else case root of
             None \<Rightarrow> Some (Inl IRIS_ERR_NOT_FOUND, \<sigma>)
           | Some r \<Rightarrow> do { \<sigma>1 \<leftarrow> take_refs r \<sigma>; resolve_slot_loop CSPACE_MAX_DEPTH H r c \<sigma>1 })"

primrec resolve_dest_loop ::
    "nat \<Rightarrow> 'e hooks \<Rightarrow> oid \<Rightarrow> cptr \<Rightarrow> 'e kst_scheme
       \<Rightarrow> ((iris_status + oid \<times> nat) \<times> 'e kst_scheme) option" where
  "resolve_dest_loop 0 H cur c \<sigma> = do { \<sigma>1 \<leftarrow> drop_refs H cur \<sigma>; Some (Inl IRIS_ERR_INVALID_ARG, \<sigma>1) }"
| "resolve_dest_loop (Suc d) H cur c \<sigma> = do {
     kc \<leftarrow> objs \<sigma> cur;
     let idx = level_index (ko_slot_count kc) c;
     let c1 = level_rest (ko_slot_count kc) c;
     if c1 = 0 then Some (Inr (cur, idx), \<sigma>)
     else do {
       (res, \<sigma>1) \<leftarrow> kcnode_fetch cur idx \<sigma>;
       (case res of
          Inl e \<Rightarrow> do { \<sigma>2 \<leftarrow> drop_refs H cur \<sigma>1; Some (Inl e, \<sigma>2) }
        | Inr (obj, _) \<Rightarrow> do {
            ko \<leftarrow> objs \<sigma>1 obj;
            if ko_type ko \<noteq> KOBJ_CNODE
            then do { \<sigma>2 \<leftarrow> drop_refs H obj \<sigma>1; \<sigma>3 \<leftarrow> drop_refs H cur \<sigma>2; Some (Inl IRIS_ERR_INVALID_ARG, \<sigma>3) }
            else do { \<sigma>2 \<leftarrow> drop_refs H cur \<sigma>1; resolve_dest_loop d H obj c1 \<sigma>2 }
          })
     }
   }"

definition cspace_resolve_dest_slot ::
    "'e hooks \<Rightarrow> oid option \<Rightarrow> cptr \<Rightarrow> 'e kst_scheme
       \<Rightarrow> ((iris_status + oid \<times> nat) \<times> 'e kst_scheme) option" where
  "cspace_resolve_dest_slot H root c \<sigma> =
     (if c = IRIS_CPTR_NULL then Some (Inl IRIS_ERR_INVALID_ARG, \<sigma>)
      else case root of
             None \<Rightarrow> Some (Inl IRIS_ERR_NOT_FOUND, \<sigma>)
           | Some r \<Rightarrow> do { \<sigma>1 \<leftarrow> take_refs r \<sigma>; resolve_dest_loop CSPACE_MAX_DEPTH H r c \<sigma>1 })"

subsection \<open>Resolvers by type\<close>

text \<open>\<^verbatim>\<open>TYPED_RESOLVE\<close>: the rights are tested by the walk, the type after it.\<close>

definition resolve_typed ::
    "kobject_type \<Rightarrow> 'e hooks \<Rightarrow> thread_root \<Rightarrow> oid option \<Rightarrow> cptr \<Rightarrow> iris_rights \<Rightarrow> 'e kst_scheme
       \<Rightarrow> ((iris_status + oid \<times> iris_rights) \<times> 'e kst_scheme) option" where
  "resolve_typed ty H self root c required \<sigma> = do {
     (res, \<sigma>1) \<leftarrow> cspace_resolve_cap H self root c required \<sigma>;
     (case res of
        Inl e \<Rightarrow> Some (Inl e, \<sigma>1)
      | Inr (obj, rights) \<Rightarrow> do {
          ko \<leftarrow> objs \<sigma>1 obj;
          if ko_type ko \<noteq> ty then do { \<sigma>2 \<leftarrow> drop_refs H obj \<sigma>1; Some (Inl IRIS_ERR_WRONG_TYPE, \<sigma>2) }
          else Some (Inr (obj, rights), \<sigma>1)
        })
   }"

definition cspace_resolve_endpoint where
  "cspace_resolve_endpoint = resolve_typed KOBJ_ENDPOINT"
definition cspace_resolve_reply where
  "cspace_resolve_reply = resolve_typed KOBJ_REPLY"
definition cspace_resolve_cnode where
  "cspace_resolve_cnode = resolve_typed KOBJ_CNODE"
definition cspace_resolve_notification where
  "cspace_resolve_notification = resolve_typed KOBJ_NOTIFICATION"
definition cspace_resolve_tcb where
  "cspace_resolve_tcb = resolve_typed KOBJ_TCB"
definition cspace_resolve_untyped where
  "cspace_resolve_untyped = resolve_typed KOBJ_UNTYPED"
definition cspace_resolve_schedctx where
  "cspace_resolve_schedctx = resolve_typed KOBJ_SCHED_CONTEXT"
definition cspace_resolve_vspace where
  "cspace_resolve_vspace = resolve_typed KOBJ_VSPACE"
definition cspace_resolve_frame where
  "cspace_resolve_frame = resolve_typed KOBJ_FRAME"

text \<open>
  The \<^verbatim>\<open>cspace_resolve_only_\<close> family: the value must be a capability address, then type before
  rights.  \<open>keep_active\<close> tells the two reference contracts apart: the IPC and device resolvers
  give the active reference back before they return.
\<close>

definition resolve_only_badged ::
    "bool \<Rightarrow> kobject_type \<Rightarrow> 'e hooks \<Rightarrow> thread_root \<Rightarrow> oid option \<Rightarrow> cptr \<Rightarrow> iris_rights \<Rightarrow> 'e kst_scheme
       \<Rightarrow> ((iris_status + oid \<times> iris_rights \<times> u64) \<times> 'e kst_scheme) option" where
  "resolve_only_badged keep_active ty H self root c required \<sigma> =
     (if root = None then Some (Inl IRIS_ERR_NOT_FOUND, \<sigma>)
      else if \<not> cspace_value_is_cptr c then Some (Inl IRIS_ERR_INVALID_ARG, \<sigma>)
      else do {
        (res, \<sigma>1) \<leftarrow> cspace_resolve_cap_badged H self root c RIGHT_NONE \<sigma>;
        (case res of
           Inl e \<Rightarrow> Some (Inl e, \<sigma>1)
         | Inr (obj, rights, badge) \<Rightarrow> do {
             ko \<leftarrow> objs \<sigma>1 obj;
             if ko_type ko \<noteq> ty
             then do { \<sigma>2 \<leftarrow> drop_refs H obj \<sigma>1; Some (Inl IRIS_ERR_WRONG_TYPE, \<sigma>2) }
             else if required \<noteq> RIGHT_NONE \<and> \<not> rights_check rights required
             then do { \<sigma>2 \<leftarrow> drop_refs H obj \<sigma>1; Some (Inl IRIS_ERR_ACCESS_DENIED, \<sigma>2) }
             else do {
               \<sigma>2 \<leftarrow> (if keep_active then Some \<sigma>1 else kobject_active_release H obj \<sigma>1);
               Some (Inr (obj, rights, badge), \<sigma>2)
             }
           })
      })"

definition resolve_only ::
    "bool \<Rightarrow> kobject_type \<Rightarrow> 'e hooks \<Rightarrow> thread_root \<Rightarrow> oid option \<Rightarrow> cptr \<Rightarrow> iris_rights \<Rightarrow> 'e kst_scheme
       \<Rightarrow> ((iris_status + oid \<times> iris_rights) \<times> 'e kst_scheme) option" where
  "resolve_only keep_active ty H self root c required \<sigma> =
     map_option (\<lambda>(r, \<sigma>1). (case r of Inl e \<Rightarrow> Inl e | Inr (obj, rights, _) \<Rightarrow> Inr (obj, rights), \<sigma>1))
       (resolve_only_badged keep_active ty H self root c required \<sigma>)"

definition cspace_resolve_only_cnode where
  "cspace_resolve_only_cnode = resolve_only True KOBJ_CNODE"
definition cspace_resolve_only_untyped where
  "cspace_resolve_only_untyped = resolve_only True KOBJ_UNTYPED"
definition cspace_resolve_only_frame where
  "cspace_resolve_only_frame = resolve_only True KOBJ_FRAME"
definition cspace_resolve_only_vspace where
  "cspace_resolve_only_vspace = resolve_only True KOBJ_VSPACE"
definition cspace_resolve_only_endpoint where
  "cspace_resolve_only_endpoint = resolve_only False KOBJ_ENDPOINT"
definition cspace_resolve_only_reply where
  "cspace_resolve_only_reply = resolve_only False KOBJ_REPLY"
definition cspace_resolve_only_notification where
  "cspace_resolve_only_notification = resolve_only False KOBJ_NOTIFICATION"
definition cspace_resolve_only_obj where
  "cspace_resolve_only_obj ty = resolve_only False ty"
definition cspace_resolve_only_endpoint_badged where
  "cspace_resolve_only_endpoint_badged = resolve_only_badged False KOBJ_ENDPOINT"

subsection \<open>The walk without its references\<close>

definition slots_of :: "'e kst_scheme \<Rightarrow> oid \<Rightarrow> nat" where
  "slots_of \<sigma> q = (case objs \<sigma> q of None \<Rightarrow> 0 | Some k \<Rightarrow> ko_slot_count k)"

definition is_cnode :: "'e kst_scheme \<Rightarrow> oid \<Rightarrow> bool" where
  "is_cnode \<sigma> q = (case objs \<sigma> q of None \<Rightarrow> False | Some k \<Rightarrow> ko_type k = KOBJ_CNODE)"

primrec cs_path ::
    "nat \<Rightarrow> bool \<Rightarrow> 'e kst_scheme \<Rightarrow> oid \<Rightarrow> cptr \<Rightarrow> u64 \<Rightarrow> u8 \<Rightarrow> iris_status + (oid \<times> nat) list" where
  "cs_path 0 guards \<sigma> cur c g b = Inl IRIS_ERR_INVALID_ARG"
| "cs_path (Suc d) guards \<sigma> cur c g b =
     (let n = slots_of \<sigma> cur; idx = level_index n c; c1 = level_rest n c; c2 = guard_rest b c1 in
      if guard_fails g b c1 then Inl IRIS_ERR_NOT_FOUND
      else if idx \<ge> n then Inl IRIS_ERR_INVALID_ARG
      else let x = slots \<sigma> (Slot cur idx) in
        case s_object x of
          None \<Rightarrow> Inl IRIS_ERR_NOT_FOUND
        | Some obj \<Rightarrow>
            if c2 = 0 then Inr [(cur, idx)]
            else if \<not> is_cnode \<sigma> obj then Inl IRIS_ERR_INVALID_ARG
            else case cs_path d guards \<sigma> obj c2 (if guards then s_guard x else 0) (if guards then s_guard_bits x else 0) of
                   Inl e \<Rightarrow> Inl e
                 | Inr p \<Rightarrow> Inr ((cur, idx) # p))"

definition bump :: "oid \<Rightarrow> 'e kst_scheme \<Rightarrow> 'e kst_scheme" where
  "bump q \<sigma> = (case objs \<sigma> q of None \<Rightarrow> \<sigma>
     | Some k \<Rightarrow> put_obj q (k\<lparr>ko_refcount := ko_refcount k + 1, ko_active := ko_active k + 1\<rparr>) \<sigma>)"

text \<open>An object whose counts are live and leave room for the references of a walk.\<close>

definition live_count :: "u32 \<Rightarrow> bool" where
  "live_count n \<longleftrightarrow> n \<noteq> 0 \<and> n + 1 \<noteq> 0 \<and> n + 2 \<noteq> 0"

definition live :: "'e kst_scheme \<Rightarrow> oid \<Rightarrow> bool" where
  "live \<sigma> q \<longleftrightarrow> (\<exists>k. objs \<sigma> q = Some k \<and> live_count (ko_refcount k) \<and> live_count (ko_active k))"

definition named_live :: "'e kst_scheme \<Rightarrow> bool" where
  "named_live \<sigma> \<longleftrightarrow> (\<forall>s q. s_object (slots \<sigma> s) = Some q \<longrightarrow> live \<sigma> q)"

lemma liveE:
  assumes "live \<sigma> q"
  obtains k where "objs \<sigma> q = Some k" "ko_refcount k \<noteq> 0" "ko_refcount k + 1 \<noteq> 0" "ko_refcount k + 2 \<noteq> 0"
    "ko_active k \<noteq> 0" "ko_active k + 1 \<noteq> 0" "ko_active k + 2 \<noteq> 0"
  using assms by (auto simp: live_def live_count_def)

lemma lt_one: "x < 1 \<longleftrightarrow> x = 0" for x :: u32
  by (simp add: word_less_1)

lemma bump_frame [simp]:
  "slots (bump q \<sigma>) = slots \<sigma>" "slots_of (bump q \<sigma>) x = slots_of \<sigma> x" "is_cnode (bump q \<sigma>) x = is_cnode \<sigma> x"
  by (auto simp: bump_def put_obj_def slots_of_def is_cnode_def split: option.splits)

lemma take_refs_bump: "live \<sigma> q \<Longrightarrow> take_refs q \<sigma> = Some (bump q \<sigma>)"
  by (erule liveE) (simp add: take_refs_def kobject_retain_def kobject_active_retain_def bump_def put_obj_def lt_one)

lemma drop_refs_bump:
  assumes "live \<sigma> q"
  shows "drop_refs H q (bump q \<sigma>) = Some \<sigma>"
  using assms
proof (rule liveE)
  fix k assume k: "objs \<sigma> q = Some k" "ko_refcount k \<noteq> 0" "ko_refcount k + 1 \<noteq> 0" "ko_active k \<noteq> 0" "ko_active k + 1 \<noteq> 0"
  have "(objs \<sigma>)(q \<mapsto> k) = objs \<sigma>" using k(1) by (simp add: fun_upd_idem)
  then show ?thesis using k
    by (simp add: drop_refs_def kobject_active_release_def kobject_release_def krun_unfold active_release_with_def
        release_with_def bump_def put_obj_def lt_one)
qed

lemma live_bump: "live \<sigma> q \<Longrightarrow> live \<sigma> r \<Longrightarrow> drop_refs H r (bump q (bump r \<sigma>)) = Some (bump q \<sigma>)"
proof (elim liveE)
  fix k l
  assume k: "objs \<sigma> q = Some k" "ko_refcount k \<noteq> 0" "ko_refcount k + 1 \<noteq> 0" "ko_refcount k + 2 \<noteq> 0"
    "ko_active k \<noteq> 0" "ko_active k + 1 \<noteq> 0" "ko_active k + 2 \<noteq> 0"
    and l: "objs \<sigma> r = Some l" "ko_refcount l \<noteq> 0" "ko_refcount l + 1 \<noteq> 0" "ko_active l \<noteq> 0" "ko_active l + 1 \<noteq> 0"
  have id: "(objs \<sigma>)(r \<mapsto> l) = objs \<sigma>" using l(1) by (simp add: fun_upd_idem)
  note d = drop_refs_def kobject_active_release_def kobject_release_def krun_unfold active_release_with_def
    release_with_def bump_def put_obj_def lt_one
  show ?thesis
  proof (cases "q = r")
    case True
    have 1: "x + 2 = 1 \<longleftrightarrow> x + 1 = 0" for x :: u32 using add_right_cancel [of "x + 1" 1 0] by (simp add: add.assoc)
    have 2: "x + 1 + 1 = x + 2" for x :: u32 by (simp add: add.assoc)
    show ?thesis using k l True 1 unfolding 2 by (simp add: d 2 add.commute [of 1]) (cases k, simp)
  next
    case False
    have "(objs \<sigma>)(r \<mapsto> l, q \<mapsto> z) = (objs \<sigma>)(q \<mapsto> z)" for z using id by simp
    then show ?thesis using k l False by (simp add: d fun_upd_twist [of r q])
  qed
qed

lemma bump_some: "live \<sigma> q \<Longrightarrow> \<exists>k. objs (bump r \<sigma>) q = Some k"
  by (auto simp: live_def bump_def put_obj_def split: option.split)

lemma take_refs_bump2:
  assumes "live \<sigma> q" "live \<sigma> r"
  shows "take_refs q (bump r \<sigma>) = Some (bump q (bump r \<sigma>))"
proof -
  obtain k where "objs (bump r \<sigma>) q = Some k" "ko_refcount k \<noteq> 0"
    using assms by (elim liveE) (cases "q = r"; simp add: bump_def put_obj_def)
  then show ?thesis
    by (simp add: take_refs_def kobject_retain_def kobject_active_retain_def bump_def [of q] put_obj_def lt_one)
qed

lemma fetch_bump:
  assumes "named_live \<sigma>" "live \<sigma> cur"
  shows "kcnode_fetch_guarded cur i (bump cur \<sigma>) =
    Some (if i \<ge> slots_of \<sigma> cur then (Inl IRIS_ERR_INVALID_ARG, bump cur \<sigma>)
      else case s_object (slots \<sigma> (Slot cur i)) of
        None \<Rightarrow> (Inl IRIS_ERR_NOT_FOUND, bump cur \<sigma>)
      | Some q \<Rightarrow> (Inr (q, s_rights (slots \<sigma> (Slot cur i)), s_badge (slots \<sigma> (Slot cur i)),
          s_guard (slots \<sigma> (Slot cur i)), s_guard_bits (slots \<sigma> (Slot cur i))), bump q (bump cur \<sigma>)))"
proof -
  obtain kc where kc: "objs (bump cur \<sigma>) cur = Some kc" using bump_some [OF assms(2)] by blast
  have n: "ko_slot_count kc = slots_of \<sigma> cur" using kc bump_frame(2) [of cur \<sigma> cur] by (simp add: slots_of_def)
  show ?thesis
  proof (cases "s_object (slots \<sigma> (Slot cur i))")
    case None
    then show ?thesis using kc n by (simp add: kcnode_fetch_guarded_def Let_def)
  next
    case (Some q)
    then have "live \<sigma> q" using assms(1) by (simp add: named_live_def)
    from take_refs_bump2 [OF this assms(2)] Some show ?thesis
      using kc n by (auto simp: kcnode_fetch_guarded_def Let_def take_refs_def bind_eq_Some_conv)
  qed
qed

text \<open>What a walk returns, once its path is known.\<close>

definition cap_result ::
    "iris_rights \<Rightarrow> 'e kst_scheme \<Rightarrow> iris_status + (oid \<times> nat) list
       \<Rightarrow> (iris_status + oid \<times> iris_rights \<times> u64) \<times> 'e kst_scheme" where
  "cap_result required \<sigma> path =
     (case path of
        Inl e \<Rightarrow> (Inl e, \<sigma>)
      | Inr p \<Rightarrow> let x = slots \<sigma> (Slot (fst (last p)) (snd (last p))); q = the (s_object x) in
          if required \<noteq> RIGHT_NONE \<and> \<not> rights_check (s_rights x) required then (Inl IRIS_ERR_ACCESS_DENIED, \<sigma>)
          else (Inr (q, s_rights x, s_badge x), bump q \<sigma>))"

lemma cs_path_nonempty: "cs_path d gd \<sigma> cur c g b = Inr p \<Longrightarrow> p \<noteq> []"
  by (cases d) (auto simp: Let_def split: if_splits option.splits sum.splits)

lemma cap_result_step:
  assumes "path \<noteq> Inr []"
  shows "cap_result required \<sigma> (case path of Inl e \<Rightarrow> Inl e | Inr p \<Rightarrow> Inr (a # p)) = cap_result required \<sigma> path"
  using assms by (auto simp: cap_result_def split: sum.split)

lemma resolve_cap_refines:
  assumes "named_live \<sigma>" "live \<sigma> cur"
  shows "resolve_cap_loop d H required cur c g b (bump cur \<sigma>) =
    Some (cap_result required \<sigma> (cs_path d True \<sigma> cur c g b))"
  using assms(2)
proof (induction d arbitrary: cur c g b)
  case 0
  then show ?case by (simp add: drop_refs_bump cap_result_def)
next
  case (Suc d)
  let ?n = "slots_of \<sigma> cur"
  let ?i = "level_index ?n c" and ?c1 = "level_rest ?n c"
  let ?c2 = "guard_rest b ?c1" and ?x = "slots \<sigma> (Slot cur (level_index ?n c))"
  obtain kc where kc: "objs (bump cur \<sigma>) cur = Some kc" using bump_some [OF Suc.prems] by blast
  have n: "ko_slot_count kc = ?n" using kc bump_frame(2) [of cur \<sigma> cur] by (simp add: slots_of_def)
  note fb = fetch_bump [OF assms(1) Suc.prems, of ?i]
  show ?case
  proof (cases "guard_fails g b ?c1 \<or> ?i \<ge> ?n \<or> s_object ?x = None")
    case True
    then show ?thesis using kc n fb drop_refs_bump [OF Suc.prems]
      by (auto simp: Let_def cap_result_def split: if_splits)
  next
    case False
    then obtain q where q: "s_object ?x = Some q" by blast
    then have lq: "live \<sigma> q" using assms(1) by (simp add: named_live_def)
    obtain kq where kq: "objs (bump q \<sigma>) q = Some kq" using bump_some [OF lq] by blast
    have t: "ko_type kq = KOBJ_CNODE \<longleftrightarrow> is_cnode \<sigma> q" using kq bump_frame(3) [of q \<sigma> q] by (simp add: is_cnode_def)
    have "cs_path d True \<sigma> q ?c2 (s_guard ?x) (s_guard_bits ?x) \<noteq> Inr []" using cs_path_nonempty by blast
    note st = cap_result_step [OF this, of required \<sigma> "(cur, ?i)"]
    show ?thesis using False kc n fb q kq t live_bump [OF lq Suc.prems] drop_refs_bump [OF lq] Suc.IH [OF lq] st
      by (auto simp: Let_def cap_result_def [of _ _ "Inl _"] cap_result_def [of _ _ "Inr [_]"] split del: if_split split: if_splits)
  qed
qed

lemma bump_commute: "bump q (bump r \<sigma>) = bump r (bump q \<sigma>)"
  by (auto simp: bump_def put_obj_def fun_upd_twist split: option.split)

lemma live_bump2: "live \<sigma> q \<Longrightarrow> live \<sigma> r \<Longrightarrow> drop_refs H q (bump q (bump r \<sigma>)) = Some (bump r \<sigma>)"
  using live_bump [of \<sigma> r q H] by (simp add: bump_commute)

lemma fetch_alt:
  "kcnode_fetch cur i \<sigma> = map_option (\<lambda>(r, \<sigma>1). (case r of Inl e \<Rightarrow> Inl e | Inr (q, rights, _) \<Rightarrow> Inr (q, rights), \<sigma>1))
     (kcnode_fetch_guarded cur i \<sigma>)"
  by (simp add: kcnode_fetch_def kcnode_fetch_badged_def kcnode_fetch_guarded_def Let_def
      split: bind_splits option.split)

lemma resolve_slot_refines:
  assumes "named_live \<sigma>" "live \<sigma> cur"
  shows "resolve_slot_loop d H cur c (bump cur \<sigma>) =
    Some (case cs_path d False \<sigma> cur c 0 0 of Inl e \<Rightarrow> (Inl e, \<sigma>) | Inr p \<Rightarrow> (Inr (last p), bump (fst (last p)) \<sigma>))"
  using assms(2)
proof (induction d arbitrary: cur c)
  case 0
  then show ?case by (simp add: drop_refs_bump)
next
  case (Suc d)
  let ?n = "slots_of \<sigma> cur"
  let ?i = "level_index ?n c" and ?c1 = "level_rest ?n c" and ?x = "slots \<sigma> (Slot cur (level_index ?n c))"
  obtain kc where kc: "objs (bump cur \<sigma>) cur = Some kc" using bump_some [OF Suc.prems] by blast
  have n: "ko_slot_count kc = ?n" using kc bump_frame(2) [of cur \<sigma> cur] by (simp add: slots_of_def)
  note fb = fetch_bump [OF assms(1) Suc.prems, of ?i]
  have g: "\<not> guard_fails 0 0 ?c1" "guard_rest 0 ?c1 = ?c1" by (simp_all add: guard_fails_def guard_rest_def)
  show ?case
  proof (cases "?i \<ge> ?n \<or> s_object ?x = None")
    case True
    then show ?thesis using kc n fb drop_refs_bump [OF Suc.prems] g
      by (auto simp: Let_def fetch_alt split: if_splits)
  next
    case False
    then obtain q where q: "s_object ?x = Some q" by blast
    then have lq: "live \<sigma> q" using assms(1) by (simp add: named_live_def)
    obtain kq where kq: "objs (bump q (bump cur \<sigma>)) q = Some kq"
      using bump_some [OF lq, of cur] by (auto simp: bump_def [of q] put_obj_def)
    have "is_cnode (bump q (bump cur \<sigma>)) q \<longleftrightarrow> ko_type kq = KOBJ_CNODE" unfolding is_cnode_def kq by simp
    then have t: "ko_type kq = KOBJ_CNODE \<longleftrightarrow> is_cnode \<sigma> q" by simp
    have "cs_path d False \<sigma> q ?c1 0 0 \<noteq> Inr []" using cs_path_nonempty by blast
    then show ?thesis
      using False kc n fb q kq t g live_bump [OF lq Suc.prems] live_bump2 [OF lq Suc.prems] drop_refs_bump [OF Suc.prems] Suc.IH [OF lq]
      by (auto simp: Let_def fetch_alt split: if_splits sum.split)
  qed
qed

text \<open>
  The destination walk stops before it looks into the last slot, so an empty slot is a
  destination.  \<open>cs_dest\<close> is its path.
\<close>

primrec cs_dest :: "nat \<Rightarrow> 'e kst_scheme \<Rightarrow> oid \<Rightarrow> cptr \<Rightarrow> iris_status + (oid \<times> nat)" where
  "cs_dest 0 \<sigma> cur c = Inl IRIS_ERR_INVALID_ARG"
| "cs_dest (Suc d) \<sigma> cur c =
     (let n = slots_of \<sigma> cur; idx = level_index n c; c1 = level_rest n c in
      if c1 = 0 then Inr (cur, idx)
      else if idx \<ge> n then Inl IRIS_ERR_INVALID_ARG
      else case s_object (slots \<sigma> (Slot cur idx)) of
             None \<Rightarrow> Inl IRIS_ERR_NOT_FOUND
           | Some obj \<Rightarrow> if is_cnode \<sigma> obj then cs_dest d \<sigma> obj c1 else Inl IRIS_ERR_INVALID_ARG)"

lemma resolve_dest_refines:
  assumes "named_live \<sigma>" "live \<sigma> cur"
  shows "resolve_dest_loop d H cur c (bump cur \<sigma>) =
    Some (case cs_dest d \<sigma> cur c of Inl e \<Rightarrow> (Inl e, \<sigma>) | Inr (cn, i) \<Rightarrow> (Inr (cn, i), bump cn \<sigma>))"
  using assms(2)
proof (induction d arbitrary: cur c)
  case 0
  then show ?case by (simp add: drop_refs_bump)
next
  case (Suc d)
  let ?n = "slots_of \<sigma> cur"
  let ?i = "level_index ?n c" and ?c1 = "level_rest ?n c" and ?x = "slots \<sigma> (Slot cur (level_index ?n c))"
  obtain kc where kc: "objs (bump cur \<sigma>) cur = Some kc" using bump_some [OF Suc.prems] by blast
  have n: "ko_slot_count kc = ?n" using kc bump_frame(2) [of cur \<sigma> cur] by (simp add: slots_of_def)
  note fb = fetch_bump [OF assms(1) Suc.prems, of ?i]
  show ?case
  proof (cases "?c1 = 0 \<or> ?i \<ge> ?n \<or> s_object ?x = None")
    case True
    then show ?thesis using kc n fb drop_refs_bump [OF Suc.prems]
      by (auto simp: Let_def fetch_alt split: if_splits)
  next
    case False
    then obtain q where q: "s_object ?x = Some q" by blast
    then have lq: "live \<sigma> q" using assms(1) by (simp add: named_live_def)
    obtain kq where kq: "objs (bump q (bump cur \<sigma>)) q = Some kq"
      using bump_some [OF lq, of cur] by (auto simp: bump_def [of q] put_obj_def)
    have "is_cnode (bump q (bump cur \<sigma>)) q \<longleftrightarrow> ko_type kq = KOBJ_CNODE" unfolding is_cnode_def kq by simp
    then have t: "ko_type kq = KOBJ_CNODE \<longleftrightarrow> is_cnode \<sigma> q" by simp
    show ?thesis
      using False kc n fb q kq t live_bump [OF lq Suc.prems] live_bump2 [OF lq Suc.prems] drop_refs_bump [OF Suc.prems] Suc.IH [OF lq]
      by (auto simp: Let_def fetch_alt split: if_splits sum.split)
  qed
qed

subsection \<open>Addresses\<close>

lemma level_split:
  assumes "power_of_two n" "ctz n < 64"
  shows "of_nat (level_index n c) = take_bit (ctz n) c" "level_index n c < n"
proof -
  have n2: "n = 2 ^ ctz n" using assms(1) by (simp add: power_of_two_def)
  then have n1: "of_nat n = (2 ^ ctz n :: u64)" by (metis of_nat_numeral of_nat_power)
  have "c AND (of_nat n - 1) = take_bit (ctz n) c" unfolding n1 take_bit_eq_mask mask_eq_exp_minus_1 by (rule refl)
  then have l: "level_index n c = unat (take_bit (ctz n) c)" by (simp add: level_index_def)
  then show "of_nat (level_index n c) = take_bit (ctz n) c" by simp
  have "unat (take_bit (ctz n) c) = take_bit (ctz n) (unat c)" by (simp add: unsigned_take_bit_eq)
  then show "level_index n c < n" using l n2 take_bit_nat_less_exp [of "ctz n" "unat c"] by linarith
qed

lemma level_inj:
  assumes "power_of_two n" "ctz n < 64" "level_index n c = level_index n c'" "level_rest n c = level_rest n c'"
  shows "c = c'"
proof -
  have "take_bit (ctz n) c = take_bit (ctz n) c'"
    using level_split(1) [OF assms(1,2), of c] level_split(1) [OF assms(1,2), of c'] assms(3) by simp
  moreover have "drop_bit (ctz n) c = drop_bit (ctz n) c'" using assms(4) by (simp add: level_rest_def)
  ultimately show ?thesis by (metis bits_ident)
qed

lemma guard_inj:
  assumes "\<not> guard_fails g b c" "\<not> guard_fails g b c'" "guard_rest b c = guard_rest b c'"
  shows "c = c'"
proof (cases "b = 0 \<or> b \<ge> 64")
  case True
  then show ?thesis using assms by (auto simp: guard_fails_def guard_rest_def guard_mask_def)
next
  case False
  then have "guard_mask b = mask (unat b)" by (simp add: guard_mask_def mask_eq_exp_minus_1 push_bit_eq_mult)
  then have "take_bit (unat b) c = take_bit (unat b) c'"
    using assms(1,2) False by (simp add: guard_fails_def take_bit_eq_mask)
  moreover have "drop_bit (unat b) c = drop_bit (unat b) c'" using assms(3) False by (simp add: guard_rest_def)
  ultimately show ?thesis by (metis bits_ident)
qed

definition cnodes_sized :: "'e kst_scheme \<Rightarrow> bool" where
  "cnodes_sized \<sigma> \<longleftrightarrow> (\<forall>q. is_cnode \<sigma> q \<longrightarrow> power_of_two (slots_of \<sigma> q) \<and> slots_of \<sigma> q \<le> KCNODE_MAX_SLOTS)"

lemma ctz_pow: "power_of_two n \<Longrightarrow> n \<le> KCNODE_MAX_SLOTS \<Longrightarrow> ctz n < 64"
proof -
  assume "power_of_two n" "n \<le> KCNODE_MAX_SLOTS"
  then have "(2::nat) ^ ctz n \<le> 2 ^ 12" by (simp add: power_of_two_def KCNODE_MAX_SLOTS_def)
  then have "ctz n \<le> 12" using power_le_imp_le_exp [of "2::nat" "ctz n" 12] by simp
  then show ?thesis by simp
qed

lemma cs_path_inj:
  assumes sz: "cnodes_sized \<sigma>"
  shows "is_cnode \<sigma> cur \<Longrightarrow> cs_path d gd \<sigma> cur c g b = Inr p \<Longrightarrow> cs_path d' gd \<sigma> cur c' g b = Inr p \<Longrightarrow> c = c'"
proof (induction d arbitrary: cur c c' g b p d')
  case (Suc d)
  let ?n = "slots_of \<sigma> cur"
  obtain e where d': "d' = Suc e" using Suc.prems(3) by (cases d') auto
  let ?i = "level_index ?n c" and ?r = "guard_rest b (level_rest ?n c)" and ?r' = "guard_rest b (level_rest ?n c')"
  let ?x = "slots \<sigma> (Slot cur ?i)"
  have g: "\<not> guard_fails g b (level_rest ?n c)" "\<not> guard_fails g b (level_rest ?n c')"
    using Suc.prems(2,3) d' by (auto simp: Let_def split: if_splits)
  have p: "\<exists>q. p = (cur, ?i) # q" "\<exists>q. p = (cur, level_index ?n c') # q"
    using Suc.prems(2,3) d' by (auto simp: Let_def split: if_splits option.splits sum.splits)
  then have i: "level_index ?n c' = ?i" by auto
  obtain obj where o: "s_object ?x = Some obj" using Suc.prems(2) by (auto simp: Let_def split: if_splits option.splits)
  have "?r = ?r'"
  proof (cases "?r = 0")
    case True
    then have "p = [(cur, ?i)]" using Suc.prems(2) o g by (auto simp: Let_def split: if_splits)
    then have "?r' = 0" using Suc.prems(3) d' i o g cs_path_nonempty
      by (fastforce simp: Let_def split: if_splits sum.splits)
    then show ?thesis using True by simp
  next
    case False
    let ?g = "if gd then s_guard ?x else 0" and ?b = "if gd then s_guard_bits ?x else 0"
    obtain q where q: "cs_path d gd \<sigma> obj ?r ?g ?b = Inr q" "p = (cur, ?i) # q" "is_cnode \<sigma> obj"
      using Suc.prems(2) o g False by (auto simp: Let_def split: if_splits sum.splits)
    then have "cs_path e gd \<sigma> obj ?r' ?g ?b = Inr q"
      using Suc.prems(3) d' i o g cs_path_nonempty [OF q(1)] by (auto simp: Let_def split: if_splits sum.splits)
    then show ?thesis using Suc.IH [OF q(3,1)] by blast
  qed
  then have "level_rest ?n c = level_rest ?n c'" using guard_inj [OF g] by simp
  then show ?case using level_inj [of ?n c c'] sz Suc.prems(1) i ctz_pow by (simp add: cnodes_sized_def)
qed simp

subsection \<open>What the entry points return\<close>

definition walk_path :: "thread_root \<Rightarrow> 'e kst_scheme \<Rightarrow> oid \<Rightarrow> cptr \<Rightarrow> iris_status + (oid \<times> nat) list" where
  "walk_path self \<sigma> root c =
     (if c = IRIS_CPTR_NULL then Inl IRIS_ERR_INVALID_ARG
      else case root_guard self root of (g, b) \<Rightarrow> cs_path CSPACE_MAX_DEPTH True \<sigma> root c g b)"

lemma resolve_cap_spec:
  assumes "named_live \<sigma>" "live \<sigma> r"
  shows "cspace_resolve_cap_badged H self (Some r) c required \<sigma> = Some (cap_result required \<sigma> (walk_path self \<sigma> r c))"
proof (cases "c = IRIS_CPTR_NULL")
  case True
  then show ?thesis by (simp add: cspace_resolve_cap_badged_def walk_path_def cap_result_def)
next
  case False
  then show ?thesis using take_refs_bump [OF assms(2)] resolve_cap_refines [OF assms]
    by (simp add: cspace_resolve_cap_badged_def walk_path_def split: prod.split)
qed

lemma resolve_slot_spec:
  assumes "named_live \<sigma>" "live \<sigma> r" "c \<noteq> IRIS_CPTR_NULL"
  shows "cspace_resolve_slot H (Some r) c \<sigma> =
    Some (case cs_path CSPACE_MAX_DEPTH False \<sigma> r c 0 0 of
            Inl e \<Rightarrow> (Inl e, \<sigma>) | Inr p \<Rightarrow> (Inr (last p), bump (fst (last p)) \<sigma>))"
  using assms take_refs_bump [OF assms(2)] resolve_slot_refines [OF assms(1,2)] by (simp add: cspace_resolve_slot_def)

lemma resolve_dest_spec:
  assumes "named_live \<sigma>" "live \<sigma> r" "c \<noteq> IRIS_CPTR_NULL"
  shows "cspace_resolve_dest_slot H (Some r) c \<sigma> =
    Some (case cs_dest CSPACE_MAX_DEPTH \<sigma> r c of Inl e \<Rightarrow> (Inl e, \<sigma>) | Inr (cn, i) \<Rightarrow> (Inr (cn, i), bump cn \<sigma>))"
  using assms take_refs_bump [OF assms(2)] resolve_dest_refines [OF assms(1,2)] by (simp add: cspace_resolve_dest_slot_def)

text \<open>The end of a path is an occupied slot inside a CNode.\<close>

lemma cs_path_end:
  "cs_path d gd \<sigma> cur c g b = Inr p \<Longrightarrow>
     snd (last p) < slots_of \<sigma> (fst (last p)) \<and> s_object (slots \<sigma> (Slot (fst (last p)) (snd (last p)))) \<noteq> None"
proof (induction d arbitrary: cur c g b p)
  case (Suc d)
  then show ?case using cs_path_nonempty by (fastforce simp: Let_def split: if_splits option.splits sum.splits)
qed simp

lemma cs_path_length: "cs_path d gd \<sigma> cur c g b = Inr p \<Longrightarrow> length p \<le> d"
proof (induction d arbitrary: cur c g b p)
  case (Suc d)
  then show ?case by (fastforce simp: Let_def split: if_splits option.splits sum.splits)
qed simp

lemma cs_path_no_guards:
  assumes "\<And>s. s_guard_bits (slots \<sigma> s) = 0"
  shows "cs_path d True \<sigma> cur c g 0 = cs_path d False \<sigma> cur c 0 0"
proof (induction d arbitrary: cur c g)
  case (Suc d)
  then show ?case using assms by (simp add: Let_def guard_fails_def cong: if_cong option.case_cong)
qed simp

text \<open>
  The resolvers that check a type.  \<open>kept\<close> is what they leave of the two references of the walk.
\<close>

definition kept :: "bool \<Rightarrow> oid \<Rightarrow> 'e kst_scheme \<Rightarrow> 'e kst_scheme" where
  "kept keep_active q \<sigma> =
     (if keep_active then bump q \<sigma>
      else case objs \<sigma> q of None \<Rightarrow> \<sigma> | Some k \<Rightarrow> put_obj q (k\<lparr>ko_refcount := ko_refcount k + 1\<rparr>) \<sigma>)"

definition type_of :: "'e kst_scheme \<Rightarrow> oid \<Rightarrow> kobject_type option" where
  "type_of \<sigma> q = map_option ko_type (objs \<sigma> q)"

definition only_result ::
    "bool \<Rightarrow> kobject_type \<Rightarrow> iris_rights \<Rightarrow> 'e kst_scheme \<Rightarrow> iris_status + (oid \<times> nat) list
       \<Rightarrow> (iris_status + oid \<times> iris_rights \<times> u64) \<times> 'e kst_scheme" where
  "only_result keep_active ty required \<sigma> path =
     (case path of
        Inl e \<Rightarrow> (Inl e, \<sigma>)
      | Inr p \<Rightarrow> let x = slots \<sigma> (Slot (fst (last p)) (snd (last p))); q = the (s_object x) in
          if type_of \<sigma> q \<noteq> Some ty then (Inl IRIS_ERR_WRONG_TYPE, \<sigma>)
          else if required \<noteq> RIGHT_NONE \<and> \<not> rights_check (s_rights x) required then (Inl IRIS_ERR_ACCESS_DENIED, \<sigma>)
          else (Inr (q, s_rights x, s_badge x), kept keep_active q \<sigma>))"

lemma active_release_bump:
  assumes "live \<sigma> q"
  shows "kobject_active_release H q (bump q \<sigma>) = Some (kept False q \<sigma>)"
  using assms
  by (rule liveE) (simp add: kept_def bump_def kobject_active_release_def krun_unfold active_release_with_def put_obj_def lt_one)

lemma resolve_only_spec:
  assumes "named_live \<sigma>" "live \<sigma> r"
  shows "resolve_only_badged keep ty H self (Some r) c required \<sigma> =
    Some (if cspace_value_is_cptr c then only_result keep ty required \<sigma> (walk_path self \<sigma> r c)
          else (Inl IRIS_ERR_INVALID_ARG, \<sigma>))"
proof (cases "cspace_value_is_cptr c")
  case cp: True
  note r = resolve_cap_spec [OF assms, of H self c RIGHT_NONE]
  show ?thesis
  proof (cases "walk_path self \<sigma> r c")
    case (Inl e)
    then show ?thesis using cp r by (simp add: resolve_only_badged_def cap_result_def only_result_def)
  next
    case (Inr p)
    let ?x = "slots \<sigma> (Slot (fst (last p)) (snd (last p)))"
    obtain q where q: "s_object ?x = Some q" using Inr cs_path_end
      by (fastforce simp: walk_path_def split: if_splits prod.splits)
    then have l: "live \<sigma> q" using assms(1) by (simp add: named_live_def)
    obtain k where k: "objs (bump q \<sigma>) q = Some k" using bump_some [OF l] by blast
    moreover have "type_of \<sigma> q = Some (ko_type k)" using l k by (auto simp: type_of_def live_def bump_def put_obj_def)
    ultimately show ?thesis using cp r Inr q l drop_refs_bump [OF l] active_release_bump [OF l, of H]
      by (auto simp: resolve_only_badged_def cap_result_def only_result_def Let_def kept_def [of True])
  qed
qed (simp add: resolve_only_badged_def)

end
