(* ===== verification/Iris_Syscalls.thy ===== *)
theory Iris_Syscalls
  imports Iris_Steps Iris_CSpace
begin

text \<open>
  The capability invocations of ring 3: \<^verbatim>\<open>kernel/core/syscall/syscall_cspace.c\<close> and
  \<^verbatim>\<open>syscall_cnode_ops.c\<close>.  Each resolves its addresses against the root CSpace of the running
  thread, calls one slot primitive, and drops the references the resolution took.  The result is
  the register value ring 3 sees: an error code sign-extended to 64 bits, or a payload.  A
  revocation works in slices; the running total lives in the thread between them.
\<close>

subsection \<open>Result words\<close>

definition iris_error_code :: "iris_status \<Rightarrow> int" where
  "iris_error_code e =
     (case e of IRIS_OK \<Rightarrow> 0 | IRIS_ERR_INVALID_ARG \<Rightarrow> -1 | IRIS_ERR_NO_MEMORY \<Rightarrow> -2
      | IRIS_ERR_NOT_FOUND \<Rightarrow> -3 | IRIS_ERR_BAD_HANDLE \<Rightarrow> -4 | IRIS_ERR_ACCESS_DENIED \<Rightarrow> -5
      | IRIS_ERR_TABLE_FULL \<Rightarrow> -6 | IRIS_ERR_ALREADY_EXISTS \<Rightarrow> -7 | IRIS_ERR_BUSY \<Rightarrow> -8
      | IRIS_ERR_WRONG_TYPE \<Rightarrow> -9 | IRIS_ERR_OVERFLOW \<Rightarrow> -10 | IRIS_ERR_NOT_SUPPORTED \<Rightarrow> -11
      | IRIS_ERR_CLOSED \<Rightarrow> -12 | IRIS_ERR_WOULD_BLOCK \<Rightarrow> -13 | IRIS_ERR_INTERNAL \<Rightarrow> -14
      | IRIS_ERR_TIMED_OUT \<Rightarrow> -15 | IRIS_ERR_MISSING_TABLE \<Rightarrow> -16)"

definition syscall_err :: "iris_status \<Rightarrow> u64" where
  "syscall_err e = word_of_int (iris_error_code e)"

definition syscall_ok_u64 :: "u64 \<Rightarrow> u64" where
  "syscall_ok_u64 v = v"

text \<open>The enumerator values, which \<^verbatim>\<open>SYS_CAP_IDENTIFY\<close> reports.\<close>

definition kobject_type_code :: "kobject_type \<Rightarrow> u64" where
  "kobject_type_code ty =
     (case ty of KOBJ_PROCESS \<Rightarrow> 0 | KOBJ_CHANNEL \<Rightarrow> 1 | KOBJ_NOTIFICATION \<Rightarrow> 2 | KOBJ_BOOTSTRAP_CAP \<Rightarrow> 3
      | KOBJ_VMO \<Rightarrow> 4 | KOBJ_IRQ_CAP \<Rightarrow> 5 | KOBJ_IOPORT \<Rightarrow> 6 | KOBJ_INITRD_ENTRY \<Rightarrow> 7 | KOBJ_ENDPOINT \<Rightarrow> 8
      | KOBJ_CNODE \<Rightarrow> 9 | KOBJ_SCHED_CONTEXT \<Rightarrow> 10 | KOBJ_UNTYPED \<Rightarrow> 11 | KOBJ_REPLY \<Rightarrow> 12 | KOBJ_TCB \<Rightarrow> 13
      | KOBJ_VSPACE \<Rightarrow> 14 | KOBJ_FRAME \<Rightarrow> 15 | KOBJ_PAGE_TABLE \<Rightarrow> 16 | KOBJ_ASID_POOL \<Rightarrow> 17
      | KOBJ_IOSPACE \<Rightarrow> 18 | KOBJ_IO_PAGE_TABLE \<Rightarrow> 19)"

subsection \<open>The running thread\<close>

text \<open>The labels of \<^verbatim>\<open>syscall_invoke\<close> that act on slots.\<close>

datatype cap_label =
    INV_CNODE_DELETE | INV_CNODE_SWAP | INV_CAP_IDENTIFY | INV_CAP_SAME_OBJECT | INV_CSPACE_MINT
  | INV_CSPACE_MOVE | INV_CSPACE_REVOKE | INV_CSPACE_SET_GUARD | INV_CSPACE_ROTATE

text \<open>
  The fields of \<^verbatim>\<open>struct task\<close> these calls read and write.  \<^verbatim>\<open>sc_num\<close> and \<^verbatim>\<open>sc_arg\<close>, from which a
  parked call is run again, are \<open>sc_call\<close>; the global restart gauge, a diagnostic, is left out.
\<close>

record ktask =
  cspace_root :: "oid option"
  cspace_root_guard :: u64
  cspace_root_guard_bits :: u8
  sc_restart :: u8
  sc_reentry :: u8
  sc_acc :: u64
  sc_restart_count :: u32
  sc_call :: "(cap_label \<times> u64 \<times> u64 \<times> u64) option"

definition self_root :: "ktask \<Rightarrow> thread_root" where
  "self_root t = map_option (\<lambda>r. (r, cspace_root_guard t, cspace_root_guard_bits t)) (cspace_root t)"

definition syscall_request_restart :: "ktask \<Rightarrow> ktask" where
  "syscall_request_restart t = t\<lparr>sc_restart := 1, sc_restart_count := sc_restart_count t + 1\<rparr>"

definition cspace_only_cptr :: "u64 \<Rightarrow> bool" where
  "cspace_only_cptr v = cspace_value_is_cptr v"

definition low32 :: "u64 \<Rightarrow> u64" where
  "low32 a = a AND 0xFFFFFFFF"

definition high32 :: "u64 \<Rightarrow> nat" where
  "high32 a = unat (drop_bit 32 a)"

definition IRIS_REVOKE_SLICE :: u32 where "IRIS_REVOKE_SLICE = 16"

subsection \<open>Destinations\<close>

definition cspace_own_root ::
    "oid option \<Rightarrow> 'e kst_scheme \<Rightarrow> ((iris_status + oid) \<times> 'e kst_scheme) option" where
  "cspace_own_root root \<sigma> =
     (case root of
        None \<Rightarrow> Some (Inl IRIS_ERR_NOT_FOUND, \<sigma>)
      | Some r \<Rightarrow> do { \<sigma>1 \<leftarrow> take_refs r \<sigma>; Some (Inr r, \<sigma>1) })"

definition cspace_resolve_cnode_for_publish ::
    "'e hooks \<Rightarrow> thread_root \<Rightarrow> oid option \<Rightarrow> cptr \<Rightarrow> 'e kst_scheme \<Rightarrow> ((iris_status + oid) \<times> 'e kst_scheme) option" where
  "cspace_resolve_cnode_for_publish H self root c \<sigma> = do {
     (res, \<sigma>1) \<leftarrow> cspace_resolve_cap H self root c RIGHT_WRITE \<sigma>;
     (case res of
        Inl e \<Rightarrow> Some (Inl e, \<sigma>1)
      | Inr (obj, _) \<Rightarrow> do {
          ko \<leftarrow> objs \<sigma>1 obj;
          if ko_type ko \<noteq> KOBJ_CNODE
          then do { \<sigma>2 \<leftarrow> drop_refs H obj \<sigma>1; Some (Inl IRIS_ERR_WRONG_TYPE, \<sigma>2) }
          else Some (Inr obj, \<sigma>1)
        })
   }"

definition publish_dest ::
    "'e hooks \<Rightarrow> ktask \<Rightarrow> cptr \<Rightarrow> 'e kst_scheme \<Rightarrow> ((iris_status + oid) \<times> 'e kst_scheme) option" where
  "publish_dest H t dest_cnode \<sigma> =
     (if dest_cnode = 0 then cspace_own_root (cspace_root t) \<sigma>
      else cspace_resolve_cnode_for_publish H (self_root t) (cspace_root t) dest_cnode \<sigma>)"

definition mint_dest ::
    "'e hooks \<Rightarrow> ktask \<Rightarrow> cptr \<Rightarrow> 'e kst_scheme \<Rightarrow> ((iris_status + oid) \<times> 'e kst_scheme) option" where
  "mint_dest H t dest_cnode \<sigma> =
     (if dest_cnode = 0 then cspace_own_root (cspace_root t) \<sigma>
      else map_option (\<lambda>(r, \<sigma>1). (case r of Inl e \<Rightarrow> Inl e | Inr (cn, _) \<Rightarrow> Inr cn, \<sigma>1))
             (cspace_resolve_cnode H (self_root t) (cspace_root t) dest_cnode RIGHT_WRITE \<sigma>))"

subsection \<open>The calls\<close>

definition status_word :: "iris_status \<Rightarrow> u64" where
  "status_word st = (if st = IRIS_OK then syscall_ok_u64 0 else syscall_err st)"

definition no_root :: "ktask option \<Rightarrow> bool" where
  "no_root t \<longleftrightarrow> (case t of None \<Rightarrow> True | Some k \<Rightarrow> cspace_root k = None)"

definition sys_cspace_move ::
    "'e hooks \<Rightarrow> ktask option \<Rightarrow> u64 \<Rightarrow> u64 \<Rightarrow> 'e kst_scheme \<Rightarrow> (u64 \<times> 'e kst_scheme) option" where
  "sys_cspace_move H cur arg0 arg1 \<sigma> =
     (if no_root cur then Some (syscall_err IRIS_ERR_INVALID_ARG, \<sigma>)
      else if high32 arg1 = 0 then Some (syscall_err IRIS_ERR_INVALID_ARG, \<sigma>)
      else do {
        t \<leftarrow> cur;
        (res, \<sigma>1) \<leftarrow> cspace_resolve_slot H (cspace_root t) arg0 \<sigma>;
        (case res of
           Inl e \<Rightarrow> Some (syscall_err e, \<sigma>1)
         | Inr (src_cn, src_idx) \<Rightarrow> do {
             (dres, \<sigma>2) \<leftarrow> publish_dest H t (low32 arg1) \<sigma>1;
             (case dres of
                Inl e \<Rightarrow> do { \<sigma>3 \<leftarrow> drop_refs H src_cn \<sigma>2; Some (syscall_err e, \<sigma>3) }
              | Inr dst_cn \<Rightarrow> do {
                  (st, \<sigma>3) \<leftarrow> kcnode_slot_move src_cn src_idx dst_cn (high32 arg1) \<sigma>2;
                  \<sigma>4 \<leftarrow> drop_refs H dst_cn \<sigma>3;
                  \<sigma>5 \<leftarrow> drop_refs H src_cn \<sigma>4;
                  Some (status_word st, \<sigma>5)
                })
           })
      })"

definition sys_cspace_rotate ::
    "'e hooks \<Rightarrow> ktask option \<Rightarrow> u64 \<Rightarrow> u64 \<Rightarrow> u64 \<Rightarrow> 'e kst_scheme \<Rightarrow> (u64 \<times> 'e kst_scheme) option" where
  "sys_cspace_rotate H cur arg0 arg1 arg2 \<sigma> =
     (if no_root cur then Some (syscall_err IRIS_ERR_INVALID_ARG, \<sigma>)
      else if high32 arg2 = 0 then Some (syscall_err IRIS_ERR_INVALID_ARG, \<sigma>)
      else do {
        t \<leftarrow> cur;
        (res, \<sigma>1) \<leftarrow> cspace_resolve_slot H (cspace_root t) arg0 \<sigma>;
        (case res of
           Inl e \<Rightarrow> Some (syscall_err e, \<sigma>1)
         | Inr (src_cn, src_idx) \<Rightarrow> do {
             (pres, \<sigma>2) \<leftarrow> cspace_resolve_slot H (cspace_root t) arg1 \<sigma>1;
             (case pres of
                Inl e \<Rightarrow> do { \<sigma>3 \<leftarrow> drop_refs H src_cn \<sigma>2; Some (syscall_err e, \<sigma>3) }
              | Inr (pivot_cn, pivot_idx) \<Rightarrow> do {
                  (dres, \<sigma>3) \<leftarrow> publish_dest H t (low32 arg2) \<sigma>2;
                  (case dres of
                     Inl e \<Rightarrow> do {
                       \<sigma>4 \<leftarrow> drop_refs H pivot_cn \<sigma>3;
                       \<sigma>5 \<leftarrow> drop_refs H src_cn \<sigma>4;
                       Some (syscall_err e, \<sigma>5)
                     }
                   | Inr dst_cn \<Rightarrow> do {
                       (st, \<sigma>4) \<leftarrow> kcnode_slot_rotate dst_cn (high32 arg2) pivot_cn pivot_idx src_cn src_idx \<sigma>3;
                       \<sigma>5 \<leftarrow> drop_refs H dst_cn \<sigma>4;
                       \<sigma>6 \<leftarrow> drop_refs H pivot_cn \<sigma>5;
                       \<sigma>7 \<leftarrow> drop_refs H src_cn \<sigma>6;
                       Some (status_word st, \<sigma>7)
                     })
                })
           })
      })"

definition sys_cspace_mint ::
    "'e hooks \<Rightarrow> ktask option \<Rightarrow> u64 \<Rightarrow> u64 \<Rightarrow> u64 \<Rightarrow> 'e kst_scheme \<Rightarrow> (u64 \<times> 'e kst_scheme) option" where
  "sys_cspace_mint H cur arg0 arg1 arg2 \<sigma> =
     (if no_root cur then Some (syscall_err IRIS_ERR_INVALID_ARG, \<sigma>)
      else if \<not> cspace_only_cptr arg0 then Some (syscall_err IRIS_ERR_INVALID_ARG, \<sigma>)
      else if low32 arg1 \<noteq> 0 \<and> \<not> cspace_only_cptr (low32 arg1) then Some (syscall_err IRIS_ERR_INVALID_ARG, \<sigma>)
      else if high32 arg1 = 0 then Some (syscall_err IRIS_ERR_INVALID_ARG, \<sigma>)
      else do {
        t \<leftarrow> cur;
        (res, \<sigma>1) \<leftarrow> cspace_resolve_slot H (cspace_root t) arg0 \<sigma>;
        (case res of
           Inl e \<Rightarrow> Some (syscall_err e, \<sigma>1)
         | Inr (src_cn, src_idx) \<Rightarrow> do {
             (dres, \<sigma>2) \<leftarrow> mint_dest H t (low32 arg1) \<sigma>1;
             (case dres of
                Inl e \<Rightarrow> do { \<sigma>3 \<leftarrow> drop_refs H src_cn \<sigma>2; Some (syscall_err e, \<sigma>3) }
              | Inr dst_cn \<Rightarrow> do {
                  (st, \<sigma>3) \<leftarrow> kcnode_slot_derive H src_cn src_idx dst_cn (high32 arg1)
                                (ucast (low32 arg2)) (drop_bit 32 arg2) \<sigma>2;
                  \<sigma>4 \<leftarrow> drop_refs H dst_cn \<sigma>3;
                  \<sigma>5 \<leftarrow> drop_refs H src_cn \<sigma>4;
                  Some (if st \<noteq> IRIS_OK then syscall_err st else 0, \<sigma>5)
                })
           })
      })"

definition sys_cspace_revoke ::
    "'e hooks \<Rightarrow> ktask option \<Rightarrow> u64 \<Rightarrow> 'e kst_scheme \<Rightarrow> (u64 \<times> ktask option \<times> 'e kst_scheme) option" where
  "sys_cspace_revoke H cur arg0 \<sigma> =
     (if no_root cur then Some (syscall_err IRIS_ERR_INVALID_ARG, cur, \<sigma>)
      else if \<not> cspace_only_cptr arg0 then Some (syscall_err IRIS_ERR_INVALID_ARG, cur, \<sigma>)
      else do {
        t \<leftarrow> cur;
        (res, \<sigma>1) \<leftarrow> cspace_resolve_slot H (cspace_root t) arg0 \<sigma>;
        (case res of
           Inl e \<Rightarrow> Some (syscall_err e, cur, \<sigma>1)
         | Inr (cn, idx) \<Rightarrow> do {
             let t1 = (if sc_reentry t = 0 then t\<lparr>sc_acc := 0\<rparr> else t);
             (st, revoked, more, \<sigma>2) \<leftarrow> kcnode_slot_revoke_bounded H cn idx IRIS_REVOKE_SLICE \<sigma>1;
             \<sigma>3 \<leftarrow> drop_refs H cn \<sigma>2;
             if st \<noteq> IRIS_OK then Some (syscall_err st, Some t1, \<sigma>3)
             else do {
               let t2 = t1\<lparr>sc_acc := sc_acc t1 + ucast revoked\<rparr>;
               if more then Some (0, Some (syscall_request_restart t2), \<sigma>3)
               else Some (sc_acc t2, Some t2, \<sigma>3)
             }
           })
      })"

definition sys_cap_identify ::
    "'e hooks \<Rightarrow> ktask option \<Rightarrow> u64 \<Rightarrow> 'e kst_scheme \<Rightarrow> (u64 \<times> 'e kst_scheme) option" where
  "sys_cap_identify H cur arg0 \<sigma> =
     (if no_root cur then Some (syscall_err IRIS_ERR_INVALID_ARG, \<sigma>)
      else if \<not> cspace_only_cptr arg0 then Some (syscall_err IRIS_ERR_INVALID_ARG, \<sigma>)
      else do {
        t \<leftarrow> cur;
        (res, \<sigma>1) \<leftarrow> cspace_resolve_cap H (self_root t) (cspace_root t) arg0 RIGHT_NONE \<sigma>;
        (case res of
           Inl e \<Rightarrow> Some (syscall_err e, \<sigma>1)
         | Inr (obj, _) \<Rightarrow> do {
             ko \<leftarrow> objs \<sigma>1 obj;
             \<sigma>2 \<leftarrow> drop_refs H obj \<sigma>1;
             Some (syscall_ok_u64 (kobject_type_code (ko_type ko)), \<sigma>2)
           })
      })"

definition sys_cap_same_object ::
    "'e hooks \<Rightarrow> ktask option \<Rightarrow> u64 \<Rightarrow> u64 \<Rightarrow> 'e kst_scheme \<Rightarrow> (u64 \<times> 'e kst_scheme) option" where
  "sys_cap_same_object H cur arg0 arg1 \<sigma> =
     (if no_root cur then Some (syscall_err IRIS_ERR_INVALID_ARG, \<sigma>)
      else if \<not> cspace_only_cptr arg0 \<or> \<not> cspace_only_cptr arg1 then Some (syscall_err IRIS_ERR_INVALID_ARG, \<sigma>)
      else do {
        t \<leftarrow> cur;
        (ra, \<sigma>1) \<leftarrow> cspace_resolve_cap H (self_root t) (cspace_root t) arg0 RIGHT_NONE \<sigma>;
        (case ra of
           Inl e \<Rightarrow> Some (syscall_err e, \<sigma>1)
         | Inr (obj_a, _) \<Rightarrow> do {
             (rb, \<sigma>2) \<leftarrow> cspace_resolve_cap H (self_root t) (cspace_root t) arg1 RIGHT_NONE \<sigma>1;
             (case rb of
                Inl e \<Rightarrow> do { \<sigma>3 \<leftarrow> drop_refs H obj_a \<sigma>2; Some (syscall_err e, \<sigma>3) }
              | Inr (obj_b, _) \<Rightarrow> do {
                  \<sigma>3 \<leftarrow> drop_refs H obj_b \<sigma>2;
                  \<sigma>4 \<leftarrow> drop_refs H obj_a \<sigma>3;
                  Some (syscall_ok_u64 (if obj_a = obj_b then 1 else 0), \<sigma>4)
                })
           })
      })"

definition sys_cspace_set_guard ::
    "'e hooks \<Rightarrow> ktask option \<Rightarrow> u64 \<Rightarrow> u64 \<Rightarrow> u64 \<Rightarrow> 'e kst_scheme \<Rightarrow> (u64 \<times> 'e kst_scheme) option" where
  "sys_cspace_set_guard H cur arg0 arg1 arg2 \<sigma> =
     (if no_root cur then Some (syscall_err IRIS_ERR_INVALID_ARG, \<sigma>)
      else if \<not> cspace_only_cptr arg0 then Some (syscall_err IRIS_ERR_INVALID_ARG, \<sigma>)
      else if arg2 > ucast KCNODE_GUARD_BITS_MAX then Some (syscall_err IRIS_ERR_INVALID_ARG, \<sigma>)
      else do {
        t \<leftarrow> cur;
        (res, \<sigma>1) \<leftarrow> cspace_resolve_slot H (cspace_root t) arg0 \<sigma>;
        (case res of
           Inl e \<Rightarrow> Some (syscall_err e, \<sigma>1)
         | Inr (cn, idx) \<Rightarrow> do {
             (st, \<sigma>2) \<leftarrow> kcnode_slot_set_guard cn idx arg1 (ucast arg2) \<sigma>1;
             \<sigma>3 \<leftarrow> drop_refs H cn \<sigma>2;
             Some (status_word st, \<sigma>3)
           })
      })"

definition sys_cnode_delete ::
    "'e hooks \<Rightarrow> ktask option \<Rightarrow> u64 \<Rightarrow> u64 \<Rightarrow> 'e kst_scheme \<Rightarrow> (u64 \<times> 'e kst_scheme) option" where
  "sys_cnode_delete H cur arg0 arg1 \<sigma> =
     (if no_root cur then Some (syscall_err IRIS_ERR_INVALID_ARG, \<sigma>)
      else do {
        t \<leftarrow> cur;
        (res, \<sigma>1) \<leftarrow>
          (if arg0 = 0 then cspace_own_root (cspace_root t) \<sigma>
           else map_option (\<lambda>(r, \<sigma>1). (case r of Inl e \<Rightarrow> Inl e | Inr (cn, _) \<Rightarrow> Inr cn, \<sigma>1))
                  (cspace_resolve_only_cnode H (self_root t) (cspace_root t) arg0 RIGHT_WRITE \<sigma>));
        (case res of
           Inl e \<Rightarrow> Some (syscall_err e, \<sigma>1)
         | Inr cn \<Rightarrow> do {
             (st, \<sigma>2) \<leftarrow> kcnode_delete H cn (unat (ucast arg1 :: u32)) \<sigma>1;
             \<sigma>3 \<leftarrow> drop_refs H cn \<sigma>2;
             Some (if st \<noteq> IRIS_OK then syscall_err st else 0, \<sigma>3)
           })
      })"

definition sys_cnode_swap ::
    "'e hooks \<Rightarrow> ktask option \<Rightarrow> u64 \<Rightarrow> u64 \<Rightarrow> u64 \<Rightarrow> 'e kst_scheme \<Rightarrow> (u64 \<times> 'e kst_scheme) option" where
  "sys_cnode_swap H cur arg0 arg1 arg2 \<sigma> =
     (let slot_a = ucast arg1 :: u32; slot_b = ucast arg2 :: u32 in
      if arg0 = 0 \<or> slot_a = slot_b then Some (syscall_err IRIS_ERR_INVALID_ARG, \<sigma>)
      else if no_root cur then Some (syscall_err IRIS_ERR_INVALID_ARG, \<sigma>)
      else do {
        t \<leftarrow> cur;
        (res, \<sigma>1) \<leftarrow> cspace_resolve_only_cnode H (self_root t) (cspace_root t) arg0 RIGHT_WRITE \<sigma>;
        (case res of
           Inl e \<Rightarrow> Some (syscall_err e, \<sigma>1)
         | Inr (cn, _) \<Rightarrow> do {
             (st, \<sigma>2) \<leftarrow> kcnode_swap cn (unat slot_a) (unat slot_b) \<sigma>1;
             \<sigma>3 \<leftarrow> drop_refs H cn \<sigma>2;
             Some (if st \<noteq> IRIS_OK then syscall_err st else 0, \<sigma>3)
           })
      })"

subsection \<open>The invocation door and the restart protocol\<close>

definition same_task ::
    "ktask option \<Rightarrow> (u64 \<times> 'e kst_scheme) option \<Rightarrow> (u64 \<times> ktask option \<times> 'e kst_scheme) option" where
  "same_task cur = map_option (\<lambda>(r, \<sigma>). (r, cur, \<sigma>))"

definition syscall_invoke ::
    "'e hooks \<Rightarrow> ktask option \<Rightarrow> cap_label \<Rightarrow> cptr \<Rightarrow> u64 \<Rightarrow> u64 \<Rightarrow> 'e kst_scheme
       \<Rightarrow> (u64 \<times> ktask option \<times> 'e kst_scheme) option" where
  "syscall_invoke H cur label c a1 a2 \<sigma> =
     (case label of
        INV_CNODE_DELETE \<Rightarrow> same_task cur (sys_cnode_delete H cur c a1 \<sigma>)
      | INV_CNODE_SWAP \<Rightarrow> same_task cur (sys_cnode_swap H cur c a1 a2 \<sigma>)
      | INV_CAP_IDENTIFY \<Rightarrow> same_task cur (sys_cap_identify H cur c \<sigma>)
      | INV_CAP_SAME_OBJECT \<Rightarrow> same_task cur (sys_cap_same_object H cur c a1 \<sigma>)
      | INV_CSPACE_MINT \<Rightarrow> same_task cur (sys_cspace_mint H cur c a1 a2 \<sigma>)
      | INV_CSPACE_MOVE \<Rightarrow> same_task cur (sys_cspace_move H cur c a1 \<sigma>)
      | INV_CSPACE_ROTATE \<Rightarrow> same_task cur (sys_cspace_rotate H cur c a1 a2 \<sigma>)
      | INV_CSPACE_REVOKE \<Rightarrow> sys_cspace_revoke H cur c \<sigma>
      | INV_CSPACE_SET_GUARD \<Rightarrow> same_task cur (sys_cspace_set_guard H cur c a1 a2 \<sigma>))"

text \<open>
  \<^verbatim>\<open>syscall_run\<close>: a call that asked for a restart parks the thread, which is the value \<open>Parked\<close>;
  the trampoline runs the same call again with \<^verbatim>\<open>sc_reentry\<close> set.
\<close>

datatype outcome = Returned u64 | Parked

definition syscall_run ::
    "'e hooks \<Rightarrow> ktask option \<Rightarrow> cap_label \<Rightarrow> cptr \<Rightarrow> u64 \<Rightarrow> u64 \<Rightarrow> 'e kst_scheme
       \<Rightarrow> (outcome \<times> ktask option \<times> 'e kst_scheme) option" where
  "syscall_run H cur label c a1 a2 \<sigma> = do {
     (r, cur1, \<sigma>1) \<leftarrow> syscall_invoke H cur label c a1 a2 \<sigma>;
     (case cur1 of
        None \<Rightarrow> Some (Returned r, None, \<sigma>1)
      | Some t \<Rightarrow> if sc_restart t = 0 then Some (Returned r, Some (t\<lparr>sc_reentry := 0\<rparr>), \<sigma>1)
                  else Some (Parked, Some (t\<lparr>sc_restart := 0, sc_reentry := 1\<rparr>), \<sigma>1))
   }"

definition syscall_dispatch ::
    "'e hooks \<Rightarrow> ktask option \<Rightarrow> cap_label \<Rightarrow> cptr \<Rightarrow> u64 \<Rightarrow> u64 \<Rightarrow> 'e kst_scheme
       \<Rightarrow> (outcome \<times> ktask option \<times> 'e kst_scheme) option" where
  "syscall_dispatch H cur label c a1 a2 \<sigma> =
     syscall_run H (map_option (\<lambda>t. t\<lparr>sc_call := Some (label, c, a1, a2), sc_restart := 0, sc_reentry := 0\<rparr>) cur)
       label c a1 a2 \<sigma>"

text \<open>The trampoline a parked call comes back through: the call is read from the thread.\<close>

definition syscall_restart_trampoline ::
    "'e hooks \<Rightarrow> ktask \<Rightarrow> 'e kst_scheme \<Rightarrow> (outcome \<times> ktask option \<times> 'e kst_scheme) option" where
  "syscall_restart_trampoline H t \<sigma> =
     (case sc_call t of None \<Rightarrow> None | Some (label, c, a1, a2) \<Rightarrow> syscall_run H (Some (t\<lparr>sc_reentry := 1\<rparr>)) label c a1 a2 \<sigma>)"

subsection \<open>A call is a sequence of kernel steps\<close>

text \<open>A step of ring 3: some thread runs, or runs again, an invocation that returns or parks.\<close>

inductive ustep :: "'e hooks \<Rightarrow> 'e kst_scheme \<Rightarrow> 'e kst_scheme \<Rightarrow> bool" for H where
  ustep_dispatch: "syscall_dispatch H cur label c a1 a2 \<sigma> = Some (out, cur', \<sigma>') \<Longrightarrow> ustep H \<sigma> \<sigma>'"
| ustep_rerun: "syscall_restart_trampoline H t \<sigma> = Some (out, cur', \<sigma>') \<Longrightarrow> ustep H \<sigma> \<sigma>'"

locale step_closed =
  fixes W :: admission and H :: "'e hooks" and P :: "'e kst_scheme \<Rightarrow> bool"
  assumes step: "kstep W H \<sigma> \<sigma>' \<Longrightarrow> P \<sigma> \<Longrightarrow> P \<sigma>'"
begin

lemma take_closed: "take_refs q \<sigma> = Some \<sigma>' \<Longrightarrow> P \<sigma> \<Longrightarrow> P \<sigma>'"
  by (auto simp: take_refs_def elim!: bindE dest: step [OF step_retain] step [OF step_active_retain])

lemma drop_closed: "drop_refs H q \<sigma> = Some \<sigma>' \<Longrightarrow> P \<sigma> \<Longrightarrow> P \<sigma>'"
  by (auto simp: drop_refs_def kobject_active_release_def kobject_release_def elim!: bindE dest: step [OF step_call])

lemma fetch_closed: "kcnode_fetch cn i \<sigma> = Some (r, \<sigma>') \<Longrightarrow> P \<sigma> \<Longrightarrow> P \<sigma>'"
  by (auto simp: fetch_alt dest: step [OF step_fetch])

lemma cap_loop_closed:
  "resolve_cap_loop d H required cur c g b \<sigma> = Some (r, \<sigma>') \<Longrightarrow> P \<sigma> \<Longrightarrow> P \<sigma>'"
proof (induction d arbitrary: cur c g b \<sigma>)
  case 0
  then show ?case by (auto elim!: bindE dest: drop_closed)
next
  case (Suc d)
  then show ?case
    by (auto simp: Let_def split: if_split_asm sum.split_asm elim!: bindE dest!: step [OF step_fetch] drop_closed)
qed

lemma slot_loop_closed: "resolve_slot_loop d H cur c \<sigma> = Some (r, \<sigma>') \<Longrightarrow> P \<sigma> \<Longrightarrow> P \<sigma>'"
proof (induction d arbitrary: cur c \<sigma>)
  case 0
  then show ?case by (auto elim!: bindE dest: drop_closed)
next
  case (Suc d)
  then show ?case
    by (auto simp: Let_def split: if_split_asm sum.split_asm elim!: bindE dest!: fetch_closed drop_closed)
qed

lemma cap_badged_closed: "cspace_resolve_cap_badged H self root c rq \<sigma> = Some (r, \<sigma>') \<Longrightarrow> P \<sigma> \<Longrightarrow> P \<sigma>'"
  by (auto simp: cspace_resolve_cap_badged_def split: if_split_asm option.split_asm prod.split_asm
      elim!: bindE dest!: take_closed cap_loop_closed)

lemma cap_closed: "cspace_resolve_cap H self root c rq \<sigma> = Some (r, \<sigma>') \<Longrightarrow> P \<sigma> \<Longrightarrow> P \<sigma>'"
  by (auto simp: cspace_resolve_cap_def dest!: cap_badged_closed)

lemma slot_closed: "cspace_resolve_slot H root c \<sigma> = Some (r, \<sigma>') \<Longrightarrow> P \<sigma> \<Longrightarrow> P \<sigma>'"
  by (auto simp: cspace_resolve_slot_def split: if_split_asm option.split_asm
      elim!: bindE dest!: take_closed slot_loop_closed)

lemma own_root_closed: "cspace_own_root root \<sigma> = Some (r, \<sigma>') \<Longrightarrow> P \<sigma> \<Longrightarrow> P \<sigma>'"
  by (auto simp: cspace_own_root_def split: option.split_asm elim!: bindE dest!: take_closed)

lemma publish_closed: "publish_dest H t c \<sigma> = Some (r, \<sigma>') \<Longrightarrow> P \<sigma> \<Longrightarrow> P \<sigma>'"
  by (auto simp: publish_dest_def cspace_resolve_cnode_for_publish_def split: if_split_asm sum.split_asm elim!: bindE dest!: own_root_closed cap_closed drop_closed)

lemma typed_closed: "resolve_typed ty H self root c rq \<sigma> = Some (r, \<sigma>') \<Longrightarrow> P \<sigma> \<Longrightarrow> P \<sigma>'"
  by (auto simp: resolve_typed_def split: if_split_asm sum.split_asm elim!: bindE dest!: cap_closed drop_closed)

lemma mint_dest_closed: "mint_dest H t c \<sigma> = Some (r, \<sigma>') \<Longrightarrow> P \<sigma> \<Longrightarrow> P \<sigma>'"
  by (auto simp: mint_dest_def cspace_resolve_cnode_def split: if_split_asm dest!: own_root_closed typed_closed)

lemma only_badged_closed:
  "resolve_only_badged True ty H self root c rq \<sigma> = Some (r, \<sigma>') \<Longrightarrow> P \<sigma> \<Longrightarrow> P \<sigma>'"
  by (auto simp: resolve_only_badged_def split: if_split_asm sum.split_asm elim!: bindE dest!: cap_badged_closed drop_closed)

lemma only_cnode_closed: "cspace_resolve_only_cnode H self root c rq \<sigma> = Some (r, \<sigma>') \<Longrightarrow> P \<sigma> \<Longrightarrow> P \<sigma>'"
  by (auto simp: cspace_resolve_only_cnode_def resolve_only_def dest!: only_badged_closed)

lemmas prim_closed = step [OF step_move] step [OF step_rotate] step [OF step_swap] step [OF step_derive]
  step [OF step_delete] step [OF step_set_guard] step [OF step_revoke]

lemmas part_closed = cap_closed slot_closed publish_closed mint_dest_closed own_root_closed only_cnode_closed
  drop_closed prim_closed

lemma move_closed: "sys_cspace_move H cur a0 a1 \<sigma> = Some (r, \<sigma>') \<Longrightarrow> P \<sigma> \<Longrightarrow> P \<sigma>'"
  by (auto simp: sys_cspace_move_def split: if_split_asm sum.split_asm elim!: bindE dest!: part_closed)

lemma rotate_closed: "sys_cspace_rotate H cur a0 a1 a2 \<sigma> = Some (r, \<sigma>') \<Longrightarrow> P \<sigma> \<Longrightarrow> P \<sigma>'"
  by (auto simp: sys_cspace_rotate_def split: if_split_asm sum.split_asm elim!: bindE dest!: part_closed)

lemma mint_closed: "sys_cspace_mint H cur a0 a1 a2 \<sigma> = Some (r, \<sigma>') \<Longrightarrow> P \<sigma> \<Longrightarrow> P \<sigma>'"
  by (auto simp: sys_cspace_mint_def split: if_split_asm sum.split_asm elim!: bindE dest!: part_closed)

lemma revoke_closed: "sys_cspace_revoke H cur a0 \<sigma> = Some (r, cur', \<sigma>') \<Longrightarrow> P \<sigma> \<Longrightarrow> P \<sigma>'"
  by (auto simp: sys_cspace_revoke_def Let_def split: if_split_asm sum.split_asm elim!: bindE dest!: part_closed)

lemma identify_closed: "sys_cap_identify H cur a0 \<sigma> = Some (r, \<sigma>') \<Longrightarrow> P \<sigma> \<Longrightarrow> P \<sigma>'"
  by (auto simp: sys_cap_identify_def split: if_split_asm sum.split_asm elim!: bindE dest!: part_closed)

lemma same_object_closed: "sys_cap_same_object H cur a0 a1 \<sigma> = Some (r, \<sigma>') \<Longrightarrow> P \<sigma> \<Longrightarrow> P \<sigma>'"
  by (auto simp: sys_cap_same_object_def split: if_split_asm sum.split_asm elim!: bindE dest!: part_closed)

lemma set_guard_closed: "sys_cspace_set_guard H cur a0 a1 a2 \<sigma> = Some (r, \<sigma>') \<Longrightarrow> P \<sigma> \<Longrightarrow> P \<sigma>'"
  by (auto simp: sys_cspace_set_guard_def split: if_split_asm sum.split_asm elim!: bindE dest!: part_closed)

lemma delete_dest_closed:
  "(if a0 = 0 then cspace_own_root root \<sigma>
    else map_option (\<lambda>(r, \<sigma>1). (case r of Inl e \<Rightarrow> Inl e | Inr (cn, _) \<Rightarrow> Inr cn, \<sigma>1))
           (cspace_resolve_only_cnode H self root a0 rq \<sigma>)) = Some (r, \<sigma>') \<Longrightarrow> P \<sigma> \<Longrightarrow> P \<sigma>'"
  by (auto split: if_split_asm dest!: own_root_closed only_cnode_closed)

lemma delete_closed: "sys_cnode_delete H cur a0 a1 \<sigma> = Some (r, \<sigma>') \<Longrightarrow> P \<sigma> \<Longrightarrow> P \<sigma>'"
  unfolding sys_cnode_delete_def kcnode_delete_def
  by (cases "no_root cur") (auto split: sum.split_asm elim!: bindE dest!: delete_dest_closed drop_closed prim_closed)

lemma swap_closed: "sys_cnode_swap H cur a0 a1 a2 \<sigma> = Some (r, \<sigma>') \<Longrightarrow> P \<sigma> \<Longrightarrow> P \<sigma>'"
  by (auto simp: sys_cnode_swap_def Let_def split: if_split_asm sum.split_asm elim!: bindE dest!: part_closed)

lemma invoke_closed: "syscall_invoke H cur l c a1 a2 \<sigma> = Some (r, cur', \<sigma>') \<Longrightarrow> P \<sigma> \<Longrightarrow> P \<sigma>'"
  by (cases l) (auto simp: syscall_invoke_def same_task_def dest: move_closed rotate_closed mint_closed revoke_closed
      identify_closed same_object_closed set_guard_closed delete_closed swap_closed)

lemma run_closed: "syscall_run H cur l c a1 a2 \<sigma> = Some (r, cur', \<sigma>') \<Longrightarrow> P \<sigma> \<Longrightarrow> P \<sigma>'"
  by (auto simp: syscall_run_def split: option.split_asm if_split_asm elim!: bindE dest: invoke_closed)

end

interpretation reach: step_closed W H "(kstep W H)\<^sup>*\<^sup>* \<sigma>0" for W H \<sigma>0
  by unfold_locales auto

lemma ustep_reach: "ustep H \<sigma> \<sigma>' \<Longrightarrow> (kstep W H)\<^sup>*\<^sup>* \<sigma> \<sigma>'"
  by (erule ustep.cases) (auto simp: syscall_dispatch_def syscall_restart_trampoline_def split: option.split_asm intro: reach.run_closed)

lemma usteps_reach: "(ustep H)\<^sup>*\<^sup>* \<sigma> \<sigma>' \<Longrightarrow> (kstep W H)\<^sup>*\<^sup>* \<sigma> \<sigma>'"
  by (induction rule: rtranclp_induct) (auto intro: rtranclp_trans ustep_reach)

text \<open>Reading an object's type gives back both references of the walk.\<close>

lemma identify_spec:
  assumes "named_live \<sigma>" "live \<sigma> r" "cspace_root t = Some r"
  shows "sys_cap_identify H (Some t) c \<sigma> =
    Some (if cspace_only_cptr c
          then case walk_path (self_root t) \<sigma> r c of
                 Inl e \<Rightarrow> syscall_err e
               | Inr p \<Rightarrow> kobject_type_code (the (type_of \<sigma> (the (s_object (slots \<sigma> (Slot (fst (last p)) (snd (last p))))))))
          else syscall_err IRIS_ERR_INVALID_ARG, \<sigma>)"
proof (cases "cspace_only_cptr c")
  case cp: True
  note r = resolve_cap_spec [OF assms(1,2), of H "self_root t" c RIGHT_NONE]
  show ?thesis
  proof (cases "walk_path (self_root t) \<sigma> r c")
    case (Inl e)
    then show ?thesis using cp r assms(3) by (simp add: sys_cap_identify_def cspace_resolve_cap_def no_root_def cap_result_def)
  next
    case (Inr p)
    obtain q where q: "s_object (slots \<sigma> (Slot (fst (last p)) (snd (last p)))) = Some q" using Inr cs_path_end
      by (fastforce simp: walk_path_def split: if_splits prod.splits)
    then have l: "live \<sigma> q" using assms(1) by (simp add: named_live_def)
    obtain k where k: "objs (bump q \<sigma>) q = Some k" using bump_some [OF l] by blast
    then have "type_of \<sigma> q = Some (ko_type k)" using l by (auto simp: type_of_def live_def bump_def put_obj_def)
    then show ?thesis using cp r assms(3) Inr q k drop_refs_bump [OF l]
      by (simp add: sys_cap_identify_def cspace_resolve_cap_def no_root_def cap_result_def Let_def syscall_ok_u64_def)
  qed
qed (simp add: sys_cap_identify_def no_root_def assms(3))

end
