(* ===== verification/Iris_Sample.thy ===== *)
theory Iris_Sample
  imports Iris_Syscalls
begin

text \<open>
  A small system the examples of the development run on: two CNodes of four slots and an
  endpoint, first with every slot empty, then with the endpoint's capability installed in a
  slot and a badged read-only copy derived from it.  \<open>tree\<close> is a CSpace of two levels, with the
  guard of the inner level as its argument, and \<open>task0\<close> a thread whose root it is.
\<close>

definition no_hooks :: "unit hooks" where
  "no_hooks = (\<lambda>_ _ _ e. ([], e))"

definition zero_counters :: mdb_counters where
  "zero_counters = \<lparr>cdt_derivation_count = 0, cdt_derivation_hwm = 0, cdt_derived_live = 0,
     cdt_revoke_count = 0, cdt_delete_count = 0, cdt_cross_cnode_desc = 0, cdt_ipc_transfer_count = 0,
     mdb_nodes_live = 0, mdb_nodes_hwm = 0, mdb_unparented_roots = 0, mdb_boot_roots = 0,
     mdb_orphan_promotions = 0, mdb_reparents = 0, mdb_revoked_nodes = 0, mdb_moves = 0, mdb_max_depth = 0\<rparr>"

definition new_obj :: "kobject_type \<Rightarrow> nat \<Rightarrow> kobj" where
  "new_obj ty n = \<lparr>ko_type = ty, ko_refcount = 1, ko_active = 1, ko_ut_block_bytes = 0, ko_block_parent = None,
     ko_destroy_next = NotQueued, ko_slot_count = n, ko_child_count = 0, ko_alloc_parent = None, ko_hdr_budget = None\<rparr>"

definition boot0 :: kst where
  "boot0 = \<lparr>slots = \<lambda>_. empty_slot, ctr = zero_counters,
     objs = [10 \<mapsto> new_obj KOBJ_CNODE 4, 20 \<mapsto> new_obj KOBJ_ENDPOINT 0, 30 \<mapsto> new_obj KOBJ_CNODE 4],
     cascade_head = None, cascade_running = False, kcnode_live = 2, kuntyped_live = 0\<rparr>"

definition RWD :: iris_rights where
  "RWD = RIGHT_READ OR RIGHT_WRITE OR RIGHT_DUPLICATE"

definition boot1 :: kst where
  "boot1 = snd (the (kcnode_slot_install_linked no_hooks 10 2 20 RWD 0 None None True True boot0))"

definition boot2 :: kst where
  "boot2 = snd (the (kcnode_slot_derive no_hooks 10 2 10 3 RIGHT_READ 5 boot1))"

definition plain_slot :: "oid \<Rightarrow> iris_rights \<Rightarrow> u64 \<Rightarrow> oid \<Rightarrow> kcslot" where
  "plain_slot q rights badge cn = empty_slot\<lparr>s_object := Some q, s_rights := rights, s_badge := badge, mdb_cnode := Some cn\<rparr>"

definition tree :: "u64 \<Rightarrow> u8 \<Rightarrow> kst" where
  "tree g b = boot0\<lparr>slots := (\<lambda>_. empty_slot)
     (Slot 10 2 := (plain_slot 30 RWD 0 10)\<lparr>s_guard := g, s_guard_bits := b\<rparr>, Slot 30 3 := plain_slot 20 RIGHT_READ 5 30)\<rparr>"

text \<open>A CNode with a slot that names the CNode itself, beside a capability to the endpoint.\<close>

definition self_named :: kst where
  "self_named = snd (the (kcnode_slot_install_linked no_hooks 10 2 10 RWD 0 None None True True
     (snd (the (kcnode_slot_install_linked no_hooks 10 3 20 RWD 0 None None True True boot0)))))"

definition task0 :: ktask where
  "task0 = \<lparr>cspace_root = Some 10, cspace_root_guard = 0, cspace_root_guard_bits = 0, sc_restart = 0, sc_reentry = 0,
     sc_acc = 0, sc_restart_count = 0, sc_call = None\<rparr>"

subsection \<open>Evaluation\<close>

lemma walk_code [code]:
  "walk nx None = Some []"
  "walk nx (Some x) = Option.bind (walk nx (nx x)) (\<lambda>xs. Some (x # xs))"
  by (subst walk.simps, simp)+

lemma drop_old_code [code]:
  "kcnode_slot_drop_old H cn old \<sigma> =
     (case old of None \<Rightarrow> Some \<sigma> | Some q \<Rightarrow> krun H (CDropOld cn (Some q)) \<sigma>)"
  by (simp add: kcnode_slot_drop_old_def krun_unfold drop_old_with_def split: option.split)

lemmas [code] = krun_unfold revoke_loop.simps leftmost_leaf.simps relink_loop.simps reparent_loop.simps
  promote_loop.simps

lemma result_eq: "map_option fst x = Some st \<Longrightarrow> x = Some (st, snd (the x))"
  by (cases x) auto

lemma boot1_run: "kcnode_slot_install_linked no_hooks 10 2 20 RWD 0 None None True True boot0 = Some (IRIS_OK, boot1)"
  unfolding boot1_def by (rule result_eq) code_simp

lemma boot2_run: "kcnode_slot_derive no_hooks 10 2 10 3 RIGHT_READ 5 boot1 = Some (IRIS_OK, boot2)"
  unfolding boot2_def by (rule result_eq) code_simp

lemma boot2_slots:
  "slots boot2 (Slot 10 2) = \<lparr>s_object = Some 20, s_rights = RWD, s_badge = 0, mdb_parent = None,
     mdb_first_child = Some (Slot 10 3), mdb_next_sib = None, mdb_prev_sib = None, mdb_cnode = Some 10,
     mdb_flags = MDB_FLAG_UNPARENTED, s_guard = 0, s_guard_bits = 0\<rparr>"
  "slots boot2 (Slot 10 3) = \<lparr>s_object = Some 20, s_rights = RIGHT_READ, s_badge = 5, mdb_parent = Some (Slot 10 2),
     mdb_first_child = None, mdb_next_sib = None, mdb_prev_sib = None, mdb_cnode = Some 10,
     mdb_flags = 0, s_guard = 0, s_guard_bits = 0\<rparr>"
  by code_simp+

subsection \<open>The sample states are well formed\<close>

lemma empty_nodes:
  assumes "\<And>s. slots \<sigma> s = empty_slot"
  shows "node \<sigma> = (\<lambda>_. False)" "derived_set \<sigma> = {}" "unparented_set \<sigma> = {}"
  using assms by (auto simp: node_def derived_set_def unparented_set_def fun_eq_iff)

lemma empty_rep:
  assumes "\<And>s. slots \<sigma> s = empty_slot"
  shows "mdb_rep \<sigma> (\<lambda>_. [])"
  using assms empty_nodes(1) [OF assms] by (auto simp: mdb_rep_def forest_def acyclic_def parent_rel_def)

lemma boot0_wf: "mdb_wf boot0" "gauges_ok boot0" "linked_wf boot0"
proof -
  have e: "slots boot0 s = empty_slot" for s by (simp add: boot0_def)
  show "mdb_wf boot0" using empty_rep [of boot0] e by (auto simp: mdb_wf_def slots_ok_def slot_ok_empty)
  show "linked_wf boot0" using empty_rep [of boot0] e
    by (auto simp: linked_wf_def slots_ok_def slot_ok_empty connected_def same_obj_def)
  show "gauges_ok boot0"
    unfolding gauges_ok_def empty_nodes [OF e] by (simp add: boot0_def zero_counters_def)
qed

text \<open>The two installs are steps of the system.\<close>

lemma boot_steps: "kstep links_up no_hooks boot0 boot1" "kstep W no_hooks boot1 boot2"
proof -
  have "links_up (slots boot0) None 20 (RWD, 0)" by (simp add: links_up_def boot0_def)
  then show "kstep links_up no_hooks boot0 boot1" by (rule step_install [OF _ _ boot1_run]) simp
  show "kstep W no_hooks boot1 boot2" by (rule step_derive [OF boot2_run])
qed

lemma boot_reach: "(kstep links_up no_hooks)\<^sup>*\<^sup>* boot0 boot2"
  using boot_steps by (meson converse_rtranclp_into_rtranclp r_into_rtranclp)

lemma boot2_wf: "mdb_wf boot2" "gauges_ok boot2" "linked_wf boot2"
  using sg.reach_keeps [OF boot_reach] sl.reach_keeps [OF boot_reach] boot0_wf by blast+

lemma boot1_wf: "mdb_wf boot1" "gauges_ok boot1" "linked_wf boot1"
  using sg.kstep_keeps [OF boot_steps(1)] sl.kstep_keeps [OF boot_steps(1)] boot0_wf by blast+

lemma tree_live: "named_live (tree g b)" "live (tree g b) 10"
  by (auto simp: named_live_def live_def live_count_def tree_def boot0_def new_obj_def plain_slot_def empty_slot_def
      split: if_split_asm)

lemma tree_sized: "cnodes_sized (tree g b)"
proof -
  have "power_of_two 4" by code_simp
  then show ?thesis
    by (auto simp: cnodes_sized_def is_cnode_def slots_of_def tree_def boot0_def new_obj_def KCNODE_MAX_SLOTS_def)
qed

end
