(* ===== verification/Iris_Untyped.thy ===== *)
theory Iris_Untyped
  imports Iris_Lifecycle
begin

text \<open>
  Untyped memory: \<^verbatim>\<open>kernel/new_core/src/kuntyped.c\<close>.  A region is carved from both ends by two
  watermarks; the first group of definitions are the carves on a region alone, the second group
  the functions of the file on the kernel state, with the child count and the reference each
  carve takes.  A pointer into a region is its physical address.  The state extends the one of
  the object lifecycle by the regions, physical memory, the parent pointers written at the head
  of child blocks, and the counters.
\<close>

definition KUNTYPED_ALIGN :: u64 where "KUNTYPED_ALIGN = 64"
definition KUNTYPED_RETYPE_MAX_COUNT :: u32 where "KUNTYPED_RETYPE_MAX_COUNT = 32"
definition KUNTYPED_RETYPE_MAX_BYTES :: u64 where "KUNTYPED_RETYPE_MAX_BYTES = 128 * 1024"

record region =
  phys_base :: u64
  total_size :: u64
  used :: u64
  used_top :: u64
  is_device :: bool
  generation :: u64

record kuntyped_stats =
  s1_retype_count :: u64
  s1_retype_failures :: u64
  s1_reset_count :: u64
  s1_reclaimed_bytes :: u64
  s1_reuse_count :: u64
  s1_overlap_denials :: u64

subsection \<open>Carves of a region\<close>

definition align_up :: "u64 \<Rightarrow> u64" where
  "align_up n = (n + KUNTYPED_ALIGN - 1) AND NOT (KUNTYPED_ALIGN - 1)"

definition no_room :: "region \<Rightarrow> u64 \<Rightarrow> bool" where
  "no_room r need \<longleftrightarrow> used r > total_size r \<or> used_top r > total_size r - used r \<or>
     need > total_size r - used r - used_top r"

definition region_bump :: "region \<Rightarrow> u64 \<Rightarrow> u64 \<times> region" where
  "region_bump r bytes =
     (if bytes > - 1 - (KUNTYPED_ALIGN - 1) then (- 1, r)
      else if no_room r (align_up bytes) then (- 1, r)
      else (used r, r\<lparr>used := used r + align_up bytes\<rparr>))"

text \<open>The carve from the top; the outer None is a failed assertion.\<close>

definition region_top :: "region \<Rightarrow> u64 \<Rightarrow> (u64 option \<times> region) option" where
  "region_top r obj_bytes =
     (if is_device r then Some (None, r)
      else if obj_bytes > - 1 - (KUNTYPED_ALIGN - 1) then Some (None, r)
      else if KUNTYPED_ALIGN + align_up obj_bytes < align_up obj_bytes then Some (None, r)
      else if no_room r (KUNTYPED_ALIGN + align_up obj_bytes) then Some (None, r)
      else let r1 = r\<lparr>used_top := used_top r + (KUNTYPED_ALIGN + align_up obj_bytes)\<rparr>;
               offset = total_size r1 - used_top r1 in
        if \<not> (used r1 + used_top r1 \<le> total_size r1) then None
        else if \<not> (offset \<ge> used r1) then None
        else Some (Some offset, r1))"

text \<open>The page-aligned carve, aligned on the absolute address; 0 is the refusal.\<close>

definition region_page :: "region \<Rightarrow> u64 \<Rightarrow> u64 \<times> region" where
  "region_page r sz =
     (if sz = 0 \<or> sz AND 0xFFF \<noteq> 0 then (0, r)
      else let abs_start = phys_base r + used r;
               aligned_abs = (abs_start + 0xFFF) AND NOT 0xFFF;
               aligned_start = aligned_abs - phys_base r in
        if aligned_abs < abs_start \<or> aligned_start < used r then (0, r)
        else if aligned_start > total_size r then (0, r)
        else let room = total_size r - aligned_start in
          if used_top r > room \<or> sz > room - used_top r then (0, r)
          else (aligned_abs, r\<lparr>used := aligned_start + sz\<rparr>))"

text \<open>The batch: the start and the end of the window and the size of a block, or the refusal.\<close>

definition region_batch :: "region \<Rightarrow> u64 \<Rightarrow> u32 \<Rightarrow> (iris_status + u64 \<times> u64 \<times> u64) \<times> region" where
  "region_batch r obj_bytes count =
     (let aligned_obj = align_up obj_bytes; block = KUNTYPED_ALIGN + aligned_obj; total = block * ucast count in
      if obj_bytes = 0 \<or> count = 0 then (Inl IRIS_ERR_INVALID_ARG, r)
      else if count > KUNTYPED_RETYPE_MAX_COUNT then (Inl IRIS_ERR_INVALID_ARG, r)
      else if is_device r then (Inl IRIS_ERR_NOT_SUPPORTED, r)
      else if block < aligned_obj then (Inl IRIS_ERR_OVERFLOW, r)
      else if total div block \<noteq> ucast count then (Inl IRIS_ERR_OVERFLOW, r)
      else if total > KUNTYPED_RETYPE_MAX_BYTES then (Inl IRIS_ERR_INVALID_ARG, r)
      else if no_room r total then (Inl IRIS_ERR_NO_MEMORY, r)
      else (Inr (used r, used r + total, block), r\<lparr>used := used r + total\<rparr>))"

definition region_unbump :: "region \<Rightarrow> u64 \<Rightarrow> u64 \<Rightarrow> region" where
  "region_unbump r start_used end_used =
     (if end_used \<le> start_used then r
      else if used r = end_used then r\<lparr>used := start_used\<rparr> else r)"

definition region_available :: "region \<Rightarrow> u64" where
  "region_available r = total_size r - used r - used_top r"

text \<open>The effect of \<^verbatim>\<open>SYS_UNTYPED_RESET\<close> on a region with no children.\<close>

definition region_reset :: "region \<Rightarrow> region" where
  "region_reset r = r\<lparr>used := 0, used_top := 0, generation := generation r + 1\<rparr>"

subsection \<open>The kernel state with regions\<close>

record ust = kst +
  regions :: "oid \<Rightarrow> region option"
  phys_mem :: "u64 \<Rightarrow> u8"
  blk_parent :: "u64 \<Rightarrow> oid option"
  ut_stats :: kuntyped_stats

definition put_region :: "oid \<Rightarrow> region \<Rightarrow> 'z ust_scheme \<Rightarrow> 'z ust_scheme" where
  "put_region u r \<sigma> = \<sigma>\<lparr>regions := (regions \<sigma>)(u \<mapsto> r)\<rparr>"

text \<open>\<^verbatim>\<open>for (i = 0; i < n; i++) p[i] = 0\<close>\<close>

definition zero_fill :: "u64 \<Rightarrow> u64 \<Rightarrow> 'z ust_scheme \<Rightarrow> 'z ust_scheme" where
  "zero_fill a n \<sigma> = \<sigma>\<lparr>phys_mem := (\<lambda>x. if x - a < n then 0 else phys_mem \<sigma> x),
     blk_parent := (\<lambda>x. if x - a < n then None else blk_parent \<sigma> x)\<rparr>"

definition set_parent :: "u64 \<Rightarrow> oid \<Rightarrow> 'z ust_scheme \<Rightarrow> 'z ust_scheme" where
  "set_parent blk u \<sigma> = \<sigma>\<lparr>blk_parent := (blk_parent \<sigma>)(blk \<mapsto> u)\<rparr>"

definition add_children :: "oid \<Rightarrow> u32 \<Rightarrow> 'e kst_scheme \<Rightarrow> 'e kst_scheme option" where
  "add_children u n \<sigma> = do {
     k \<leftarrow> objs \<sigma> u;
     Some (put_obj u (k\<lparr>ko_child_count := ko_child_count k + n\<rparr>) \<sigma>)
   }"

definition sub_child :: "oid \<Rightarrow> 'e kst_scheme \<Rightarrow> 'e kst_scheme option" where
  "sub_child u \<sigma> = do {
     k \<leftarrow> objs \<sigma> u;
     Some (put_obj u (k\<lparr>ko_child_count := ko_child_count k - 1\<rparr>) \<sigma>)
   }"

definition adopt_child :: "oid \<Rightarrow> 'e kst_scheme \<Rightarrow> 'e kst_scheme option" where
  "adopt_child u \<sigma> = do { \<sigma>1 \<leftarrow> kobject_retain u \<sigma>; add_children u 1 \<sigma>1 }"

subsection \<open>Counters\<close>

definition kuntyped_stats_get :: "'z ust_scheme \<Rightarrow> kuntyped_stats" where
  "kuntyped_stats_get \<sigma> = ut_stats \<sigma>"

definition kuntyped_stat_retype :: "u64 \<Rightarrow> 'z ust_scheme \<Rightarrow> 'z ust_scheme" where
  "kuntyped_stat_retype n \<sigma> = \<sigma>\<lparr>ut_stats := (ut_stats \<sigma>)\<lparr>s1_retype_count := s1_retype_count (ut_stats \<sigma>) + n\<rparr>\<rparr>"

definition kuntyped_stat_retype_failure :: "'z ust_scheme \<Rightarrow> 'z ust_scheme" where
  "kuntyped_stat_retype_failure \<sigma> =
     \<sigma>\<lparr>ut_stats := (ut_stats \<sigma>)\<lparr>s1_retype_failures := s1_retype_failures (ut_stats \<sigma>) + 1\<rparr>\<rparr>"

definition kuntyped_stat_overlap_denial :: "'z ust_scheme \<Rightarrow> 'z ust_scheme" where
  "kuntyped_stat_overlap_denial \<sigma> =
     \<sigma>\<lparr>ut_stats := (ut_stats \<sigma>)\<lparr>s1_overlap_denials := s1_overlap_denials (ut_stats \<sigma>) + 1\<rparr>\<rparr>"

definition kuntyped_stat_reset :: "u64 \<Rightarrow> bool \<Rightarrow> 'z ust_scheme \<Rightarrow> 'z ust_scheme" where
  "kuntyped_stat_reset reclaimed was_used \<sigma> =
     \<sigma>\<lparr>ut_stats := (ut_stats \<sigma>)\<lparr>s1_reset_count := s1_reset_count (ut_stats \<sigma>) + 1,
       s1_reclaimed_bytes := s1_reclaimed_bytes (ut_stats \<sigma>) + reclaimed,
       s1_reuse_count := (if was_used then s1_reuse_count (ut_stats \<sigma>) + 1 else s1_reuse_count (ut_stats \<sigma>))\<rparr>\<rparr>"

subsection \<open>Creation\<close>

definition fresh_region :: "u64 \<Rightarrow> u64 \<Rightarrow> bool \<Rightarrow> region" where
  "fresh_region base sz dev =
     \<lparr>phys_base = base, total_size = sz, used = 0, used_top = 0, is_device = dev, generation = 0\<rparr>"

text \<open>\<open>bytes\<close> is \<^verbatim>\<open>sizeof(struct KUntyped)\<close> and \<open>pool\<close> the parent written at the head of the block.\<close>

definition kuntyped_create_at ::
    "oid \<Rightarrow> u32 \<Rightarrow> oid \<Rightarrow> u64 \<Rightarrow> u64 \<Rightarrow> bool \<Rightarrow> 'z ust_scheme \<Rightarrow> 'z ust_scheme option" where
  "kuntyped_create_at new bytes pool base sz dev \<sigma> =
     (if sz = 0 then None
      else Some (put_region new (fresh_region base sz dev)
             ((kobject_init_in_untyped new KOBJ_UNTYPED 0 bytes pool \<sigma>)\<lparr>kuntyped_live := kuntyped_live \<sigma> + 1\<rparr>)))"

definition kuntyped_create :: "bool \<Rightarrow> oid \<Rightarrow> u64 \<Rightarrow> u64 \<Rightarrow> bool \<Rightarrow> 'z ust_scheme \<Rightarrow> 'z ust_scheme option" where
  "kuntyped_create avail new base sz dev \<sigma> =
     (if sz = 0 then None
      else if \<not> avail then None
      else Some (put_region new (fresh_region base sz dev)
             ((kobject_init new KOBJ_UNTYPED 0 \<sigma>)\<lparr>kuntyped_live := kuntyped_live \<sigma> + 1\<rparr>)))"

definition kuntyped_destroy_ref :: "'z ust_ext hooks \<Rightarrow> oid option \<Rightarrow> 'z ust_scheme \<Rightarrow> 'z ust_scheme option" where
  "kuntyped_destroy_ref H u \<sigma> = (case u of None \<Rightarrow> Some \<sigma> | Some x \<Rightarrow> kobject_release H x \<sigma>)"

subsection \<open>Carving\<close>

definition kuntyped_bump :: "oid \<Rightarrow> u64 \<Rightarrow> 'z ust_scheme \<Rightarrow> (u64 \<times> 'z ust_scheme) option" where
  "kuntyped_bump u bytes \<sigma> = do {
     r \<leftarrow> regions \<sigma> u;
     let (offset, r1) = region_bump r bytes;
     Some (offset, put_region u r1 \<sigma>)
   }"

definition kuntyped_bump_alloc :: "oid \<Rightarrow> u64 \<Rightarrow> 'z ust_scheme \<Rightarrow> (u64 option \<times> 'z ust_scheme) option" where
  "kuntyped_bump_alloc u bytes \<sigma> =
     (if bytes = 0 then Some (None, \<sigma>)
      else do {
        (offset, \<sigma>1) \<leftarrow> kuntyped_bump u bytes \<sigma>;
        if offset = - 1 then Some (None, \<sigma>1)
        else do {
          r \<leftarrow> regions \<sigma>1 u;
          let virt = phys_base r + offset;
          Some (Some virt, if is_device r then \<sigma>1 else zero_fill virt (align_up bytes) \<sigma>1)
        }
      })"

definition kuntyped_bump_alloc_phys :: "oid \<Rightarrow> u64 \<Rightarrow> 'z ust_scheme \<Rightarrow> (u64 \<times> 'z ust_scheme) option" where
  "kuntyped_bump_alloc_phys u bytes \<sigma> =
     (if bytes = 0 then Some (0, \<sigma>)
      else do {
        (offset, \<sigma>1) \<leftarrow> kuntyped_bump u bytes \<sigma>;
        if offset = - 1 then Some (0, \<sigma>1)
        else do { r \<leftarrow> regions \<sigma>1 u; Some (phys_base r + offset, \<sigma>1) }
      })"

definition kuntyped_alloc_child :: "oid \<Rightarrow> u64 \<Rightarrow> 'z ust_scheme \<Rightarrow> (u64 option \<times> 'z ust_scheme) option" where
  "kuntyped_alloc_child u obj_bytes \<sigma> =
     (if obj_bytes = 0 then Some (None, \<sigma>)
      else do {
        (block, \<sigma>1) \<leftarrow> kuntyped_bump_alloc u (KUNTYPED_ALIGN + obj_bytes) \<sigma>;
        (case block of
           None \<Rightarrow> Some (None, \<sigma>1)
         | Some b \<Rightarrow> do {
             \<sigma>2 \<leftarrow> adopt_child u (set_parent b u \<sigma>1);
             Some (Some (b + KUNTYPED_ALIGN), \<sigma>2)
           })
      })"

definition kuntyped_alloc_child_top :: "oid \<Rightarrow> u64 \<Rightarrow> 'z ust_scheme \<Rightarrow> (u64 option \<times> 'z ust_scheme) option" where
  "kuntyped_alloc_child_top u obj_bytes \<sigma> =
     (if obj_bytes = 0 then Some (None, \<sigma>)
      else do {
        r \<leftarrow> regions \<sigma> u;
        (offset, r1) \<leftarrow> region_top r obj_bytes;
        (case offset of
           None \<Rightarrow> Some (None, \<sigma>)
         | Some off \<Rightarrow> do {
             let block = phys_base r + off;
             \<sigma>1 \<leftarrow> adopt_child u (set_parent block u
                     (zero_fill block (KUNTYPED_ALIGN + align_up obj_bytes) (put_region u r1 \<sigma>)));
             Some (Some (block + KUNTYPED_ALIGN), \<sigma>1)
           })
      })"

definition kuntyped_bump_alloc_phys_page :: "oid \<Rightarrow> u64 \<Rightarrow> 'z ust_scheme \<Rightarrow> (u64 \<times> 'z ust_scheme) option" where
  "kuntyped_bump_alloc_phys_page u sz \<sigma> = do {
     r \<leftarrow> regions \<sigma> u;
     let (p, r1) = region_page r sz;
     let \<sigma>1 = put_region u r1 \<sigma>;
     Some (p, if r1 = r \<or> is_device r then \<sigma>1 else zero_fill p sz \<sigma>1)
   }"

definition kuntyped_alloc_page_child :: "oid \<Rightarrow> 'z ust_scheme \<Rightarrow> (u64 \<times> 'z ust_scheme) option" where
  "kuntyped_alloc_page_child u \<sigma> = do {
     (p, \<sigma>1) \<leftarrow> kuntyped_bump_alloc_phys_page u 4096 \<sigma>;
     if p = 0 then Some (0, \<sigma>1)
     else do { \<sigma>2 \<leftarrow> adopt_child u \<sigma>1; Some (p, \<sigma>2) }
   }"

definition kuntyped_alloc_pages_child :: "oid \<Rightarrow> u64 \<Rightarrow> 'z ust_scheme \<Rightarrow> (u64 \<times> 'z ust_scheme) option" where
  "kuntyped_alloc_pages_child u bytes \<sigma> =
     (if bytes = 0 \<or> bytes AND 0xFFF \<noteq> 0 then Some (0, \<sigma>)
      else do {
        (p, \<sigma>1) \<leftarrow> kuntyped_bump_alloc_phys_page u bytes \<sigma>;
        if p = 0 then Some (0, \<sigma>1)
        else do { \<sigma>2 \<leftarrow> adopt_child u \<sigma>1; Some (p, \<sigma>2) }
      })"

definition kuntyped_release_page_child :: "'z ust_ext hooks \<Rightarrow> oid \<Rightarrow> 'z ust_scheme \<Rightarrow> 'z ust_scheme option" where
  "kuntyped_release_page_child H u \<sigma> = do { \<sigma>1 \<leftarrow> sub_child u \<sigma>; kobject_release H u \<sigma>1 }"

definition kuntyped_child_parent :: "u64 \<Rightarrow> 'z ust_scheme \<Rightarrow> oid option" where
  "kuntyped_child_parent obj_ptr \<sigma> = blk_parent \<sigma> (obj_ptr - KUNTYPED_ALIGN)"

definition kuntyped_release_child ::
    "'z ust_ext hooks \<Rightarrow> u64 \<Rightarrow> u64 \<Rightarrow> 'z ust_scheme \<Rightarrow> 'z ust_scheme option" where
  "kuntyped_release_child H obj_ptr obj_bytes \<sigma> = do {
     let block = obj_ptr - KUNTYPED_ALIGN;
     let \<sigma>1 = zero_fill block (KUNTYPED_ALIGN + align_up obj_bytes) \<sigma>;
     (case blk_parent \<sigma> block of
        None \<Rightarrow> Some \<sigma>1
      | Some parent \<Rightarrow> do { \<sigma>2 \<leftarrow> sub_child parent \<sigma>1; kobject_release H parent \<sigma>2 })
   }"

primrec retain_times :: "nat \<Rightarrow> oid \<Rightarrow> 'e kst_scheme \<Rightarrow> 'e kst_scheme option" where
  "retain_times 0 u \<sigma> = Some \<sigma>"
| "retain_times (Suc n) u \<sigma> = do { \<sigma>1 \<leftarrow> kobject_retain u \<sigma>; retain_times n u \<sigma>1 }"

definition batch_block :: "oid \<Rightarrow> u64 \<Rightarrow> u64 \<Rightarrow> 'z ust_scheme \<Rightarrow> 'z ust_scheme" where
  "batch_block u block blk \<sigma> = set_parent blk u (zero_fill blk block \<sigma>)"

definition kuntyped_alloc_children_atomic ::
    "oid \<Rightarrow> u64 \<Rightarrow> u32 \<Rightarrow> 'z ust_scheme
       \<Rightarrow> ((iris_status + u64 list \<times> u64 \<times> u64) \<times> 'z ust_scheme) option" where
  "kuntyped_alloc_children_atomic u obj_bytes count \<sigma> = do {
     r \<leftarrow> regions \<sigma> u;
     let (res, r1) = region_batch r obj_bytes count;
     (case res of
        Inl e \<Rightarrow> Some (Inl e, \<sigma>)
      | Inr (start, stop, block) \<Rightarrow> do {
          let blks = map (\<lambda>i. phys_base r + start + of_nat i * block) [0..<unat count];
          \<sigma>1 \<leftarrow> add_children u count (fold (batch_block u block) blks (put_region u r1 \<sigma>));
          \<sigma>2 \<leftarrow> retain_times (unat count) u \<sigma>1;
          Some (Inr (map (\<lambda>b. b + KUNTYPED_ALIGN) blks, start, stop), \<sigma>2)
        })
   }"

definition kuntyped_unbump_exact :: "oid \<Rightarrow> u64 \<Rightarrow> u64 \<Rightarrow> 'z ust_scheme \<Rightarrow> 'z ust_scheme option" where
  "kuntyped_unbump_exact u start_used end_used \<sigma> = do {
     r \<leftarrow> regions \<sigma> u;
     Some (put_region u (region_unbump r start_used end_used) \<sigma>)
   }"

definition kuntyped_set_hdr_budget :: "oid \<Rightarrow> oid \<Rightarrow> 'z ust_scheme \<Rightarrow> (iris_status \<times> 'z ust_scheme) option" where
  "kuntyped_set_hdr_budget dev ram \<sigma> = do {
     rd \<leftarrow> regions \<sigma> dev;
     rr \<leftarrow> regions \<sigma> ram;
     if \<not> is_device rd then Some (IRIS_ERR_INVALID_ARG, \<sigma>)
     else if is_device rr then Some (IRIS_ERR_INVALID_ARG, \<sigma>)
     else if dev = ram then Some (IRIS_ERR_INVALID_ARG, \<sigma>)
     else do {
       kd \<leftarrow> objs \<sigma> dev;
       if ko_hdr_budget kd \<noteq> None then Some (IRIS_ERR_ALREADY_EXISTS, \<sigma>)
       else do {
         \<sigma>1 \<leftarrow> kobject_retain ram \<sigma>;
         Some (IRIS_OK, put_obj dev (kd\<lparr>ko_hdr_budget := Some ram\<rparr>) \<sigma>1)
       }
     }
   }"

definition kuntyped_available :: "oid \<Rightarrow> 'z ust_scheme \<Rightarrow> u64 option" where
  "kuntyped_available u \<sigma> = map_option region_available (regions \<sigma> u)"

text \<open>The part of \<^verbatim>\<open>sys_untyped_reset\<close> under the region's lock: the bytes reclaimed, or busy.\<close>

definition untyped_reset_locked :: "oid \<Rightarrow> 'z ust_scheme \<Rightarrow> ((iris_status + u64) \<times> 'z ust_scheme) option" where
  "untyped_reset_locked u \<sigma> = do {
     r \<leftarrow> regions \<sigma> u;
     k \<leftarrow> objs \<sigma> u;
     if ko_child_count k \<noteq> 0 then Some (Inl IRIS_ERR_BUSY, \<sigma>)
     else Some (Inr (used r + used_top r), put_region u (region_reset r) \<sigma>)
   }"

text \<open>A region of 64 KiB at 1 MiB, and a state that holds it as object 5.\<close>

definition sample_region :: region where
  "sample_region = fresh_region 0x100000 0x10000 False"

definition sample_ust :: ust where
  "sample_ust = \<lparr>slots = \<lambda>_. empty_slot, ctr = \<lparr>cdt_derivation_count = 0, cdt_derivation_hwm = 0,
     cdt_derived_live = 0, cdt_revoke_count = 0, cdt_delete_count = 0, cdt_cross_cnode_desc = 0, cdt_ipc_transfer_count = 0,
     mdb_nodes_live = 0, mdb_nodes_hwm = 0, mdb_unparented_roots = 0, mdb_boot_roots = 0, mdb_orphan_promotions = 0,
     mdb_reparents = 0, mdb_revoked_nodes = 0, mdb_moves = 0, mdb_max_depth = 0\<rparr>,
     objs = [5 \<mapsto> \<lparr>ko_type = KOBJ_UNTYPED, ko_refcount = 1, ko_active = 1, ko_ut_block_bytes = 0, ko_block_parent = None,
       ko_destroy_next = NotQueued, ko_slot_count = 0, ko_child_count = 0, ko_alloc_parent = None, ko_hdr_budget = None\<rparr>],
     cascade_head = None, cascade_running = False, kcnode_live = 0, kuntyped_live = 1,
     regions = [5 \<mapsto> sample_region], phys_mem = \<lambda>_. 0xAA, blk_parent = \<lambda>_. None,
     ut_stats = \<lparr>s1_retype_count = 0, s1_retype_failures = 0, s1_reset_count = 0, s1_reclaimed_bytes = 0,
       s1_reuse_count = 0, s1_overlap_denials = 0\<rparr>\<rparr>"

subsection \<open>Both ends stay inside the region\<close>

text \<open>The watermarks as natural numbers.\<close>

definition region_ok :: "region \<Rightarrow> bool" where
  "region_ok r \<longleftrightarrow> unat (used r) + unat (used_top r) \<le> unat (total_size r) \<and>
     unat (phys_base r) + unat (total_size r) < 2 ^ 64"

lemma no_room_iff: "no_room r need \<longleftrightarrow> unat (total_size r) < unat (used r) + unat (used_top r) + unat need"
  by (auto simp: no_room_def word_less_nat_alt unat_sub_if')

lemma align_up_nat:
  assumes "unat n + 63 < 2 ^ 64"
  shows "unat (align_up n) = (unat n + 63) div 64 * 64"
proof -
  have "align_up n = (n + mask 6) AND NOT (mask 6)"
    by (simp add: align_up_def KUNTYPED_ALIGN_def mask_eq_exp_minus_1 add.commute)
  then show ?thesis using round_up_nat [of n 6] assms by simp
qed

lemma align_bound: "\<not> bytes > - 1 - (KUNTYPED_ALIGN - 1) \<Longrightarrow> unat bytes + 63 < 2 ^ 64"
  by (simp add: KUNTYPED_ALIGN_def word_less_nat_alt)

lemma align_add: "\<not> KUNTYPED_ALIGN + x < x \<Longrightarrow> unat (KUNTYPED_ALIGN + x) = 64 + unat x"
  using u64_bound [of x] by (simp add: KUNTYPED_ALIGN_def word_less_nat_alt unat_word_ariths mod_if split: if_splits)

lemma bump_cases:
  assumes "region_bump r bytes = (off, r')"
  obtains (refused) "r' = r" "off = - 1"
  | (carved) "off = used r" "r' = r\<lparr>used := used r'\<rparr>" "unat (align_up bytes) = (unat bytes + 63) div 64 * 64"
      "unat (used r') = unat (used r) + unat (align_up bytes)" "unat (used r') + unat (used_top r) \<le> unat (total_size r)"
proof (cases "bytes > - 1 - (KUNTYPED_ALIGN - 1) \<or> no_room r (align_up bytes)")
  case True
  then show thesis using assms refused by (auto simp: region_bump_def split: if_splits)
next
  case False
  have room: "unat (used r) + unat (used_top r) + unat (align_up bytes) \<le> unat (total_size r)"
    using False by (simp add: no_room_iff)
  then have "unat (used r + align_up bytes) = unat (used r) + unat (align_up bytes)"
    by (intro unat_add_le [of _ _ "total_size r"]) simp
  moreover have "off = used r" "r' = r\<lparr>used := used r + align_up bytes\<rparr>" using assms False by (auto simp: region_bump_def)
  ultimately show thesis using carved False align_up_nat [OF align_bound] room by simp
qed

lemma top_cases:
  assumes "region_top r bytes = Some (Some off, r')"
  shows "r' = r\<lparr>used_top := used_top r'\<rparr>" "unat (KUNTYPED_ALIGN + align_up bytes) = 64 + (unat bytes + 63) div 64 * 64"
    "unat (used_top r') = unat (used_top r) + unat (KUNTYPED_ALIGN + align_up bytes)"
    "unat off = unat (total_size r) - unat (used_top r')" "unat (used r) + unat (used_top r') \<le> unat (total_size r)"
proof -
  define need where "need = KUNTYPED_ALIGN + align_up bytes"
  have c: "\<not> bytes > - 1 - (KUNTYPED_ALIGN - 1)" "\<not> need < align_up bytes" "\<not> no_room r need"
    and r': "r' = r\<lparr>used_top := used_top r + need\<rparr>" "off = total_size r - used_top r'"
    using assms by (auto simp: region_top_def Let_def need_def split: if_splits)
  show "unat (KUNTYPED_ALIGN + align_up bytes) = 64 + (unat bytes + 63) div 64 * 64"
    using align_add [of "align_up bytes"] c(2) align_up_nat [OF align_bound [OF c(1)]] by (simp add: need_def)
  have room: "unat (used r) + unat (used_top r) + unat need \<le> unat (total_size r)" using c(3) by (simp add: no_room_iff)
  then have t: "unat (used_top r') = unat (used_top r) + unat need"
    using unat_add_le [of "used_top r" need "total_size r"] r'(1) by simp
  then show "unat (used_top r') = unat (used_top r) + unat (KUNTYPED_ALIGN + align_up bytes)"
    "unat (used r) + unat (used_top r') \<le> unat (total_size r)" "r' = r\<lparr>used_top := used_top r'\<rparr>"
    using room r'(1) by (auto simp: need_def)
  have "used_top r' \<le> total_size r" using t room by (simp add: word_le_nat_alt)
  then show "unat off = unat (total_size r) - unat (used_top r')" using r'(2) by (simp add: unat_sub)
qed

text \<open>The two assertions of the top carve never fail.\<close>

lemma top_asserts: "region_top r bytes \<noteq> None"
proof -
  define need where "need = KUNTYPED_ALIGN + align_up bytes"
  show ?thesis
  proof (cases "no_room r need")
    case True
    then show ?thesis by (simp add: region_top_def need_def)
  next
    case False
    then have room: "unat (used r) + unat (used_top r) + unat need \<le> unat (total_size r)" by (simp add: no_room_iff)
    have t: "unat (used_top r + need) = unat (used_top r) + unat need"
      using room unat_add_le [of "used_top r" need "total_size r"] by simp
    moreover from this have "unat (used r + (used_top r + need)) = unat (used r) + unat (used_top r) + unat need"
      using room unat_add_le [of "used r" "used_top r + need" "total_size r"] by simp
    ultimately have "used r + (used_top r + need) \<le> total_size r" "used r \<le> total_size r - (used_top r + need)"
      using room by (simp_all add: word_le_nat_alt unat_sub)
    then show ?thesis by (auto simp: region_top_def Let_def need_def)
  qed
qed

lemma if_chain4:
  "(if a then x else if b then x else if c then x else if d then x else y) = (if a \<or> b \<or> c \<or> d then x else y)"
  by simp

lemma page_multiple:
  fixes sz :: u64
  assumes "sz AND 0xFFF = 0"
  shows "4096 dvd unat sz"
proof -
  have "take_bit 12 sz = 0" using assms by (simp add: take_bit_eq_mask mask_eq_exp_minus_1)
  then have "take_bit 12 (unat sz) = 0" by (metis unsigned_0 unsigned_take_bit_eq)
  then show ?thesis by (simp add: take_bit_eq_0_iff)
qed

lemma page_cases:
  assumes "region_page r sz = (p, r')" "region_ok r"
  obtains (refused) "r' = r" "p = 0"
  | (carved) "4096 dvd unat p" "unat (phys_base r) + unat (used r) \<le> unat p" "unat sz \<ge> 4096"
      "r' = r\<lparr>used := used r'\<rparr>" "unat (phys_base r) + unat (used r') = unat p + unat sz"
      "unat (used r') + unat (used_top r) \<le> unat (total_size r)"
proof -
  define abs_start where "abs_start = phys_base r + used r"
  define aligned_abs where "aligned_abs = (abs_start + 0xFFF) AND NOT 0xFFF"
  define aligned_start where "aligned_start = aligned_abs - phys_base r"
  define room where "room = total_size r - aligned_start"
  have e: "region_page r sz =
     (if (sz = 0 \<or> sz AND 0xFFF \<noteq> 0) \<or> (aligned_abs < abs_start \<or> aligned_start < used r) \<or> aligned_start > total_size r \<or>
        (used_top r > room \<or> sz > room - used_top r) then (0, r)
      else (aligned_abs, r\<lparr>used := aligned_start + sz\<rparr>))"
    unfolding region_page_def Let_def room_def aligned_start_def aligned_abs_def abs_start_def by (rule if_chain4)
  show thesis
  proof (cases "(sz = 0 \<or> sz AND 0xFFF \<noteq> 0) \<or> (aligned_abs < abs_start \<or> aligned_start < used r) \<or> aligned_start > total_size r \<or>
        (used_top r > room \<or> sz > room - used_top r)")
    case True
    then have "region_page r sz = (0, r)" unfolding e by (rule if_P)
    then show thesis using assms(1) refused by auto
  next
    case False
    then have e2: "region_page r sz = (aligned_abs, r\<lparr>used := aligned_start + sz\<rparr>)" unfolding e by (rule if_not_P)
    have 2: "sz \<noteq> 0" "sz AND 0xFFF = 0" "\<not> aligned_abs < abs_start" "\<not> aligned_start > total_size r" "\<not> used_top r > room"
      "\<not> sz > room - used_top r" "p = aligned_abs" "r' = r\<lparr>used := aligned_start + sz\<rparr>"
      using False assms(1) e2 by auto
    have ok: "unat (used r) + unat (used_top r) \<le> unat (total_size r)" "unat (phys_base r) + unat (total_size r) < 2 ^ 64"
      using assms(2) by (auto simp: region_ok_def)
    have abs: "unat abs_start = unat (phys_base r) + unat (used r)" using ok by (simp add: abs_start_def unat_word_ariths)
    have up: "unat abs_start \<le> unat aligned_abs" using 2(3) by (simp add: word_less_nat_alt)
    then have st: "unat aligned_start = unat aligned_abs - unat (phys_base r)" unfolding aligned_start_def
      using abs by (intro unat_sub) (simp add: word_le_nat_alt)
    have rm: "unat room = unat (total_size r) - unat aligned_start" "unat aligned_start \<le> unat (total_size r)"
      using 2(4) by (simp_all add: room_def unat_sub word_le_nat_alt word_less_nat_alt)
    have fit: "unat (used_top r) + unat sz \<le> unat room"
      using 2(5,6) by (auto simp: word_less_nat_alt unat_sub_if' not_less split: if_splits)
    then have u: "unat (used r') = unat aligned_start + unat sz"
      using rm 2(8) unat_add_le [of aligned_start sz "total_size r"] by simp
    have "aligned_abs = (abs_start + 0xFFF) AND NOT (mask 12)" by (simp add: aligned_abs_def mask_eq_exp_minus_1)
    then have "4096 dvd unat aligned_abs" by (simp only: clear_low_nat) simp
    moreover have "unat sz \<ge> 4096" using page_multiple [OF 2(2)] 2(1) by (auto elim!: dvdE simp: unat_eq_0 [symmetric] simp del: unat_eq_0)
    ultimately show thesis using carved 2(7,8) up abs st u rm fit by simp
  qed
qed

lemma ucast_u32: "unat (ucast x :: u64) = unat x" for x :: u32
  using unsigned_less [of x, where ?'a = nat] by (simp add: unsigned_ucast_eq take_bit_nat_eq_self)

lemma batch_cases:
  assumes "region_batch r bytes count = (Inr (start, stop, block), r')"
  shows "\<not> is_device r" "count \<noteq> 0" "unat count \<le> 32" "unat block \<ge> 64" "block = KUNTYPED_ALIGN + align_up bytes"
    "start = used r" "unat stop = unat start + unat count * unat block" "r' = r\<lparr>used := stop\<rparr>"
    "unat stop + unat (used_top r) \<le> unat (total_size r)"
proof -
  define blk where "blk = KUNTYPED_ALIGN + align_up bytes"
  define total where "total = blk * ucast count"
  have c: "\<not> is_device r" "count \<noteq> 0" "\<not> count > KUNTYPED_RETYPE_MAX_COUNT" "\<not> blk < align_up bytes"
    "total div blk = ucast count" "\<not> no_room r total" "block = blk" "start = used r" "stop = used r + total"
    "r' = r\<lparr>used := used r + total\<rparr>"
    using assms unfolding region_batch_def Let_def blk_def [symmetric] total_def [symmetric]
    by (auto split: if_split_asm)
  have blk: "unat blk = 64 + unat (align_up bytes)" using align_add c(4) by (simp add: blk_def)
  note uc = ucast_u32 [of count]
  have le: "unat total \<le> unat blk * unat count" 
    unfolding total_def by (simp add: unat_word_ariths uc)
  have "unat count = unat total div unat blk" using c(5) uc by (metis unat_div)
  then have "unat blk * unat count \<le> unat total" by (metis div_times_less_eq_dividend mult.commute)
  then have t: "unat total = unat count * unat blk" using le by (simp add: mult.commute)
  have room: "unat (used r) + unat (used_top r) + unat total \<le> unat (total_size r)" using c(6) by (simp add: no_room_iff)
  then have "unat stop = unat (used r) + unat total" using unat_add_le [of "used r" total "total_size r"] c(9) by simp
  then show "unat stop = unat start + unat count * unat block" "unat stop + unat (used_top r) \<le> unat (total_size r)"
    using t room c(7,8) by simp_all
  show "unat block \<ge> 64" "block = KUNTYPED_ALIGN + align_up bytes" using blk c(7) by (simp_all add: blk_def)
  show "unat count \<le> 32" using c(3) by (simp add: KUNTYPED_RETYPE_MAX_COUNT_def word_less_nat_alt)
qed (use assms in \<open>auto simp: region_batch_def Let_def split: if_splits\<close>)

text \<open>A batch that is taken back at once leaves no trace.\<close>

lemma batch_unbump:
  assumes "region_batch r bytes count = (Inr (start, stop, block), r')"
  shows "region_unbump r' start stop = r"
proof -
  note b = batch_cases [OF assms]
  have "unat start < unat stop" using b(2,4,7) by (auto simp: unat_eq_0 [symmetric] simp del: unat_eq_0)
  then have "\<not> stop \<le> start" by (simp add: word_le_nat_alt)
  then show ?thesis using b(6,8) by (simp add: region_unbump_def)
qed

subsection \<open>Live blocks\<close>

text \<open>A block is its first address and its length; \<open>apart\<close> says that two do not overlap.\<close>

type_synonym block = "nat \<times> nat"

definition apart :: "block \<Rightarrow> block \<Rightarrow> bool" where
  "apart x y \<longleftrightarrow> fst x + snd x \<le> fst y \<or> fst y + snd y \<le> fst x"

fun all_apart :: "block list \<Rightarrow> bool" where
  "all_apart [] = True"
| "all_apart (x # xs) = ((\<forall>y\<in>set xs. apart x y) \<and> all_apart xs)"

definition block_set :: "block \<Rightarrow> nat set" where
  "block_set x = {fst x..<fst x + snd x}"

lemma apart_sym: "apart x y = apart y x"
  by (auto simp: apart_def)

lemma all_apart_append:
  "all_apart (xs @ ys) \<longleftrightarrow> all_apart xs \<and> all_apart ys \<and> (\<forall>x\<in>set xs. \<forall>y\<in>set ys. apart x y)"
  by (induction xs) auto

lemma all_apart_card:
  assumes "all_apart xs" "\<And>x. x \<in> set xs \<Longrightarrow> 64 \<le> snd x \<and> block_set x \<subseteq> {a..<a + n}"
  shows "64 * length xs \<le> n"
proof -
  have "finite (\<Union>(block_set ` set xs)) \<and> 64 * length xs \<le> card (\<Union>(block_set ` set xs))"
    using assms
  proof (induction xs)
    case (Cons x xs)
    have "block_set x \<inter> \<Union>(block_set ` set xs) = {}" using Cons.prems(1) by (auto simp: apart_def block_set_def)
    moreover have "finite (block_set x)" "card (block_set x) = snd x" by (auto simp: block_set_def)
    moreover have "64 \<le> snd x" using Cons.prems(2) [of x] by simp
    moreover have "finite (\<Union>(block_set ` set xs)) \<and> 64 * length xs \<le> card (\<Union>(block_set ` set xs))"
      using Cons.IH Cons.prems by simp
    ultimately show ?case by (simp add: card_Un_disjoint)
  qed simp
  moreover have "\<Union>(block_set ` set xs) \<subseteq> {a..<a + n}" using assms(2) by blast
  then have "card (\<Union>(block_set ` set xs)) \<le> n" using card_mono [of "{a..<a + n}"] by fastforce
  ultimately show ?thesis by simp
qed

text \<open>What a carve does: the blocks it takes lie between the old and the new watermarks.\<close>

definition carved :: "region \<Rightarrow> region \<Rightarrow> block list \<Rightarrow> bool" where
  "carved r r' xs \<longleftrightarrow> phys_base r' = phys_base r \<and> total_size r' = total_size r \<and> region_ok r' \<and>
     unat (used r) \<le> unat (used r') \<and> unat (used_top r) \<le> unat (used_top r') \<and> all_apart xs \<and>
     (\<forall>(a, n)\<in>set xs. 64 \<le> n \<and>
        (unat (phys_base r) + unat (used r) \<le> a \<and> a + n \<le> unat (phys_base r) + unat (used r') \<or>
         unat (phys_base r) + (unat (total_size r) - unat (used_top r')) \<le> a \<and>
         a + n \<le> unat (phys_base r) + (unat (total_size r) - unat (used_top r))))"

definition inside :: "region \<Rightarrow> block \<Rightarrow> bool" where
  "inside r x \<longleftrightarrow> unat (phys_base r) \<le> fst x \<and> fst x + snd x \<le> unat (phys_base r) + unat (used r) \<or>
     unat (phys_base r) + (unat (total_size r) - unat (used_top r)) \<le> fst x \<and>
     fst x + snd x \<le> unat (phys_base r) + unat (total_size r)"

definition live_ok :: "region \<Rightarrow> block list \<Rightarrow> bool" where
  "live_ok r xs \<longleftrightarrow> region_ok r \<and> all_apart xs \<and> (\<forall>x\<in>set xs. 64 \<le> snd x \<and> inside r x)"

lemma carved_live:
  assumes "carved r r' xs" "live_ok r ys"
  shows "live_ok r' (xs @ ys)"
proof -
  have ok: "region_ok r" "region_ok r'" using assms by (auto simp: live_ok_def carved_def)
  have "apart x y" if "x \<in> set xs" "y \<in> set ys" for x y
    using assms ok that by (cases x, cases y) (fastforce simp: carved_def live_ok_def inside_def apart_def region_ok_def)
  moreover have "64 \<le> snd x \<and> inside r' x" if "x \<in> set xs" for x
    using assms(1) ok that by (cases x) (fastforce simp: carved_def inside_def region_ok_def)
  moreover have "64 \<le> snd y \<and> inside r' y" if "y \<in> set ys" for y
    using assms ok that by (cases y) (fastforce simp: carved_def live_ok_def inside_def region_ok_def)
  ultimately show ?thesis using assms ok(2) by (auto simp: live_ok_def carved_def all_apart_append)
qed

lemma carved_trans:
  assumes "carved r r1 xs" "carved r1 r2 ys" "region_ok r"
  shows "carved r r2 (ys @ xs)"
proof -
  have ok: "region_ok r" "region_ok r1" "region_ok r2" using assms by (auto simp: carved_def)
  have "apart y x" if "x \<in> set xs" "y \<in> set ys" for x y
    using assms ok that by (cases x, cases y) (fastforce simp: carved_def apart_def region_ok_def)
  then have "all_apart (ys @ xs)" using assms by (auto simp: carved_def all_apart_append)
  then show ?thesis using assms ok unfolding carved_def by fastforce
qed

lemma bump_carved:
  assumes "region_bump r bytes = (off, r')" "off \<noteq> - 1" "bytes \<noteq> 0" "region_ok r"
  shows "carved r r' [(unat (phys_base r + off), unat (align_up bytes))] \<and> unat (phys_base r + off) + 64 < 2 ^ 64"
  using assms(1)
proof (cases rule: bump_cases)
  case carved
  have "unat bytes \<ge> 1" using assms(3) by (simp add: unat_gt_0 Suc_le_eq)
  then have n: "unat (align_up bytes) \<ge> 64" using carved(3) by simp
  have a: "unat (phys_base r + off) = unat (phys_base r) + unat (used r)"
    using assms(4) carved(1) by (simp add: region_ok_def unat_word_ariths)
  have "region_ok r'" using assms(4) carved(2,5) by (cases r') (auto simp: region_ok_def)
  moreover have "phys_base r' = phys_base r" "total_size r' = total_size r" "used_top r' = used_top r"
    using carved(2) by (metis region.select_convs region.surjective region.update_convs(3))+
  ultimately have "carved r r' [(unat (phys_base r + off), unat (align_up bytes))]"
    using a n carved(4) by (simp add: carved_def)
  moreover have "unat (phys_base r + off) + 64 < 2 ^ 64" using a n carved(4,5) assms(4) by (simp add: region_ok_def)
  ultimately show ?thesis ..
qed (use assms in simp)

lemma region_fields:
  "r' = r\<lparr>used := x\<rparr> \<Longrightarrow> phys_base r' = phys_base r \<and> total_size r' = total_size r \<and> used_top r' = used_top r \<and> used r' = x"
  "r' = r\<lparr>used_top := x\<rparr> \<Longrightarrow> phys_base r' = phys_base r \<and> total_size r' = total_size r \<and> used r' = used r \<and> used_top r' = x"
  by simp_all

lemma top_carved:
  assumes "region_top r bytes = Some (Some off, r')" "region_ok r"
  shows "carved r r' [(unat (phys_base r + off), unat (KUNTYPED_ALIGN + align_up bytes))] \<and> unat (phys_base r + off) + 64 < 2 ^ 64"
proof -
  note t = top_cases [OF assms(1)]
  note f = region_fields(2) [OF t(1)]
  have "unat off \<le> unat (total_size r)" using t(4) by simp
  then have "unat (phys_base r + off) = unat (phys_base r) + unat off"
    using assms(2) by (simp add: region_ok_def unat_word_ariths)
  moreover have "region_ok r'" using assms(2) t(5) f by (simp add: region_ok_def)
  ultimately show ?thesis using t(2-5) f assms(2) by (auto simp: carved_def region_ok_def)
qed

lemma page_carved:
  assumes "region_page r sz = (p, r')" "region_ok r"
  shows "r' = r \<and> p = 0 \<or> carved r r' [(unat p, unat sz)] \<and> 4096 dvd unat p"
  using assms
proof (cases rule: page_cases)
  case carved
  note f = region_fields(1) [OF carved(4)]
  have "region_ok r'" using assms(2) carved(6) f by (simp add: region_ok_def)
  then show ?thesis using carved f by (simp add: carved_def)
qed simp

lemma batch_carved:
  assumes "region_batch r bytes count = (Inr (start, stop, block), r')" "region_ok r"
  shows "carved r r' (map (\<lambda>i. (unat (phys_base r) + unat start + i * unat block, unat block)) [0..<unat count])"
proof -
  note b = batch_cases [OF assms(1)]
  note f = region_fields(1) [OF b(8)]
  let ?f = "\<lambda>i. (unat (phys_base r) + unat start + i * unat block, unat block)"
  have "apart (?f i) (?f j)" if "i < j" for i j
  proof -
    have "i * unat block + unat block \<le> j * unat block" using that mult_le_mono1 [of "Suc i" j "unat block"] by simp
    then show ?thesis by (simp add: apart_def)
  qed
  then have "all_apart (map ?f [m..<n])" for m n
    by (induction "n - m" arbitrary: m) (auto simp: upt_conv_Cons Suc_diff_Suc)
  moreover have "i * unat block + unat block \<le> unat count * unat block" if "i < unat count" for i
    using that mult_le_mono1 [of "Suc i" "unat count" "unat block"] by simp
  moreover have "region_ok r'" using assms(2) b(9) f by (simp add: region_ok_def)
  ultimately show ?thesis using b f by (fastforce simp: carved_def)
qed

subsection \<open>The life of a region\<close>

text \<open>
  One region under every operation, with the blocks of its live children: each element of the
  list is one child, with its blocks.  \<open>life_region\<close> is the pair of carves of a frame, a
  sub-region or a page table: the header from the top holds the count for both.  A release gives
  a child's count back, a reset rewinds the watermarks, and \<open>life_other\<close> is anything that leaves
  this region and its child count alone.
\<close>

definition kids :: "'e kst_scheme \<Rightarrow> oid \<Rightarrow> u32 option" where
  "kids \<sigma> u = map_option ko_child_count (objs \<sigma> u)"

definition top_block :: "u64 \<Rightarrow> u64 \<Rightarrow> block" where
  "top_block p bytes = (unat (p - KUNTYPED_ALIGN), unat (KUNTYPED_ALIGN + align_up bytes))"

inductive ulife :: "oid \<Rightarrow> 'z ust_scheme \<times> block list list \<Rightarrow> 'z ust_scheme \<times> block list list \<Rightarrow> bool" for u where
  life_child: "kuntyped_alloc_child u b \<sigma> = Some (Some p, \<sigma>') \<Longrightarrow>
    ulife u (\<sigma>, L) (\<sigma>', [(unat (p - KUNTYPED_ALIGN), unat (align_up (KUNTYPED_ALIGN + b)))] # L)"
| life_top: "kuntyped_alloc_child_top u b \<sigma> = Some (Some p, \<sigma>') \<Longrightarrow> ulife u (\<sigma>, L) (\<sigma>', [top_block p b] # L)"
| life_page: "kuntyped_alloc_page_child u \<sigma> = Some (p, \<sigma>') \<Longrightarrow> p \<noteq> 0 \<Longrightarrow> ulife u (\<sigma>, L) (\<sigma>', [(unat p, 4096)] # L)"
| life_pages: "kuntyped_alloc_pages_child u b \<sigma> = Some (p, \<sigma>') \<Longrightarrow> p \<noteq> 0 \<Longrightarrow>
    ulife u (\<sigma>, L) (\<sigma>', [(unat p, unat b)] # L)"
| life_region: "kuntyped_alloc_child_top u b \<sigma> = Some (Some p, \<sigma>1) \<Longrightarrow>
    kuntyped_bump_alloc_phys_page u sz \<sigma>1 = Some (q, \<sigma>') \<Longrightarrow> q \<noteq> 0 \<Longrightarrow>
    ulife u (\<sigma>, L) (\<sigma>', [(unat q, unat sz), top_block p b] # L)"
| life_batch: "kuntyped_alloc_children_atomic u b n \<sigma> = Some (Inr (ps, start, stop), \<sigma>') \<Longrightarrow>
    ulife u (\<sigma>, L) (\<sigma>', map (\<lambda>p. [top_block p b]) ps @ L)"
| life_lost: "kuntyped_bump_alloc_phys_page u sz \<sigma> = Some (q, \<sigma>') \<Longrightarrow> ulife u (\<sigma>, L) (\<sigma>', L)"
| life_release: "sub_child u \<sigma> = Some \<sigma>' \<Longrightarrow> ulife u (\<sigma>, L @ c # M) (\<sigma>', L @ M)"
| life_reset: "untyped_reset_locked u \<sigma> = Some (res, \<sigma>') \<Longrightarrow> ulife u (\<sigma>, L) (\<sigma>', L)"
| life_other: "regions \<sigma>' u = regions \<sigma> u \<Longrightarrow> kids \<sigma>' u = kids \<sigma> u \<Longrightarrow> ulife u (\<sigma>, L) (\<sigma>', L)"

definition life_inv :: "oid \<Rightarrow> 'z ust_scheme \<times> block list list \<Rightarrow> bool" where
  "life_inv u s = (case s of (\<sigma>, L) \<Rightarrow>
     (\<exists>r n. regions \<sigma> u = Some r \<and> kids \<sigma> u = Some n \<and> unat (total_size r) < 2 ^ 38 \<and> live_ok r (concat L) \<and>
       unat n = length L \<and> [] \<notin> set L))"

lemma frames [simp]:
  "regions (put_obj u k \<sigma>) = regions \<sigma>" "objs (put_region u r \<sigma>) = objs \<sigma>" "regions (put_region u r \<sigma>) = (regions \<sigma>)(u \<mapsto> r)"
  "objs (zero_fill a n \<sigma>) = objs \<sigma>" "regions (zero_fill a n \<sigma>) = regions \<sigma>"
  "objs (set_parent b v \<sigma>) = objs \<sigma>" "regions (set_parent b v \<sigma>) = regions \<sigma>"
  by (simp_all add: put_obj_def put_region_def zero_fill_def set_parent_def)

lemma retain_frame:
  "kobject_retain v \<sigma> = Some \<sigma>' \<Longrightarrow> regions \<sigma>' = regions \<sigma> \<and> kids \<sigma>' u = kids \<sigma> u"
  by (auto simp: kobject_retain_def kids_def put_obj_def Let_def bind_eq_Some_conv split: if_splits)

lemma adopt_frame:
  "adopt_child u \<sigma> = Some \<sigma>' \<Longrightarrow> regions \<sigma>' = regions \<sigma> \<and> kids \<sigma>' u = map_option (\<lambda>n. n + 1) (kids \<sigma> u)"
  by (auto simp: adopt_child_def add_children_def kobject_retain_def kids_def put_obj_def Let_def bind_eq_Some_conv split: if_splits)

lemma retain_times_frame:
  "retain_times n v \<sigma> = Some \<sigma>' \<Longrightarrow> regions \<sigma>' = regions \<sigma> \<and> kids \<sigma>' u = kids \<sigma> u"
  by (induction n arbitrary: \<sigma>) (auto simp: bind_eq_Some_conv dest: retain_frame)

lemma batch_fold [simp]:
  "regions (fold (batch_block u b) xs \<sigma>) = regions \<sigma>" "objs (fold (batch_block u b) xs \<sigma>) = objs \<sigma>"
  by (induction xs arbitrary: \<sigma>) (simp_all add: batch_block_def)

text \<open>A step that carves: the region and the child count after it.\<close>

definition takes :: "oid \<Rightarrow> 'z ust_scheme \<Rightarrow> 'z ust_scheme \<Rightarrow> block list \<Rightarrow> nat \<Rightarrow> bool" where
  "takes u \<sigma> \<sigma>' xs k \<longleftrightarrow> (\<forall>r. regions \<sigma> u = Some r \<and> region_ok r \<longrightarrow>
     (\<exists>r'. regions \<sigma>' u = Some r' \<and> carved r r' xs)) \<and> kids \<sigma>' u = map_option (\<lambda>n. n + of_nat k) (kids \<sigma> u)"

lemma carved_refl: "region_ok r \<Longrightarrow> carved r r []"
  by (simp add: carved_def)

lemma takes_trans:
  assumes "takes u \<sigma> \<sigma>1 xs j" "takes u \<sigma>1 \<sigma>2 ys k"
  shows "takes u \<sigma> \<sigma>2 (ys @ xs) (j + k)"
proof -
  have "\<exists>r2. regions \<sigma>2 u = Some r2 \<and> carved r r2 (ys @ xs)" if r: "regions \<sigma> u = Some r" "region_ok r" for r
  proof -
    obtain r1 where r1: "regions \<sigma>1 u = Some r1" "carved r r1 xs" using assms(1) r by (auto simp: takes_def)
    then have "region_ok r1" by (simp add: carved_def)
    then obtain r2 where "regions \<sigma>2 u = Some r2" "carved r1 r2 ys" using assms(2) r1(1) by (auto simp: takes_def)
    then show ?thesis using carved_trans [OF r1(2) _ r(2)] by blast
  qed
  moreover have "kids \<sigma>2 u = map_option (\<lambda>n. n + of_nat (j + k)) (kids \<sigma> u)"
    using assms by (cases "kids \<sigma> u") (auto simp: takes_def add.assoc)
  ultimately show ?thesis by (simp add: takes_def)
qed

lemma child_takes:
  assumes "kuntyped_alloc_child u b \<sigma> = Some (Some p, \<sigma>')"
  shows "takes u \<sigma> \<sigma>' [(unat (p - KUNTYPED_ALIGN), unat (align_up (KUNTYPED_ALIGN + b)))] 1"
proof -
  let ?n = "KUNTYPED_ALIGN + b"
  obtain q \<sigma>1 where q: "kuntyped_bump_alloc u ?n \<sigma> = Some (Some q, \<sigma>1)" "adopt_child u (set_parent q u \<sigma>1) = Some \<sigma>'"
    "p = q + KUNTYPED_ALIGN"
    using assms by (auto simp: kuntyped_alloc_child_def bind_eq_Some_conv split: if_split_asm option.split_asm)
  obtain r off r' where r: "regions \<sigma> u = Some r" "region_bump r ?n = (off, r')" "off \<noteq> - 1" "?n \<noteq> 0" "q = phys_base r' + off"
    "regions \<sigma>1 u = Some r'" "objs \<sigma>1 = objs \<sigma>"
    using q(1) by (auto simp: kuntyped_bump_alloc_def kuntyped_bump_def bind_eq_Some_conv Let_def split: if_split_asm prod.split_asm)
  have pb: "phys_base r' = phys_base r" using r(2) by (auto simp: region_bump_def split: if_splits)
  show ?thesis using adopt_frame [OF q(2)] r q(3) pb bump_carved [OF r(2-4)] by (auto simp: takes_def kids_def)
qed

lemma top_takes:
  assumes "kuntyped_alloc_child_top u b \<sigma> = Some (Some p, \<sigma>')"
  shows "takes u \<sigma> \<sigma>' [top_block p b] 1"
proof -
  obtain r off r' where r: "regions \<sigma> u = Some r" "region_top r b = Some (Some off, r')" "p = phys_base r + off + KUNTYPED_ALIGN"
    and a: "adopt_child u (set_parent (phys_base r + off) u (zero_fill (phys_base r + off) (KUNTYPED_ALIGN + align_up b)
      (put_region u r' \<sigma>))) = Some \<sigma>'"
    using assms by (auto simp: kuntyped_alloc_child_top_def bind_eq_Some_conv Let_def split: if_split_asm option.split_asm)
  show ?thesis using adopt_frame [OF a] r top_carved [OF r(2)] by (auto simp: takes_def kids_def top_block_def)
qed

lemma page_takes:
  assumes "kuntyped_bump_alloc_phys_page u sz \<sigma> = Some (p, \<sigma>')"
  shows "takes u \<sigma> \<sigma>' [] 0" "p \<noteq> 0 \<Longrightarrow> takes u \<sigma> \<sigma>' [(unat p, unat sz)] 0"
proof -
  obtain r r' where r: "regions \<sigma> u = Some r" "region_page r sz = (p, r')" "regions \<sigma>' u = Some r'" "objs \<sigma>' = objs \<sigma>"
    using assms unfolding kuntyped_bump_alloc_phys_page_def Let_def
    by (elim bindE) (auto split: if_split_asm prod.split_asm)
  have "region_ok r \<Longrightarrow> carved r r' []" using page_carved [OF r(2)] by (auto simp: carved_def)
  then show "takes u \<sigma> \<sigma>' [] 0" using r by (auto simp: takes_def kids_def option.map_ident)
  show "p \<noteq> 0 \<Longrightarrow> takes u \<sigma> \<sigma>' [(unat p, unat sz)] 0"
    using r page_carved [OF r(2)] by (auto simp: takes_def kids_def option.map_ident)
qed

lemma adopt_takes: "adopt_child u \<sigma> = Some \<sigma>' \<Longrightarrow> takes u \<sigma> \<sigma>' [] 1"
  using adopt_frame [of u \<sigma> \<sigma>'] carved_refl by (auto simp: takes_def)

lemma page_child_takes:
  assumes "kuntyped_alloc_page_child u \<sigma> = Some (p, \<sigma>')" "p \<noteq> 0"
  shows "takes u \<sigma> \<sigma>' [(unat p, 4096)] 1"
proof -
  obtain \<sigma>1 where "kuntyped_bump_alloc_phys_page u 4096 \<sigma> = Some (p, \<sigma>1)" "adopt_child u \<sigma>1 = Some \<sigma>'"
    using assms by (auto simp: kuntyped_alloc_page_child_def bind_eq_Some_conv split: if_split_asm)
  from takes_trans [OF page_takes(2) [OF this(1) assms(2)] adopt_takes [OF this(2)]] show ?thesis by simp
qed

lemma pages_child_takes:
  assumes "kuntyped_alloc_pages_child u b \<sigma> = Some (p, \<sigma>')" "p \<noteq> 0"
  shows "takes u \<sigma> \<sigma>' [(unat p, unat b)] 1"
proof -
  obtain \<sigma>1 where "kuntyped_bump_alloc_phys_page u b \<sigma> = Some (p, \<sigma>1)" "adopt_child u \<sigma>1 = Some \<sigma>'"
    using assms by (auto simp: kuntyped_alloc_pages_child_def bind_eq_Some_conv split: if_split_asm)
  from takes_trans [OF page_takes(2) [OF this(1) assms(2)] adopt_takes [OF this(2)]] show ?thesis by simp
qed

lemma batch_takes:
  assumes "kuntyped_alloc_children_atomic u b n \<sigma> = Some (Inr (ps, start, stop), \<sigma>')"
  shows "takes u \<sigma> \<sigma>' (map (\<lambda>p. top_block p b) ps) (length ps)"
proof -
  obtain r r' block \<sigma>1 where r: "regions \<sigma> u = Some r" "region_batch r b n = (Inr (start, stop, block), r')"
    and a: "add_children u n (fold (batch_block u block) (map (\<lambda>i. phys_base r + start + of_nat i * block) [0..<unat n])
      (put_region u r' \<sigma>)) = Some \<sigma>1" "retain_times (unat n) u \<sigma>1 = Some \<sigma>'"
    and ps: "ps = map (\<lambda>i. phys_base r + start + of_nat i * block + KUNTYPED_ALIGN) [0..<unat n]"
    using assms unfolding kuntyped_alloc_children_atomic_def Let_def
    by (elim bindE) (auto simp: o_def elim!: bindE split: sum.split_asm prod.split_asm)
  note bc = batch_cases [OF r(2)]
  have reg: "regions \<sigma>' u = Some r'" "kids \<sigma>' u = map_option (\<lambda>k. k + n) (kids \<sigma> u)"
    using a(1) retain_times_frame [OF a(2), of u] by (auto simp: add_children_def bind_eq_Some_conv kids_def put_obj_def)
  have eq: "map (\<lambda>p. top_block p b) ps = map (\<lambda>i. (unat (phys_base r) + unat start + i * unat block, unat block)) [0..<unat n]"
    if ok: "region_ok r"
  proof -
    have "unat (phys_base r + start + of_nat i * block) = unat (phys_base r) + unat start + i * unat block" if i: "i < unat n" for i
    proof -
      have le: "i * unat block \<le> unat n * unat block" using i by simp
      have lt: "unat (phys_base r) + unat start + unat n * unat block < 2 ^ 64" using ok bc(6,7,9) by (simp add: region_ok_def)
      have "phys_base r + start + of_nat i * block = of_nat (unat (phys_base r) + unat start + i * unat block)" by simp
      moreover have "unat (phys_base r) + unat start + i * unat block < 2 ^ 64" using le lt by linarith
      ultimately show ?thesis by (simp only: unat_of_nat) simp
    qed
    then show ?thesis unfolding ps bc(5) [symmetric] by (simp add: top_block_def bc(5) [symmetric])
  qed
  have "length ps = unat n" using ps by simp
  then show ?thesis using reg r(1) batch_carved [OF r(2)] eq by (auto simp: takes_def)
qed

lemma length_le_concat: "[] \<notin> set xs \<Longrightarrow> length xs \<le> length (concat xs)"
proof (induction xs)
  case (Cons x xs)
  then show ?case by (cases x) auto
qed simp

lemma live_within:
  assumes "live_ok r xs" "x \<in> set xs"
  shows "64 \<le> snd x" "unat (phys_base r) \<le> fst x" "fst x + snd x \<le> unat (phys_base r) + unat (total_size r)"
proof -
  have "region_ok r" "64 \<le> snd x" "inside r x" using assms by (auto simp: live_ok_def)
  then show "64 \<le> snd x" "unat (phys_base r) \<le> fst x" "fst x + snd x \<le> unat (phys_base r) + unat (total_size r)"
    by (auto simp: inside_def region_ok_def)
qed

lemma takes_inv:
  assumes "takes u \<sigma> \<sigma>' (concat M) (length M)" "life_inv u (\<sigma>, L)" "[] \<notin> set M"
  shows "life_inv u (\<sigma>', M @ L)"
proof -
  obtain r n where i: "regions \<sigma> u = Some r" "kids \<sigma> u = Some n" "unat (total_size r) < 2 ^ 38" "live_ok r (concat L)"
    "unat n = length L" "[] \<notin> set L" using assms(2) by (auto simp: life_inv_def)
  then have ok: "region_ok r" by (simp add: live_ok_def)
  obtain r' where r': "regions \<sigma>' u = Some r'" "carved r r' (concat M)" using assms(1) i(1) ok by (auto simp: takes_def)
  have k: "kids \<sigma>' u = Some (n + of_nat (length M))" using assms(1) i(2) by (simp add: takes_def)
  have live: "live_ok r' (concat (M @ L))" using carved_live [OF r'(2) i(4)] by simp
  have t: "total_size r' = total_size r" using r'(2) by (simp add: carved_def)
  have "64 * length (concat (M @ L)) \<le> unat (total_size r')"
  proof (rule all_apart_card)
    show "all_apart (concat (M @ L))" using live by (simp add: live_ok_def)
    show "64 \<le> snd x \<and> block_set x \<subseteq> {unat (phys_base r')..<unat (phys_base r') + unat (total_size r')}"
      if "x \<in> set (concat (M @ L))" for x
      using live_within [OF live that] by (auto simp: block_set_def)
  qed
  moreover have "length (M @ L) \<le> length (concat (M @ L))"
    using assms(3) i(6) by (intro length_le_concat) auto
  ultimately have "length M + length L < 2 ^ 32" using i(3) t by simp
  then have "unat (n + of_nat (length M)) = length (M @ L)"
    using i(5) by (simp add: unat_word_ariths unat_of_nat)
  then show ?thesis using r' k live i(3,6) t assms(3) by (auto simp: life_inv_def)
qed

lemma reset_inv:
  assumes "untyped_reset_locked u \<sigma> = Some (res, \<sigma>')" "life_inv u (\<sigma>, L)"
  shows "life_inv u (\<sigma>', L)"
proof -
  obtain r n where i: "regions \<sigma> u = Some r" "kids \<sigma> u = Some n" "unat (total_size r) < 2 ^ 38" "live_ok r (concat L)"
    "unat n = length L" "[] \<notin> set L" using assms(2) by (auto simp: life_inv_def)
  show ?thesis
  proof (cases "n = 0")
    case True
    then have "L = []" using i(5) by simp
    moreover have "regions \<sigma>' u = Some (region_reset r)" "kids \<sigma>' u = Some 0"
      using assms(1) i(1,2) True by (auto simp: untyped_reset_locked_def kids_def bind_eq_Some_conv split: if_splits)
    ultimately show ?thesis using i by (auto simp: life_inv_def live_ok_def region_ok_def region_reset_def)
  next
    case False
    then have "\<sigma>' = \<sigma>" using assms(1) i(1,2) by (auto simp: untyped_reset_locked_def kids_def)
    then show ?thesis using assms(2) by simp
  qed
qed

lemma release_inv:
  assumes "sub_child u \<sigma> = Some \<sigma>'" "life_inv u (\<sigma>, L @ c # M)"
  shows "life_inv u (\<sigma>', L @ M)"
proof -
  obtain r n where i: "regions \<sigma> u = Some r" "kids \<sigma> u = Some n" "unat (total_size r) < 2 ^ 38" "live_ok r (concat (L @ c # M))"
    "unat n = length L + length M + 1" "[] \<notin> set (L @ M)" using assms(2) by (auto simp: life_inv_def)
  have k: "regions \<sigma>' = regions \<sigma>" "kids \<sigma>' u = Some (n - 1)"
    using assms(1) i(2) by (auto simp: sub_child_def kids_def put_obj_def bind_eq_Some_conv)
  have "live_ok r (concat (L @ M))" using i(4) by (simp add: live_ok_def all_apart_append) blast
  moreover have "n \<noteq> 0" using i(5) by auto
  then have "unat (n - 1) = length (L @ M)" using i(5) by (simp add: unat_minus_one)
  ultimately show ?thesis using i k by (simp add: life_inv_def)
qed

lemma ulife_inv: "ulife u s t \<Longrightarrow> life_inv u s \<Longrightarrow> life_inv u t"
proof (induction rule: ulife.induct)
  case (life_child b \<sigma> p \<sigma>' L)
  then show ?case using takes_inv [of u \<sigma> \<sigma>' "[[_]]" L] child_takes by fastforce
next
  case (life_top b \<sigma> p \<sigma>' L)
  then show ?case using takes_inv [of u \<sigma> \<sigma>' "[[_]]" L] top_takes by fastforce
next
  case (life_page \<sigma> p \<sigma>' L)
  then show ?case using takes_inv [of u \<sigma> \<sigma>' "[[_]]" L] page_child_takes by fastforce
next
  case (life_pages b \<sigma> p \<sigma>' L)
  then show ?case using takes_inv [of u \<sigma> \<sigma>' "[[_]]" L] pages_child_takes by fastforce
next
  case (life_region b \<sigma> p \<sigma>1 sz q \<sigma>' L)
  then show ?case using takes_inv [of u \<sigma> \<sigma>' "[[_, _]]" L] takes_trans [OF top_takes page_takes(2)] by fastforce
next
  case (life_batch b n \<sigma> ps start stop \<sigma>' L)
  have "concat (map (\<lambda>p. [top_block p b]) ps) = map (\<lambda>p. top_block p b) ps" by (induction ps) auto
  then show ?case using takes_inv [of u \<sigma> \<sigma>' "map (\<lambda>p. [top_block p b]) ps" L] batch_takes [OF life_batch(1)] life_batch(2) by auto
next
  case (life_lost sz \<sigma> q \<sigma>' L)
  then show ?case using takes_inv [of u \<sigma> \<sigma>' "[]" L] page_takes(1) by fastforce
next
  case (life_release \<sigma> \<sigma>' L c M)
  then show ?case by (rule release_inv)
next
  case (life_reset \<sigma> res \<sigma>' L)
  then show ?case by (rule reset_inv)
next
  case (life_other \<sigma>' \<sigma> L)
  then show ?case by (simp add: life_inv_def)
qed

lemma fresh_life:
  assumes "regions \<sigma> u = Some r" "used r = 0" "used_top r = 0" "kids \<sigma> u = Some 0" "unat (total_size r) < 2 ^ 38"
    "unat (phys_base r) + unat (total_size r) < 2 ^ 64"
  shows "life_inv u (\<sigma>, [])"
  using assms by (simp add: life_inv_def live_ok_def region_ok_def)

lemma ulife_reach: "(ulife u)\<^sup>*\<^sup>* s t \<Longrightarrow> life_inv u s \<Longrightarrow> life_inv u t"
  by (induction rule: rtranclp_induct) (auto intro: ulife_inv)

section \<open>Properties\<close>

text \<open>C19: Untyped memory is never handed out twice.  From a fresh region of less than 256 GiB, whatever sequence
of child carves, top carves, page carves, two-part carves, batches, releases, resets and unrelated work follows,
the blocks of the live children do not overlap, lie inside the region and are at least 64 bytes long, and the
32-bit child count, which a reset tests, is exactly the number of live children.\<close>

theorem untyped_no_overlap:
  assumes "regions \<sigma> u = Some r" "used r = 0" "used_top r = 0" "kids \<sigma> u = Some 0" "unat (total_size r) < 2 ^ 38"
    "unat (phys_base r) + unat (total_size r) < 2 ^ 64" and "(ulife u)\<^sup>*\<^sup>* (\<sigma>, []) (\<sigma>', L)"
  shows "\<exists>r' n. regions \<sigma>' u = Some r' \<and> kids \<sigma>' u = Some n \<and> unat n = length L \<and> all_apart (concat L) \<and>
    (\<forall>x\<in>set (concat L). 64 \<le> snd x \<and> unat (phys_base r') \<le> fst x \<and>
       fst x + snd x \<le> unat (phys_base r') + unat (total_size r'))"
proof -
  have "life_inv u (\<sigma>', L)" using ulife_reach [OF assms(7)] fresh_life [OF assms(1-6)] by blast
  then obtain r' n where r': "regions \<sigma>' u = Some r'" "kids \<sigma>' u = Some n" "unat n = length L" "live_ok r' (concat L)"
    by (auto simp: life_inv_def)
  have "all_apart (concat L)" using r'(4) by (simp add: live_ok_def)
  moreover have "\<forall>x\<in>set (concat L). 64 \<le> snd x \<and> unat (phys_base r') \<le> fst x \<and>
      fst x + snd x \<le> unat (phys_base r') + unat (total_size r')" using live_within [OF r'(4)] by blast
  ultimately show ?thesis using r'(1-3) by blast
qed

theorem untyped_no_overlap_witness:
  "\<exists>p q \<sigma>1 \<sigma>2. kuntyped_alloc_child 5 100 sample_ust = Some (Some p, \<sigma>1) \<and>
     kuntyped_alloc_child_top 5 100 \<sigma>1 = Some (Some q, \<sigma>2) \<and>
     apart (top_block q 100) (unat (p - KUNTYPED_ALIGN), unat (align_up (KUNTYPED_ALIGN + 100))) \<and> kids \<sigma>2 5 = Some 2"
proof -
  have "map_option (\<lambda>(p, \<sigma>1). (p \<noteq> None, map_option (\<lambda>(q, \<sigma>2). (q \<noteq> None, kids \<sigma>2 5)) (kuntyped_alloc_child_top 5 100 \<sigma>1)))
      (kuntyped_alloc_child 5 100 sample_ust) = Some (True, Some (True, Some 2))" by code_simp
  then obtain p q \<sigma>1 \<sigma>2 where c: "kuntyped_alloc_child 5 100 sample_ust = Some (Some p, \<sigma>1)"
    "kuntyped_alloc_child_top 5 100 \<sigma>1 = Some (Some q, \<sigma>2)" "kids \<sigma>2 5 = Some 2" by auto
  have "(ulife 5)\<^sup>*\<^sup>* (sample_ust, []) (\<sigma>2, [[top_block q 100], [(unat (p - KUNTYPED_ALIGN), unat (align_up (KUNTYPED_ALIGN + 100)))]])"
    using life_child [OF c(1)] life_top [OF c(2)] by (meson converse_rtranclp_into_rtranclp r_into_rtranclp)
  from untyped_no_overlap [OF _ _ _ _ _ _ this, of sample_region] show ?thesis
    using c by (auto simp: sample_ust_def sample_region_def fresh_region_def kids_def)
qed



text \<open>C21: A page carve returns 0 and leaves the region alone, or returns a page-aligned physical address whose
whole extent lies above everything the bottom watermark covered and below the top carves; the watermark moves
to its end, and RAM is handed out zeroed.\<close>

theorem page_carve:
  assumes "kuntyped_bump_alloc_phys_page u sz \<sigma> = Some (p, \<sigma>')" "regions \<sigma> u = Some r" "region_ok r"
  shows "regions \<sigma>' u = Some r \<and> p = 0 \<or>
    (\<exists>r'. regions \<sigma>' u = Some r' \<and> 4096 dvd unat p \<and> unat (phys_base r) + unat (used r) \<le> unat p \<and>
       unat p + unat sz = unat (phys_base r) + unat (used r') \<and> unat (used r') + unat (used_top r') \<le> unat (total_size r') \<and>
       (is_device r \<or> (\<forall>i. i \<ge> sz \<or> phys_mem \<sigma>' (p + i) = 0)))"
proof -
  obtain r' where r': "region_page r sz = (p, r')" "\<sigma>' = (if r' = r \<or> is_device r then put_region u r' \<sigma> else zero_fill p sz (put_region u r' \<sigma>))"
    using assms(1,2) by (auto simp: kuntyped_bump_alloc_phys_page_def Let_def split: prod.split_asm)
  from r'(1) assms(3) show ?thesis
  proof (cases rule: page_cases)
    case refused
    then show ?thesis using r'(2) by simp
  next
    case carved
    note f = region_fields(1) [OF carved(4)]
    have "used r' \<noteq> used r" using carved(2,3,5) by auto
    then have "r' \<noteq> r" by auto
    then show ?thesis using carved f r'(2) by (auto simp: zero_fill_def)
  qed
qed

theorem page_carve_witness:
  "\<exists>p \<sigma>'. kuntyped_bump_alloc_phys_page 5 4096 sample_ust = Some (p, \<sigma>') \<and> p \<noteq> 0 \<and> 4096 dvd unat p \<and>
     phys_mem \<sigma>' (p + 7) = 0"
proof -
  have "map_option (\<lambda>(p, \<sigma>'). p \<noteq> 0) (kuntyped_bump_alloc_phys_page 5 4096 sample_ust) = Some True" by code_simp
  then obtain p \<sigma>' where c: "kuntyped_bump_alloc_phys_page 5 4096 sample_ust = Some (p, \<sigma>')" "p \<noteq> 0" by auto
  have "regions sample_ust 5 = Some sample_region" "region_ok sample_region" "\<not> is_device sample_region"
    by (simp_all add: sample_ust_def sample_region_def fresh_region_def region_ok_def)
  from page_carve [OF c(1) this(1,2)] this(3) c(2) have "4096 dvd unat p" "\<forall>i. i \<ge> 4096 \<or> phys_mem \<sigma>' (p + i) = 0" by auto
  from this(2) [rule_format, of 7] show ?thesis using c \<open>4096 dvd unat p\<close> by auto
qed

text \<open>C22: A batch is all or nothing.  A refusal leaves the state as it was.  A success yields exactly the
requested number of blocks, adds that number to the child count, and leaves the window it reports, whose exact
rollback restores the region as it was before the batch.\<close>

theorem batch_atomic:
  assumes "kuntyped_alloc_children_atomic u b n \<sigma> = Some (res, \<sigma>')" "regions \<sigma> u = Some r"
  shows "case res of
      Inl e \<Rightarrow> \<sigma>' = \<sigma>
    | Inr (ps, start, stop) \<Rightarrow> length ps = unat n \<and> kids \<sigma>' u = map_option (\<lambda>k. k + n) (kids \<sigma> u) \<and> start = used r \<and>
        unat stop = unat start + unat n * unat (KUNTYPED_ALIGN + align_up b) \<and>
        map_option (\<lambda>\<sigma>2. regions \<sigma>2 u) (kuntyped_unbump_exact u start stop \<sigma>') = Some (Some r)"
proof (cases res)
  case (Inl e)
  then show ?thesis using assms by (auto simp: kuntyped_alloc_children_atomic_def Let_def elim!: bindE
        split: sum.split_asm prod.split_asm)
next
  case (Inr x)
  obtain ps start stop where x: "x = (ps, start, stop)" by (cases x)
  have k: "kuntyped_alloc_children_atomic u b n \<sigma> = Some (Inr (ps, start, stop), \<sigma>')" using assms(1) Inr x by simp
  obtain r' block where r': "region_batch r b n = (Inr (start, stop, block), r')" "regions \<sigma>' u = Some r'" "length ps = unat n"
    using k assms(2) unfolding kuntyped_alloc_children_atomic_def Let_def
    by (elim bindE) (auto elim!: bindE dest!: retain_times_frame split: sum.split_asm prod.split_asm
        simp: add_children_def)
  have "kids \<sigma>' u = map_option (\<lambda>k. k + n) (kids \<sigma> u)" using batch_takes [OF k] r'(3) by (simp add: takes_def)
  then show ?thesis using batch_cases(5-7) [OF r'(1)] batch_unbump [OF r'(1)] r'(2,3) Inr x
    by (simp add: kuntyped_unbump_exact_def)
qed

theorem batch_atomic_witness:
  "\<exists>ps start stop \<sigma>'. kuntyped_alloc_children_atomic 5 100 3 sample_ust = Some (Inr (ps, start, stop), \<sigma>') \<and> length ps = 3 \<and>
     kids \<sigma>' 5 = Some 3 \<and> map_option (\<lambda>\<sigma>2. regions \<sigma>2 5) (kuntyped_unbump_exact 5 start stop \<sigma>') = Some (Some sample_region)"
proof -
  have "map_option fst (kuntyped_alloc_children_atomic 5 100 3 sample_ust) =
      Some (Inr ([0x100040, 0x100100, 0x1001C0], 0, 576))" by code_simp
  then obtain \<sigma>' where c: "kuntyped_alloc_children_atomic 5 100 3 sample_ust =
      Some (Inr ([0x100040, 0x100100, 0x1001C0], 0, 576), \<sigma>')" by auto
  have "regions sample_ust 5 = Some sample_region" "kids sample_ust 5 = Some 0" by (simp_all add: sample_ust_def kids_def)
  with batch_atomic [OF c] c show ?thesis by auto
qed

subsection \<open>Where the code departs from its comments\<close>

text \<open>The batch rounds the object size up without testing for a wrap: a huge object gets a block of 64 bytes, all
of it the header.\<close>

lemma batch_rounding_wraps:
  "fst (region_batch sample_region 0xFFFFFFFFFFFFFFFF 1) = Inr (0, 64, 64)"
  by code_simp

text \<open>The rollback compares only the watermark.  If, after the objects of a failed batch are destroyed, another
processor resets the region and carves a batch of the same size, the rollback takes the watermark back under
that live block, and the next carve returns it again.\<close>

lemma unbump_after_reset:
  "(let (b1, r1) = region_batch sample_region 100 1; (b2, r2) = region_batch (region_reset r1) 100 1;
        r3 = region_unbump r2 0 192 in (b1, b2, fst (region_batch r3 100 1))) =
   (Inr (0, 192, 192), Inr (0, 192, 192), Inr (0, 192, 192))"
  by code_simp

end
