(* ===== verification/Iris_SchedCtx.thy ===== *)
theory Iris_SchedCtx
  imports Iris_Rights
begin

text \<open>
  Scheduling contexts: \<^verbatim>\<open>kernel/new_core/src/kschedctx.c\<close>.  A context is a budget per period with a
  ring of pending replenishments.  The argument None is the null pointer; an outer None result is
  the division by zero of a ring without entries.  The lemmas read the ring as the queue it stands
  for, show that the parts always sum to the budget, and that no window of one period ever holds
  more charged ticks than the budget.
\<close>

definition KSCHEDCTX_REFILL_MIN :: u32 where "KSCHEDCTX_REFILL_MIN = 2"
definition KSCHEDCTX_REFILL_DEFAULT :: u32 where "KSCHEDCTX_REFILL_DEFAULT = 8"
definition KSCHEDCTX_REFILL_LIMIT :: u32 where "KSCHEDCTX_REFILL_LIMIT = 64"

record krefill =
  at_tick :: u64
  amount :: u64

record sched_ctx =
  budget_ticks :: u64
  period_ticks :: u64
  remaining_budget :: u64
  bound_task :: "nat option"
  configured :: bool
  refill_max :: u32
  refill_head :: u32
  refill_count :: u32
  consumed_run :: u64
  consume_start :: u64
  consumed_total :: u64
  refills :: "krefill list"

text \<open>The two sizes are \<^verbatim>\<open>sizeof(struct KSchedContext)\<close> and \<^verbatim>\<open>sizeof(struct KRefill)\<close>.\<close>

definition kschedctx_bytes :: "u64 \<Rightarrow> u64 \<Rightarrow> u32 \<Rightarrow> u64" where
  "kschedctx_bytes hdr refill n = hdr + ucast (if n = 0 then KSCHEDCTX_REFILL_DEFAULT else n) * refill"

text \<open>The object in a zeroed block, as \<^verbatim>\<open>kschedctx_alloc_at\<close> leaves it.\<close>

definition kschedctx_alloc_at :: "u32 \<Rightarrow> sched_ctx" where
  "kschedctx_alloc_at n =
     (let m = (if n = 0 then KSCHEDCTX_REFILL_DEFAULT else n) in
      \<lparr>budget_ticks = 0, period_ticks = 0, remaining_budget = 0, bound_task = None, configured = False,
       refill_max = m, refill_head = 0, refill_count = 0, consumed_run = 0, consume_start = 0,
       consumed_total = 0, refills = replicate (unat m) \<lparr>at_tick = 0, amount = 0\<rparr>\<rparr>)"

definition kschedctx_refill_reset_locked :: "sched_ctx \<Rightarrow> sched_ctx" where
  "kschedctx_refill_reset_locked sc = sc\<lparr>refill_head := 0, refill_count := 0, consumed_run := 0, consume_start := 0\<rparr>"

definition kschedctx_refill_reset :: "sched_ctx option \<Rightarrow> sched_ctx option" where
  "kschedctx_refill_reset = map_option kschedctx_refill_reset_locked"

fun kschedctx_configure :: "sched_ctx option \<Rightarrow> u64 \<Rightarrow> u64 \<Rightarrow> iris_status \<times> sched_ctx option" where
  "kschedctx_configure None budget period = (IRIS_ERR_INVALID_ARG, None)"
| "kschedctx_configure (Some sc) budget period =
     (if budget = 0 \<or> period = 0 \<or> budget > period then (IRIS_ERR_INVALID_ARG, Some sc)
      else (IRIS_OK, Some (kschedctx_refill_reset_locked
             (sc\<lparr>budget_ticks := budget, period_ticks := period, remaining_budget := budget, configured := True\<rparr>))))"

fun kschedctx_bind :: "sched_ctx option \<Rightarrow> nat option \<Rightarrow> iris_status \<times> sched_ctx option" where
  "kschedctx_bind (Some sc) (Some t) =
     (if bound_task sc \<noteq> None \<and> bound_task sc \<noteq> Some t then (IRIS_ERR_BUSY, Some sc)
      else (IRIS_OK, Some (sc\<lparr>bound_task := Some t\<rparr>)))"
| "kschedctx_bind sc t = (IRIS_ERR_INVALID_ARG, sc)"

fun kschedctx_unbind :: "sched_ctx option \<Rightarrow> nat option \<Rightarrow> sched_ctx option" where
  "kschedctx_unbind None t = None"
| "kschedctx_unbind (Some sc) t =
     Some (if bound_task sc = t \<or> t = None then sc\<lparr>bound_task := None\<rparr> else sc)"

fun kschedctx_charge_tick :: "sched_ctx option \<Rightarrow> u64 \<Rightarrow> bool \<times> sched_ctx option" where
  "kschedctx_charge_tick None now = (False, None)"
| "kschedctx_charge_tick (Some sc) now =
     (let sc1 = (if remaining_budget sc > 0
                 then sc\<lparr>consume_start := (if consumed_run sc = 0 then now else consume_start sc),
                        remaining_budget := remaining_budget sc - 1, consumed_run := consumed_run sc + 1\<rparr>
                 else sc)
      in (remaining_budget sc1 = 0, Some sc1))"

fun kschedctx_has_refill :: "sched_ctx option \<Rightarrow> bool" where
  "kschedctx_has_refill None = False"
| "kschedctx_has_refill (Some sc) = (refill_count sc > 0)"

fun kschedctx_flush_run :: "sched_ctx option \<Rightarrow> sched_ctx option option" where
  "kschedctx_flush_run None = Some None"
| "kschedctx_flush_run (Some sc) =
     (if consumed_run sc = 0 then Some (Some sc)
      else let due = consume_start sc + period_ticks sc;
               amt = consumed_run sc;
               sc1 = sc\<lparr>consumed_run := 0, consume_start := 0, consumed_total := consumed_total sc + amt\<rparr> in
        if refill_count sc1 < refill_max sc1
        then let idx = (refill_head sc1 + refill_count sc1) mod refill_max sc1 in
          Some (Some (sc1\<lparr>refills := (refills sc1)[unat idx := \<lparr>at_tick = due, amount = amt\<rparr>],
            refill_count := refill_count sc1 + 1\<rparr>))
        else if refill_max sc1 = 0 then None
        else let last = unat ((refill_head sc1 + refill_count sc1 - 1) mod refill_max sc1);
                 r = refills sc1 ! last in
          Some (Some (sc1\<lparr>refills := (refills sc1)[last :=
            \<lparr>at_tick = (if due > at_tick r then due else at_tick r), amount = amount r + amt\<rparr>]\<rparr>)))"

text \<open>The loop of \<^verbatim>\<open>kschedctx_apply_refills\<close> returns the flag and the context.\<close>

function apply_loop :: "u64 \<Rightarrow> bool \<Rightarrow> sched_ctx \<Rightarrow> (bool \<times> sched_ctx) option" where
  "apply_loop now gained sc =
     (if refill_count sc > 0 \<and> at_tick (refills sc ! unat (refill_head sc)) \<le> now
      then if refill_max sc = 0 then None
      else apply_loop now True
             (sc\<lparr>remaining_budget := remaining_budget sc + amount (refills sc ! unat (refill_head sc)),
                refill_head := (refill_head sc + 1) mod refill_max sc, refill_count := refill_count sc - 1\<rparr>)
      else Some (gained, sc))"
  by pat_completeness auto
termination
  by (relation "measure (\<lambda>(_, _, sc). unat (refill_count sc))") (auto simp: unat_minus_one word_gt_0 unat_gt_0)

declare apply_loop.simps [simp del]

fun kschedctx_apply_refills :: "sched_ctx option \<Rightarrow> u64 \<Rightarrow> (bool \<times> sched_ctx option) option" where
  "kschedctx_apply_refills None now = Some (False, None)"
| "kschedctx_apply_refills (Some sc) now =
     map_option (\<lambda>(gained, sc1). (gained, Some (if remaining_budget sc1 > budget_ticks sc1
         then sc1\<lparr>remaining_budget := budget_ticks sc1\<rparr> else sc1)))
       (apply_loop now False sc)"

text \<open>
  One context under the scheduler: the context, the tick number, and the ticks charged so far.
  A charge that exhausts the budget is flushed before the next tick (\<^verbatim>\<open>sched_tick_local\<close>, or the
  dispatch it asks for).  A tick at which the thread does not run leaves the context alone, and by
  then \<^verbatim>\<open>sched_pick_for_dispatch\<close> has flushed the outgoing thread; the clock may also jump.
\<close>

inductive sc_step :: "sched_ctx \<times> nat \<times> nat list \<Rightarrow> sched_ctx \<times> nat \<times> nat list \<Rightarrow> bool" where
  sc_charge: "remaining_budget sc > 0 \<or> consumed_run sc = 0 \<Longrightarrow>
     kschedctx_charge_tick (Some sc) (of_nat now) = (exhausted, Some sc') \<Longrightarrow>
     sc_step (sc, now, log) (sc', now + 1, if remaining_budget sc > 0 then now # log else log)"
| sc_pass: "consumed_run sc = 0 \<Longrightarrow> now \<le> now' \<Longrightarrow> sc_step (sc, now, log) (sc, now', log)"
| sc_flush: "kschedctx_flush_run (Some sc) = Some (Some sc') \<Longrightarrow> sc_step (sc, now, log) (sc', now, log)"
| sc_apply: "kschedctx_apply_refills (Some sc) (of_nat now) = Some (gained, Some sc') \<Longrightarrow>
     sc_step (sc, now, log) (sc', now, log)"
| sc_bind: "kschedctx_bind (Some sc) t = (st, Some sc') \<Longrightarrow> sc_step (sc, now, log) (sc', now, log)"
| sc_unbind: "kschedctx_unbind (Some sc) t = Some sc' \<Longrightarrow> sc_step (sc, now, log) (sc', now, log)"

text \<open>A context with a ring of two entries, configured for 2 ticks in 5, and with both ticks spent.\<close>

definition sample_sc :: sched_ctx where
  "sample_sc = kschedctx_alloc_at 2"

definition sample_conf :: sched_ctx where
  "sample_conf = the (snd (kschedctx_configure (Some sample_sc) 2 5))"

definition sample_spent :: sched_ctx where
  "sample_spent = the (snd (kschedctx_charge_tick (snd (kschedctx_charge_tick (Some sample_conf) 0)) 1))"

subsection \<open>The ring as a queue\<close>

definition ring :: "'a list \<Rightarrow> nat \<Rightarrow> nat \<Rightarrow> nat \<Rightarrow> 'a list" where
  "ring xs m h n = map (\<lambda>i. xs ! ((h + i) mod m)) [0..<n]"

lemma ring_0 [simp]: "ring xs m h 0 = []" and length_ring [simp]: "length (ring xs m h n) = n"
  by (simp_all add: ring_def)

lemma mod_offset_neq: "i < n \<Longrightarrow> n < m \<Longrightarrow> (h + i) mod m \<noteq> (h + n) mod (m :: nat)"
proof
  assume "i < n" "n < m" "(h + i) mod m = (h + n) mod m"
  then have "m dvd (h + n) - (h + i)" by (metis add_le_cancel_left less_imp_le mod_eq_dvd_iff_nat)
  then show False using \<open>i < n\<close> \<open>n < m\<close> by (auto dest: dvd_imp_le)
qed

lemma ring_update: "n < m \<Longrightarrow> ring (xs[(h + n) mod m := r]) m h n = ring xs m h n"
  by (auto simp: ring_def nth_list_update_neq mod_offset_neq [symmetric])

lemma ring_Suc: "ring xs m h (Suc n) = ring xs m h n @ [xs ! ((h + n) mod m)]"
  by (simp add: ring_def)

lemma ring_push: "n < m \<Longrightarrow> length xs = m \<Longrightarrow> ring (xs[(h + n) mod m := r]) m h (Suc n) = ring xs m h n @ [r]"
  by (simp add: ring_Suc ring_update)

lemma ring_pop: "ring xs m h (Suc n) = xs ! (h mod m) # ring xs m (Suc h mod m) n"
  by (simp add: ring_def upt_conv_Cons map_Suc_upt [symmetric] mod_simps del: upt_Suc)

definition pending :: "sched_ctx \<Rightarrow> krefill list" where
  "pending sc = ring (refills sc) (unat (refill_max sc)) (unat (refill_head sc)) (unat (refill_count sc))"

definition ring_ok :: "sched_ctx \<Rightarrow> bool" where
  "ring_ok sc \<longleftrightarrow> 0 < unat (refill_max sc) \<and> unat (refill_max sc) \<le> 2 ^ 31 \<and> unat (refill_head sc) < unat (refill_max sc) \<and>
     unat (refill_count sc) \<le> unat (refill_max sc) \<and> length (refills sc) = unat (refill_max sc)"

definition owed :: "krefill list \<Rightarrow> nat" where
  "owed rs = (\<Sum>r\<leftarrow>rs. unat (amount r))"

definition sc_parts :: "sched_ctx \<Rightarrow> nat" where
  "sc_parts sc = unat (remaining_budget sc) + unat (consumed_run sc) + owed (pending sc)"

definition sc_ok :: "sched_ctx \<Rightarrow> bool" where
  "sc_ok sc \<longleftrightarrow> ring_ok sc \<and> sc_parts sc = unat (budget_ticks sc)"

lemma owed_simps [simp]: "owed [] = 0" "owed (r # rs) = unat (amount r) + owed rs" "owed (rs @ qs) = owed rs + owed qs"
  by (simp_all add: owed_def)

lemma u32_add_mod: "unat a + unat b < 2 ^ 32 \<Longrightarrow> unat ((a + b) mod c) = (unat a + unat b) mod unat c" for a b c :: u32
  by (simp add: unat_mod unat_word_ariths)

lemma u64_add: "unat a + unat b \<le> unat c \<Longrightarrow> unat (a + b) = unat a + unat b" for a b c :: u64
  using unsigned_less [of c, where ?'a = nat] by (simp add: unat_word_ariths)

subsection \<open>What each operation does to the queue\<close>

lemma charge_spec:
  assumes "sc_ok sc" and "kschedctx_charge_tick (Some sc) now = (ex, Some sc')"
  shows "sc_ok sc'" "pending sc' = pending sc" "budget_ticks sc' = budget_ticks sc" "period_ticks sc' = period_ticks sc"
    "remaining_budget sc = 0 \<Longrightarrow> sc' = sc"
    "remaining_budget sc > 0 \<Longrightarrow> unat (remaining_budget sc) = Suc (unat (remaining_budget sc')) \<and>
       unat (consumed_run sc') = Suc (unat (consumed_run sc)) \<and>
       consume_start sc' = (if consumed_run sc = 0 then now else consume_start sc)"
proof -
  have r: "remaining_budget sc > 0 \<Longrightarrow> unat (remaining_budget sc - 1) = unat (remaining_budget sc) - 1 \<and> 0 < unat (remaining_budget sc)"
    by (auto simp: unat_minus_one word_gt_0 unat_gt_0)
  have c: "remaining_budget sc > 0 \<Longrightarrow> unat (consumed_run sc + 1) = Suc (unat (consumed_run sc))"
    using assms(1) r u64_add [of "consumed_run sc" 1 "budget_ticks sc"] by (auto simp: sc_ok_def sc_parts_def)
  show "pending sc' = pending sc" "budget_ticks sc' = budget_ticks sc" "period_ticks sc' = period_ticks sc"
    "remaining_budget sc = 0 \<Longrightarrow> sc' = sc"
    using assms(2) by (auto simp: Let_def pending_def split: if_splits)
  show "remaining_budget sc > 0 \<Longrightarrow> unat (remaining_budget sc) = Suc (unat (remaining_budget sc')) \<and>
       unat (consumed_run sc') = Suc (unat (consumed_run sc)) \<and>
       consume_start sc' = (if consumed_run sc = 0 then now else consume_start sc)"
    using assms(2) r c by (auto simp: Let_def)
  show "sc_ok sc'"
    using assms r c by (auto simp: Let_def sc_ok_def ring_ok_def sc_parts_def pending_def split: if_splits)
qed

text \<open>A new replenishment at the end of the queue, or merged into its newest entry.\<close>

definition merge_refill :: "krefill \<Rightarrow> krefill \<Rightarrow> krefill" where
  "merge_refill q r = \<lparr>at_tick = (if at_tick r > at_tick q then at_tick r else at_tick q), amount = amount q + amount r\<rparr>"

definition run_refill :: "sched_ctx \<Rightarrow> krefill" where
  "run_refill sc = \<lparr>at_tick = consume_start sc + period_ticks sc, amount = consumed_run sc\<rparr>"

definition flushed :: "sched_ctx \<Rightarrow> krefill list" where
  "flushed sc =
     (if refill_count sc < refill_max sc then pending sc @ [run_refill sc]
      else butlast (pending sc) @ [merge_refill (last (pending sc)) (run_refill sc)])"

lemma ring_last_update:
  assumes "0 < n" "n \<le> m" "length xs = m"
  shows "ring (xs[(h + n - 1) mod m := r]) m h n = butlast (ring xs m h n) @ [r]"
    "xs ! ((h + n - 1) mod m) = last (ring xs m h n)"
proof -
  obtain k where "n = Suc k" using assms(1) by (cases n) auto
  then show "ring (xs[(h + n - 1) mod m := r]) m h n = butlast (ring xs m h n) @ [r]"
    "xs ! ((h + n - 1) mod m) = last (ring xs m h n)"
    using assms ring_push [of k m xs h r] by (auto simp: ring_Suc)
qed

lemma owed_merge:
  assumes "rs \<noteq> []" "owed rs + unat (amount r) \<le> unat (b :: u64)"
  shows "owed (butlast rs @ [merge_refill (last rs) r]) = owed rs + unat (amount r)"
proof -
  have "owed rs = owed (butlast rs) + unat (amount (last rs))"
    using assms(1) by (metis append_butlast_last_id owed_simps(1,2,3) add_0_right)
  then show ?thesis using assms(2) u64_add [of "amount (last rs)" "amount r" b] by (simp add: merge_refill_def)
qed

lemma ring_bounds:
  assumes "ring_ok sc"
  shows "unat (refill_head sc) + unat (refill_count sc) < 2 ^ 32"
  using assms by (auto simp: ring_ok_def)

lemma flush_push:
  assumes ok: "ring_ok sc" and c: "consumed_run sc \<noteq> 0" and room: "refill_count sc < refill_max sc"
  obtains sc' where "kschedctx_flush_run (Some sc) = Some (Some sc')" "ring_ok sc'" "pending sc' = flushed sc"
    "remaining_budget sc' = remaining_budget sc" "consumed_run sc' = 0" "budget_ticks sc' = budget_ticks sc"
    "period_ticks sc' = period_ticks sc"
proof -
  let ?i = "(unat (refill_head sc) + unat (refill_count sc)) mod unat (refill_max sc)"
  have i: "unat ((refill_head sc + refill_count sc) mod refill_max sc) = ?i"
    using ring_bounds [OF ok] by (rule u32_add_mod)
  have n: "unat (refill_count sc) < unat (refill_max sc)" using room by (simp add: word_less_nat_alt)
  then have s: "unat (refill_count sc + 1) = Suc (unat (refill_count sc))"
    using ok by (simp add: ring_ok_def unat_word_ariths)
  let ?sc = "sc\<lparr>consumed_run := 0, consume_start := 0, consumed_total := consumed_total sc + consumed_run sc,
      refills := (refills sc)[?i := run_refill sc], refill_count := refill_count sc + 1\<rparr>"
  have "kschedctx_flush_run (Some sc) = Some (Some ?sc)"
    using c room i by (simp add: Let_def run_refill_def)
  moreover have "ring_ok ?sc" using ok n s by (simp add: ring_ok_def)
  moreover have "pending ?sc = flushed sc" using ok n s room by (simp add: pending_def flushed_def ring_push ring_ok_def)
  ultimately show ?thesis by (rule that) simp_all
qed

lemma flush_merge:
  assumes ok: "ring_ok sc" and c: "consumed_run sc \<noteq> 0" and full: "\<not> refill_count sc < refill_max sc"
  obtains sc' where "kschedctx_flush_run (Some sc) = Some (Some sc')" "ring_ok sc'" "pending sc' = flushed sc"
    "remaining_budget sc' = remaining_budget sc" "consumed_run sc' = 0" "budget_ticks sc' = budget_ticks sc"
    "period_ticks sc' = period_ticks sc"
proof -
  let ?n = "unat (refill_count sc)" and ?m = "unat (refill_max sc)" and ?h = "unat (refill_head sc)"
  have n: "?n = ?m" "0 < ?m" using ok full by (auto simp: ring_ok_def word_less_nat_alt)
  have "unat (refill_head sc + refill_count sc - 1) = ?h + ?n - 1"
    using ring_bounds [OF ok] n by (simp add: unat_word_ariths unat_sub_if' word_le_nat_alt)
  then have i: "unat ((refill_head sc + refill_count sc - 1) mod refill_max sc) = (?h + ?n - 1) mod ?m"
    by (simp add: unat_mod)
  have z: "refill_max sc \<noteq> 0" using n(2) by auto
  let ?i = "(?h + ?n - 1) mod ?m"
  let ?sc = "sc\<lparr>consumed_run := 0, consume_start := 0, consumed_total := consumed_total sc + consumed_run sc,
      refills := (refills sc)[?i := merge_refill (refills sc ! ?i) (run_refill sc)]\<rparr>"
  have "kschedctx_flush_run (Some sc) = Some (Some ?sc)"
    using c full i z by (simp add: Let_def run_refill_def merge_refill_def)
  moreover have "ring_ok ?sc" using ok by (simp add: ring_ok_def)
  moreover have "pending ?sc = flushed sc"
    using ok n full ring_last_update [of ?n ?m "refills sc" ?h]
    by (simp add: pending_def flushed_def ring_ok_def)
  ultimately show ?thesis by (rule that) simp_all
qed

lemma flush_spec:
  assumes ok: "sc_ok sc"
  obtains (idle) "consumed_run sc = 0" "kschedctx_flush_run (Some sc) = Some (Some sc)"
  | (run) sc' where "consumed_run sc \<noteq> 0" "kschedctx_flush_run (Some sc) = Some (Some sc')" "sc_ok sc'"
      "pending sc' = flushed sc" "remaining_budget sc' = remaining_budget sc" "consumed_run sc' = 0"
      "budget_ticks sc' = budget_ticks sc" "period_ticks sc' = period_ticks sc"
proof (cases "consumed_run sc = 0")
  case True
  then show ?thesis using idle by simp
next
  case False
  have r: "ring_ok sc" using ok by (simp add: sc_ok_def)
  then obtain sc' where s: "kschedctx_flush_run (Some sc) = Some (Some sc')" "ring_ok sc'" "pending sc' = flushed sc"
    "remaining_budget sc' = remaining_budget sc" "consumed_run sc' = 0" "budget_ticks sc' = budget_ticks sc"
    "period_ticks sc' = period_ticks sc"
    by (cases "refill_count sc < refill_max sc") (erule flush_push flush_merge; use False in blast)+
  have "pending sc \<noteq> []" if "\<not> refill_count sc < refill_max sc"
    using that r by (auto simp: pending_def ring_ok_def word_less_nat_alt simp flip: length_0_conv)
  then have "owed (flushed sc) = owed (pending sc) + unat (consumed_run sc)"
    using ok owed_merge [of "pending sc" "run_refill sc" "budget_ticks sc"]
    by (auto simp: flushed_def run_refill_def sc_ok_def sc_parts_def)
  then have "sc_ok sc'" using s ok by (simp add: sc_ok_def sc_parts_def)
  then show ?thesis using run False s by blast
qed

text \<open>The queue entries that have fallen due, and the context with them given back.\<close>

abbreviation due_by :: "u64 \<Rightarrow> krefill \<Rightarrow> bool" where
  "due_by now r \<equiv> at_tick r \<le> now"

lemma pop_spec:
  assumes "ring_ok sc" "refill_count sc > 0"
  shows "pending sc = refills sc ! unat (refill_head sc) #
      pending (sc\<lparr>remaining_budget := b, refill_head := (refill_head sc + 1) mod refill_max sc, refill_count := refill_count sc - 1\<rparr>)"
    "ring_ok (sc\<lparr>remaining_budget := b, refill_head := (refill_head sc + 1) mod refill_max sc, refill_count := refill_count sc - 1\<rparr>)"
proof -
  obtain n where n: "unat (refill_count sc) = Suc n" "unat (refill_count sc - 1) = n"
    using assms(2) by (cases "unat (refill_count sc)") (auto simp: unat_minus_one word_gt_0 unat_eq_0)
  have h: "unat ((refill_head sc + 1) mod refill_max sc) = Suc (unat (refill_head sc)) mod unat (refill_max sc)"
    using assms(1) u32_add_mod [of "refill_head sc" 1] by (simp add: ring_ok_def)
  show "pending sc = refills sc ! unat (refill_head sc) #
      pending (sc\<lparr>remaining_budget := b, refill_head := (refill_head sc + 1) mod refill_max sc, refill_count := refill_count sc - 1\<rparr>)"
    using n h assms(1) by (simp add: pending_def ring_ok_def ring_pop)
  show "ring_ok (sc\<lparr>remaining_budget := b, refill_head := (refill_head sc + 1) mod refill_max sc, refill_count := refill_count sc - 1\<rparr>)"
    using n h assms(1) by (simp add: ring_ok_def)
qed

lemma apply_loop_spec:
  assumes "sc_ok sc"
  shows "\<exists>sc'. apply_loop now g sc = Some (g \<or> takeWhile (due_by now) (pending sc) \<noteq> [], sc') \<and> sc_ok sc' \<and>
     pending sc' = dropWhile (due_by now) (pending sc) \<and>
     unat (remaining_budget sc') = unat (remaining_budget sc) + owed (takeWhile (due_by now) (pending sc)) \<and>
     sc' = sc\<lparr>remaining_budget := remaining_budget sc', refill_head := refill_head sc', refill_count := refill_count sc'\<rparr>"
  using assms
proof (induction now g sc rule: apply_loop.induct)
  case (1 now g sc)
  let ?r = "refills sc ! unat (refill_head sc)"
  let ?sc = "sc\<lparr>remaining_budget := remaining_budget sc + amount ?r, refill_head := (refill_head sc + 1) mod refill_max sc,
      refill_count := refill_count sc - 1\<rparr>"
  have r: "ring_ok sc" using 1(2) by (simp add: sc_ok_def)
  show ?case
  proof (cases "refill_count sc > 0 \<and> at_tick ?r \<le> now")
    case True
    then have p: "pending sc = ?r # pending ?sc" "ring_ok ?sc" using pop_spec [OF r] by auto
    have z: "refill_max sc \<noteq> 0" using r by (auto simp: ring_ok_def)
    have b: "unat (remaining_budget sc + amount ?r) = unat (remaining_budget sc) + unat (amount ?r)"
      using 1(2) p(1) by (intro u64_add [of _ _ "budget_ticks sc"]) (simp add: sc_ok_def sc_parts_def)
    have "sc_ok ?sc" using 1(2) p b by (simp add: sc_ok_def sc_parts_def)
    then obtain sc' where "apply_loop now True ?sc = Some (True, sc')" "sc_ok sc'"
      "pending sc' = dropWhile (due_by now) (pending ?sc)"
      "unat (remaining_budget sc') = unat (remaining_budget ?sc) + owed (takeWhile (due_by now) (pending ?sc))"
      "sc' = ?sc\<lparr>remaining_budget := remaining_budget sc', refill_head := refill_head sc', refill_count := refill_count sc'\<rparr>"
      using 1(1) [OF True z] by auto
    then show ?thesis using True z p(1) b by (subst apply_loop.simps) (auto intro!: exI [of _ sc'])
  next
    case False
    have "takeWhile (due_by now) (pending sc) = [] \<and> dropWhile (due_by now) (pending sc) = pending sc"
    proof (cases "refill_count sc > 0")
      case True
      then obtain q where "pending sc = ?r # q" using pop_spec(1) [OF r True] by blast
      then show ?thesis using True False by auto
    qed (simp add: pending_def word_gt_0)
    then show ?thesis using False 1(2) by (subst apply_loop.simps) auto
  qed
qed

lemma apply_spec:
  assumes "sc_ok sc"
  obtains sc' where "kschedctx_apply_refills (Some sc) now = Some (takeWhile (due_by now) (pending sc) \<noteq> [], Some sc')"
    "sc_ok sc'" "pending sc' = dropWhile (due_by now) (pending sc)"
    "unat (remaining_budget sc') = unat (remaining_budget sc) + owed (takeWhile (due_by now) (pending sc))"
    "consumed_run sc' = consumed_run sc" "consume_start sc' = consume_start sc"
    "budget_ticks sc' = budget_ticks sc" "period_ticks sc' = period_ticks sc"
proof -
  obtain sc' where a: "apply_loop now False sc = Some (takeWhile (due_by now) (pending sc) \<noteq> [], sc')" "sc_ok sc'"
    "pending sc' = dropWhile (due_by now) (pending sc)"
    "unat (remaining_budget sc') = unat (remaining_budget sc) + owed (takeWhile (due_by now) (pending sc))"
    "sc' = sc\<lparr>remaining_budget := remaining_budget sc', refill_head := refill_head sc', refill_count := refill_count sc'\<rparr>"
    using apply_loop_spec [OF assms, of now False] by auto
  have "\<not> remaining_budget sc' > budget_ticks sc'"
    using a(2) by (simp add: sc_ok_def sc_parts_def word_less_nat_alt)
  moreover have "consumed_run sc' = consumed_run sc" "consume_start sc' = consume_start sc"
    "budget_ticks sc' = budget_ticks sc" "period_ticks sc' = period_ticks sc"
    by (subst a(5); simp)+
  ultimately show ?thesis using a(1-4) by (intro that [of sc']) simp_all
qed

subsection \<open>The run each replenishment stands for\<close>

text \<open>
  \<open>backed P L e xs\<close>: from tick \<open>e\<close> on, the charged ticks \<open>L\<close> split into one stretch for each queue
  entry; an entry carries the start and the length of the last run it stands for, is due no
  earlier than one period after that start, and gives back as many ticks as its stretch holds.
\<close>

primrec backed :: "nat \<Rightarrow> nat set \<Rightarrow> nat \<Rightarrow> (krefill \<times> nat \<times> nat) list \<Rightarrow> bool" where
  "backed P L e [] \<longleftrightarrow> True"
| "backed P L e (x # xs) \<longleftrightarrow> (case x of (r, b, k) \<Rightarrow>
     e \<le> b + k \<and> k \<le> unat (amount r) \<and> b + P \<le> unat (at_tick r) \<and> card (L \<inter> {e..<b + k}) = unat (amount r) \<and>
     backed P L (b + k) xs)"

primrec chain_end :: "nat \<Rightarrow> (krefill \<times> nat \<times> nat) list \<Rightarrow> nat" where
  "chain_end e [] = e"
| "chain_end e (x # xs) = chain_end (fst (snd x) + snd (snd x)) xs"

lemma chain_end_append: "chain_end e (xs @ ys) = chain_end (chain_end e xs) ys"
  by (induction xs arbitrary: e) auto

lemma backed_append: "backed P L e (xs @ ys) \<longleftrightarrow> backed P L e xs \<and> backed P L (chain_end e xs) ys"
  by (induction xs arbitrary: e) (auto split: prod.splits)

lemma backed_le: "backed P L e xs \<Longrightarrow> e \<le> chain_end e xs"
  by (induction xs arbitrary: e) (fastforce split: prod.splits)+

lemma backed_insert: "backed P L e xs \<Longrightarrow> chain_end e xs \<le> now \<Longrightarrow> backed P (insert now L) e xs"
proof (induction xs arbitrary: e)
  case (Cons x xs)
  obtain r b k where x: "x = (r, b, k)" by (cases x)
  have "b + k \<le> now" using Cons.prems x backed_le [of P L "b + k" xs] by simp
  then have "insert now L \<inter> {e..<b + k} = L \<inter> {e..<b + k}" by auto
  then show ?case using Cons x by simp
qed simp

lemma card_split: "a \<le> b \<Longrightarrow> b \<le> c \<Longrightarrow> card (L \<inter> {a..<c}) = card (L \<inter> {a..<b}) + card (L \<inter> {b..<c})" for L :: "nat set"
  by (subst card_Un_disjoint [symmetric]) (auto intro!: arg_cong [of _ _ card])

lemma backed_card: "backed P L e xs \<Longrightarrow> card (L \<inter> {e..<chain_end e xs}) = owed (map fst xs)"
proof (induction xs arbitrary: e)
  case (Cons x xs)
  obtain r b k where x: "x = (r, b, k)" by (cases x)
  have "b + k \<le> chain_end (b + k) xs" using Cons.prems x backed_le [of P L] by simp
  then show ?case using Cons x card_split [of e "b + k" "chain_end (b + k) xs" L] by simp
qed simp

text \<open>\<open>(b, k)\<close> is the last run given back; ticks from its end on are owed or in the current run.\<close>

definition traced :: "sched_ctx \<Rightarrow> nat \<Rightarrow> nat set \<Rightarrow> nat \<Rightarrow> nat \<Rightarrow> (krefill \<times> nat \<times> nat) list \<Rightarrow> bool" where
  "traced sc now L b k xs \<longleftrightarrow>
     map fst xs = pending sc \<and> backed (unat (period_ticks sc)) L (b + k) xs \<and>
     (b = 0 \<and> k = 0 \<or> b + unat (period_ticks sc) + k \<le> now + unat (remaining_budget sc)) \<and>
     chain_end (b + k) xs \<le> now \<and> card (L \<inter> {chain_end (b + k) xs..<now}) = unat (consumed_run sc) \<and>
     (consumed_run sc \<noteq> 0 \<longrightarrow> chain_end (b + k) xs \<le> unat (consume_start sc) \<and>
        unat (consume_start sc) + unat (consumed_run sc) = now)"

definition bandwidth_ok :: "sched_ctx \<Rightarrow> nat \<Rightarrow> nat set \<Rightarrow> bool" where
  "bandwidth_ok sc now L \<longleftrightarrow> sc_ok sc \<and> finite L \<and> L \<subseteq> {..<now} \<and> (\<exists>b k xs. traced sc now L b k xs) \<and>
     (\<forall>r \<in> set (pending sc). unat (at_tick r) \<le> now + unat (period_ticks sc)) \<and>
     (\<forall>w. card (L \<inter> {w..<w + unat (period_ticks sc)}) \<le> unat (budget_ticks sc))"

text \<open>A tick can be charged without filling any window beyond the budget.\<close>

lemma room_in_window:
  assumes ok: "sc_ok sc" and t: "traced sc now L b k xs" and fin: "finite L" and r: "remaining_budget sc > 0"
    and w: "w \<le> now" "now < w + unat (period_ticks sc)"
  shows "card (L \<inter> {w..<now}) < unat (budget_ticks sc)"
proof -
  let ?e = "chain_end (b + k) xs"
  have "card (L \<inter> {b + k..<now}) = card (L \<inter> {b + k..<?e}) + card (L \<inter> {?e..<now})"
    using t backed_le by (intro card_split) (auto simp: traced_def)
  also have "\<dots> = owed (pending sc) + unat (consumed_run sc)"
    using t backed_card by (metis traced_def)
  finally have c: "card (L \<inter> {b + k..<now}) + unat (remaining_budget sc) = unat (budget_ticks sc)"
    using ok by (simp add: sc_ok_def sc_parts_def)
  have "card (L \<inter> {w..<now}) \<le> card ((L \<inter> {b + k..<now}) \<union> {w..<b + k})"
    using fin by (intro card_mono) auto
  also have "\<dots> \<le> card (L \<inter> {b + k..<now}) + (b + k - w)"
    using card_Un_le [of "L \<inter> {b + k..<now}" "{w..<b + k}"] by simp
  finally have "card (L \<inter> {w..<now}) \<le> card (L \<inter> {b + k..<now}) + (b + k - w)" .
  moreover have "b = 0 \<and> k = 0 \<or> b + unat (period_ticks sc) + k \<le> now + unat (remaining_budget sc)"
    using t by (simp add: traced_def)
  moreover have "0 < unat (remaining_budget sc)" using r by (simp add: word_less_nat_alt)
  ultimately show ?thesis using c w by linarith
qed

subsection \<open>Every step keeps the bandwidth\<close>

lemma time_word: "now < 2 ^ 64 \<Longrightarrow> unat (of_nat now :: u64) = now"
  by (simp add: unat_of_nat)

lemma due_nat:
  assumes "unat (consume_start sc) \<le> now" "now + unat (period_ticks sc) < 2 ^ 64"
  shows "unat (consume_start sc + period_ticks sc) = unat (consume_start sc) + unat (period_ticks sc)"
  using assms by (simp add: unat_word_ariths)

lemma charge_keeps:
  assumes bw: "bandwidth_ok sc now L" and c: "kschedctx_charge_tick (Some sc) (of_nat now) = (ex, Some sc')"
    and r: "remaining_budget sc > 0" and now: "now < 2 ^ 64"
  shows "bandwidth_ok sc' (now + 1) (insert now L)"
proof -
  have ok: "sc_ok sc" and fin: "finite L" "L \<subseteq> {..<now}" using bw by (auto simp: bandwidth_ok_def)
  obtain b k xs where t: "traced sc now L b k xs" using bw by (auto simp: bandwidth_ok_def)
  note s = charge_spec [OF ok c] and f = charge_spec(6) [OF ok c r]
  let ?e = "chain_end (b + k) xs"
  have e: "?e \<le> now" using t by (simp add: traced_def)
  then have "insert now L \<inter> {?e..<now + 1} = insert now (L \<inter> {?e..<now})" by auto
  then have card: "card (insert now L \<inter> {?e..<now + 1}) = Suc (card (L \<inter> {?e..<now}))" using fin by simp
  have "traced sc' (now + 1) (insert now L) b k xs"
    using t s f card e time_word [OF now] backed_insert
    by (auto simp: traced_def split: if_splits)
  moreover have "card (insert now L \<inter> {w..<w + unat (period_ticks sc)}) \<le> unat (budget_ticks sc)" for w
  proof (cases "w \<le> now \<and> now < w + unat (period_ticks sc)")
    case True
    then have "insert now L \<inter> {w..<w + unat (period_ticks sc)} = insert now (L \<inter> {w..<now})" using fin(2) by auto
    then show ?thesis using room_in_window [OF ok t fin(1) r] True fin(1) by (simp add: Suc_leI)
  next
    case False
    then have "insert now L \<inter> {w..<w + unat (period_ticks sc)} = L \<inter> {w..<w + unat (period_ticks sc)}" by auto
    then show ?thesis using bw by (simp add: bandwidth_ok_def)
  qed
  ultimately show ?thesis using bw s fin unfolding bandwidth_ok_def by (fastforce simp: less_Suc_eq)
qed

lemma pass_keeps:
  assumes bw: "bandwidth_ok sc now L" and c: "consumed_run sc = 0" and le: "now \<le> now'"
  shows "bandwidth_ok sc now' L"
proof -
  obtain b k xs where t: "traced sc now L b k xs" using bw by (auto simp: bandwidth_ok_def)
  have "L \<inter> {chain_end (b + k) xs..<now'} = L \<inter> {chain_end (b + k) xs..<now}"
    using bw le by (auto simp: bandwidth_ok_def)
  then have "traced sc now' L b k xs" using t c le by (auto simp: traced_def)
  then show ?thesis using bw le by (fastforce simp: bandwidth_ok_def)
qed

lemma flush_traced:
  assumes ok: "sc_ok sc" and t: "traced sc now L b k xs" and c: "consumed_run sc \<noteq> 0"
    and now: "now + unat (period_ticks sc) < 2 ^ 64"
  shows "\<exists>ys. map fst ys = flushed sc \<and> backed (unat (period_ticks sc)) L (b + k) ys \<and> chain_end (b + k) ys = now"
proof -
  let ?P = "unat (period_ticks sc)" and ?e = "chain_end (b + k) xs"
    and ?run = "(unat (consume_start sc), unat (consumed_run sc))"
  have run: "?e \<le> unat (consume_start sc)" "unat (consume_start sc) + unat (consumed_run sc) = now"
    "card (L \<inter> {?e..<now}) = unat (consumed_run sc)" using t c by (auto simp: traced_def)
  have due: "unat (at_tick (run_refill sc)) = unat (consume_start sc) + ?P"
    using due_nat [of sc now] run now by (simp add: run_refill_def)
  show ?thesis
  proof (cases "refill_count sc < refill_max sc")
    case True
    then have "map fst (xs @ [(run_refill sc, ?run)]) = flushed sc"
      using t by (simp add: flushed_def traced_def)
    moreover have "backed ?P L (b + k) (xs @ [(run_refill sc, ?run)])"
      using t run due by (auto simp: backed_append traced_def run_refill_def)
    ultimately show ?thesis using run by (metis chain_end.simps chain_end_append fst_conv snd_conv)
  next
    case False
    then have "pending sc \<noteq> []"
      using ok by (auto simp: pending_def ring_ok_def sc_ok_def word_less_nat_alt simp flip: length_0_conv)
    then obtain ys q b' k' where xs: "xs = ys @ [(q, b', k')]"
      using t by (cases xs rule: rev_cases) (auto simp: traced_def)
    have p: "pending sc = map fst ys @ [q]" using t xs by (simp add: traced_def)
    let ?f = "chain_end (b + k) ys" and ?m = "merge_refill q (run_refill sc)"
    have q: "?f \<le> b' + k'" "b' + k' = ?e" "card (L \<inter> {?f..<b' + k'}) = unat (amount q)"
      using t xs by (auto simp: traced_def backed_append chain_end_append)
    have "unat (amount q) \<le> owed (pending sc)" using p by simp
    then have amt: "unat (amount ?m) = unat (amount q) + unat (consumed_run sc)"
      using ok u64_add [of "amount q" "consumed_run sc" "budget_ticks sc"]
      by (simp add: merge_refill_def run_refill_def sc_ok_def sc_parts_def)
    have at: "unat (consume_start sc) + ?P \<le> unat (at_tick ?m)"
      using due by (auto simp: merge_refill_def word_less_nat_alt)
    have "card (L \<inter> {?f..<now}) = unat (amount ?m)"
      using card_split [of ?f "b' + k'" now L] q run amt by simp
    then have "backed ?P L (b + k) (ys @ [(?m, ?run)])"
      using t xs run at amt q by (auto simp: backed_append traced_def)
    moreover have "map fst (ys @ [(?m, ?run)]) = flushed sc" using False p by (simp add: flushed_def)
    ultimately show ?thesis using run by (metis chain_end.simps chain_end_append fst_conv snd_conv)
  qed
qed

lemma flush_keeps:
  assumes bw: "bandwidth_ok sc now L" and f: "kschedctx_flush_run (Some sc) = Some (Some sc')"
    and now: "now + unat (period_ticks sc) < 2 ^ 64"
  shows "bandwidth_ok sc' now L"
proof -
  have ok: "sc_ok sc" using bw by (simp add: bandwidth_ok_def)
  show ?thesis
  proof (rule flush_spec [OF ok])
    assume "kschedctx_flush_run (Some sc) = Some (Some sc)"
    then show ?thesis using f bw by simp
  next
    fix sc1
    assume c: "consumed_run sc \<noteq> 0" and f1: "kschedctx_flush_run (Some sc) = Some (Some sc1)"
      and s: "sc_ok sc1" "pending sc1 = flushed sc" "remaining_budget sc1 = remaining_budget sc" "consumed_run sc1 = 0"
        "budget_ticks sc1 = budget_ticks sc" "period_ticks sc1 = period_ticks sc"
    obtain b k xs where t: "traced sc now L b k xs" using bw by (auto simp: bandwidth_ok_def)
    obtain ys where y: "map fst ys = flushed sc" "backed (unat (period_ticks sc)) L (b + k) ys" "chain_end (b + k) ys = now"
      using flush_traced [OF ok t c now] by blast
    have "traced sc1 now L b k ys" using t y s by (auto simp: traced_def)
    moreover have "unat (at_tick r) \<le> now + unat (period_ticks sc)" if "r \<in> set (flushed sc)" for r
    proof -
      have "unat (consume_start sc) \<le> now" using t c by (auto simp: traced_def)
      then have "unat (at_tick (run_refill sc)) \<le> now + unat (period_ticks sc)"
        using due_nat [of sc now] now by (simp add: run_refill_def)
      moreover have "pending sc \<noteq> []" if "\<not> refill_count sc < refill_max sc"
        using that ok by (auto simp: pending_def ring_ok_def sc_ok_def word_less_nat_alt simp flip: length_0_conv)
      ultimately show ?thesis using that bw
        by (auto simp: bandwidth_ok_def flushed_def merge_refill_def dest: in_set_butlastD split: if_splits)
    qed
    ultimately have "bandwidth_ok sc1 now L" using bw s by (auto simp: bandwidth_ok_def)
    then show ?thesis using f f1 by simp
  qed
qed

lemma apply_keeps:
  assumes bw: "bandwidth_ok sc now L" and a: "kschedctx_apply_refills (Some sc) (of_nat now) = Some (g, Some sc')"
    and now: "now < 2 ^ 64"
  shows "bandwidth_ok sc' now L"
proof -
  have ok: "sc_ok sc" using bw by (simp add: bandwidth_ok_def)
  let ?due = "due_by (of_nat now)"
  obtain sc1 where a1: "kschedctx_apply_refills (Some sc) (of_nat now) = Some (takeWhile ?due (pending sc) \<noteq> [], Some sc1)"
    and s1: "sc_ok sc1" "pending sc1 = dropWhile ?due (pending sc)"
    "unat (remaining_budget sc1) = unat (remaining_budget sc) + owed (takeWhile ?due (pending sc))"
    "consumed_run sc1 = consumed_run sc" "consume_start sc1 = consume_start sc"
    "budget_ticks sc1 = budget_ticks sc" "period_ticks sc1 = period_ticks sc"
    by (rule apply_spec [OF ok])
  have "sc1 = sc'" using a a1 by (simp del: kschedctx_apply_refills.simps)
  note s = s1 [unfolded this]
  obtain b k xs where t: "traced sc now L b k xs" using bw by (auto simp: bandwidth_ok_def)
  define ds where "ds = takeWhile (?due \<circ> fst) xs"
  define us where "us = dropWhile (?due \<circ> fst) xs"
  have xs: "xs = ds @ us" "map fst ds = takeWhile ?due (pending sc)" "map fst us = dropWhile ?due (pending sc)"
    using t by (simp_all add: ds_def us_def traced_def takeWhile_map dropWhile_map comp_def eq_commute [of _ "pending sc"])
  have "\<exists>b' k'. traced sc' now L b' k' us"
  proof (cases ds rule: rev_cases)
    case Nil
    then have "traced sc' now L b k us" using t xs s by (auto simp: traced_def)
    then show ?thesis by blast
  next
    case (snoc es x)
    obtain r b' k' where x: "x = (r, b', k')" by (cases x)
    have "r \<in> set (takeWhile ?due (pending sc))" using snoc x by (simp flip: xs(2))
    then have "unat (at_tick r) \<le> now" using time_word [OF now] by (auto dest: set_takeWhileD simp: word_le_nat_alt)
    moreover have "unat (amount r) \<le> unat (remaining_budget sc')"
      using snoc x s(3) by (simp flip: xs(2))
    ultimately have "traced sc' now L b' k' us"
      using t xs(1,3) s snoc x by (auto simp: traced_def backed_append chain_end_append)
    then show ?thesis by blast
  qed
  then show ?thesis using bw s by (auto simp: bandwidth_ok_def dest: set_dropWhileD)
qed

lemma flush_result:
  assumes "sc_ok sc" "kschedctx_flush_run (Some sc) = Some (Some sc')"
  shows "sc_ok sc' \<and> period_ticks sc' = period_ticks sc \<and> budget_ticks sc' = budget_ticks sc \<and>
     remaining_budget sc' = remaining_budget sc \<and> consumed_run sc' = 0"
  by (rule flush_spec [OF assms(1)]) (use assms in \<open>simp_all del: kschedctx_flush_run.simps\<close>)

lemma apply_result:
  assumes "sc_ok sc" "kschedctx_apply_refills (Some sc) now = Some (g, Some sc')"
  shows "sc_ok sc' \<and> period_ticks sc' = period_ticks sc \<and> budget_ticks sc' = budget_ticks sc"
  by (rule apply_spec [OF assms(1), of now]) (use assms in \<open>simp_all del: kschedctx_apply_refills.simps\<close>)

lemma bound_same: "\<exists>b. sc = sc\<lparr>bound_task := b\<rparr>"
  by (rule exI [of _ "bound_task sc"]) (cases sc, simp)

lemma bind_result: "kschedctx_bind (Some sc) t = (st, Some sc') \<Longrightarrow> \<exists>b. sc' = sc\<lparr>bound_task := b\<rparr>"
  using bound_same [of sc] by (cases t) (auto split: if_split_asm)

lemma unbind_result: "kschedctx_unbind (Some sc) t = Some sc' \<Longrightarrow> \<exists>b. sc' = sc\<lparr>bound_task := b\<rparr>"
  using bound_same [of sc] by (auto split: if_split_asm)

lemma bound_irrelevant [simp]:
  "sc_ok (sc\<lparr>bound_task := b\<rparr>) = sc_ok sc" "bandwidth_ok (sc\<lparr>bound_task := b\<rparr>) now L = bandwidth_ok sc now L"
  by (simp_all add: bandwidth_ok_def traced_def sc_ok_def ring_ok_def sc_parts_def pending_def)

lemma step_ok:
  assumes "sc_step (sc, now, log) (sc', now', log')" "sc_ok sc"
  shows "sc_ok sc' \<and> now \<le> now' \<and> period_ticks sc' = period_ticks sc \<and> budget_ticks sc' = budget_ticks sc"
  using assms(1)
proof cases
  case (sc_charge ex)
  then show ?thesis using charge_spec(1,3,4) [OF assms(2) sc_charge(4)] by simp
next
  case sc_flush
  then show ?thesis using flush_result [OF assms(2)] by blast
next
  case (sc_apply gained)
  then show ?thesis using apply_result [OF assms(2)] by blast
next
  case (sc_bind t st)
  then show ?thesis using assms(2) by (auto dest!: bind_result simp del: kschedctx_bind.simps)
next
  case (sc_unbind t)
  then show ?thesis using assms(2) by (auto dest!: unbind_result simp del: kschedctx_unbind.simps)
qed (use assms in simp)

lemma step_bandwidth:
  assumes st: "sc_step (sc, now, log) (sc', now', log')" and bw: "bandwidth_ok sc now (set log)"
    and now: "now' + unat (period_ticks sc) < 2 ^ 64"
  shows "bandwidth_ok sc' now' (set log')"
proof -
  have ok: "sc_ok sc" using bw by (simp add: bandwidth_ok_def)
  have b: "now + unat (period_ticks sc) < 2 ^ 64" "now < 2 ^ 64" using step_ok [OF st ok] now by auto
  show ?thesis using st
  proof cases
    case (sc_charge ex)
    show ?thesis
    proof (cases "remaining_budget sc > 0")
      case True
      then show ?thesis using charge_keeps [OF bw sc_charge(4) True b(2)] sc_charge by simp
    next
      case False
      then have "sc' = sc" using charge_spec(5) [OF ok sc_charge(4)] by (simp add: word_gt_0)
      then show ?thesis using pass_keeps [OF bw, of "now + 1"] False sc_charge by simp
    qed
  next
    case sc_pass
    then show ?thesis using pass_keeps [OF bw] by simp
  next
    case sc_flush
    then show ?thesis using flush_keeps [OF bw _ b(1)] by simp
  next
    case (sc_apply g)
    then show ?thesis using apply_keeps [OF bw _ b(2)] by simp
  next
    case (sc_bind t st)
    then show ?thesis using bw by (auto dest!: bind_result simp del: kschedctx_bind.simps)
  next
    case (sc_unbind t)
    then show ?thesis using bw by (auto dest!: unbind_result simp del: kschedctx_unbind.simps)
  qed
qed

lemma configured_bandwidth:
  assumes "kschedctx_configure (Some sc0) B P = (IRIS_OK, Some sc)" "ring_ok sc0"
  shows "bandwidth_ok sc t0 {}" "period_ticks sc = P" "budget_ticks sc = B" "sc_ok sc"
proof -
  have sc: "sc = kschedctx_refill_reset_locked
      (sc0\<lparr>budget_ticks := B, period_ticks := P, remaining_budget := B, configured := True\<rparr>)"
    using assms(1) by (auto split: if_splits)
  then show p: "period_ticks sc = P" "budget_ticks sc = B" and ok: "sc_ok sc"
    using assms(2) by (auto simp: sc_ok_def ring_ok_def sc_parts_def pending_def kschedctx_refill_reset_locked_def)
  have "traced sc t0 {} 0 0 []" using sc by (simp add: traced_def pending_def kschedctx_refill_reset_locked_def)
  then show "bandwidth_ok sc t0 {}"
    using ok sc by (auto simp: bandwidth_ok_def pending_def kschedctx_refill_reset_locked_def)
qed

lemma reach_bandwidth:
  assumes "sc_step\<^sup>*\<^sup>* (sc, t0, log0) (sc', now, log)" "bandwidth_ok sc t0 (set log0)"
  shows "sc_ok sc' \<and> period_ticks sc' = period_ticks sc \<and> budget_ticks sc' = budget_ticks sc \<and>
     (now + unat (period_ticks sc) < 2 ^ 64 \<longrightarrow> bandwidth_ok sc' now (set log))"
  using assms(1)
proof (induction "(sc', now, log)" arbitrary: sc' now log rule: rtranclp_induct)
  case base
  then show ?case using assms(2) by (simp add: bandwidth_ok_def)
next
  case (step y)
  obtain sy ny ly where y: "y = (sy, ny, ly)" by (cases y)
  then show ?case using step(3) [OF y] step(2) step_ok [of sy ny ly] step_bandwidth [of sy ny ly] by fastforce
qed

subsection \<open>Properties\<close>


lemma sample_ring: "ring_ok sample_sc"
  by (simp add: sample_sc_def kschedctx_alloc_at_def ring_ok_def)

lemma sample_configured: "kschedctx_configure (Some sample_sc) 2 5 = (IRIS_OK, Some sample_conf)"
  by (simp add: sample_conf_def)

lemmas sample_defs = sample_sc_def sample_conf_def sample_spent_def kschedctx_alloc_at_def kschedctx_refill_reset_locked_def

lemma sample_reach: "sc_step\<^sup>*\<^sup>* (sample_conf, 0, []) (sample_spent, 2, [1, 0])"
proof -
  let ?mid = "the (snd (kschedctx_charge_tick (Some sample_conf) 0))"
  have "sc_step (sample_conf, 0, []) (?mid, 1, [0])"
    using sc_charge [of sample_conf 0 "fst (kschedctx_charge_tick (Some sample_conf) 0)" ?mid "[]"]
    by (simp add: sample_defs)
  moreover have "sc_step (?mid, 1, [0]) (sample_spent, 1 + 1, [1, 0])"
    using sc_charge [of ?mid 1 "fst (kschedctx_charge_tick (Some ?mid) 1)" sample_spent "[0]"]
    by (simp add: sample_defs)
  ultimately show ?thesis unfolding one_add_one by (meson converse_rtranclp_into_rtranclp r_into_rtranclp)
qed


text \<open>
  C24.  A spent budget comes back.  In every reachable state in which no budget remains, closing
  the run queues a replenishment, and applying replenishments one period later returns with the
  whole budget available and the queue empty.  So a thread parked on its budget always has
  something to wait for.
\<close>

theorem budget_returns:
  assumes "kschedctx_configure (Some sc0) B P = (IRIS_OK, Some sc)" "ring_ok sc0"
    and "sc_step\<^sup>*\<^sup>* (sc, t0, []) (sc', now, log)" "now + unat P < 2 ^ 64"
    and "remaining_budget sc' = 0" "now + unat P \<le> later" "later < 2 ^ 64"
  shows "\<exists>sc1 sc2. kschedctx_flush_run (Some sc') = Some (Some sc1) \<and> kschedctx_has_refill (Some sc1) \<and>
     kschedctx_apply_refills (Some sc1) (of_nat later) = Some (True, Some sc2) \<and>
     remaining_budget sc2 = B \<and> \<not> kschedctx_has_refill (Some sc2)"
proof -
  note c = configured_bandwidth(1) [OF assms(1,2), of t0] configured_bandwidth(2-4) [OF assms(1,2)]
  have B: "0 < unat B" using assms(1) by (auto simp: unat_gt_0 split: if_splits)
  have bw: "bandwidth_ok sc' now (set log)" "period_ticks sc' = P" "budget_ticks sc' = B" "sc_ok sc'"
    using reach_bandwidth [OF assms(3)] assms(4) c by auto
  obtain sc1 where f: "kschedctx_flush_run (Some sc') = Some (Some sc1)" by (rule flush_spec [OF bw(4)]) auto
  have bw1: "bandwidth_ok sc1 now (set log)" by (rule flush_keeps [OF bw(1) f]) (use bw assms(4) in simp)
  have p1: "sc_ok sc1" "period_ticks sc1 = P" "budget_ticks sc1 = B" "remaining_budget sc1 = 0" "consumed_run sc1 = 0"
    using flush_result [OF bw(4) f] bw assms(5) by auto
  then have o1: "owed (pending sc1) = unat B" by (simp add: sc_ok_def sc_parts_def)
  then have ne: "pending sc1 \<noteq> []" using B by auto
  have "due_by (of_nat later) r" if "r \<in> set (pending sc1)" for r
    using that bw1 assms(6,7) p1(2) time_word [of later] by (auto simp: bandwidth_ok_def word_le_nat_alt)
  then have all: "takeWhile (due_by (of_nat later)) (pending sc1) = pending sc1"
    "dropWhile (due_by (of_nat later)) (pending sc1) = []" by (auto simp: takeWhile_eq_all_conv dropWhile_eq_Nil_conv)
  obtain sc2 where a: "kschedctx_apply_refills (Some sc1) (of_nat later) = Some (pending sc1 \<noteq> [], Some sc2)"
    "pending sc2 = []" "unat (remaining_budget sc2) = unat B"
    using p1 o1 by (rule_tac apply_spec [OF p1(1), of "of_nat later"]) (auto simp: all)
  have "refill_count sc1 > 0" "\<not> refill_count sc2 > 0"
    using ne a(2) by (auto simp: pending_def word_gt_0 unat_eq_0 simp flip: length_0_conv)
  moreover have "remaining_budget sc2 = B" using a(3) by (simp add: word_unat_eq_iff)
  ultimately have "kschedctx_has_refill (Some sc1)" "\<not> kschedctx_has_refill (Some sc2)" by simp_all
  moreover have "kschedctx_apply_refills (Some sc1) (of_nat later) = Some (True, Some sc2)"
    using a(1) ne by (simp del: kschedctx_apply_refills.simps)
  ultimately show ?thesis using f \<open>remaining_budget sc2 = B\<close> by blast
qed

theorem budget_returns_witness:
  "\<exists>sc1 sc2. kschedctx_flush_run (Some sample_spent) = Some (Some sc1) \<and> kschedctx_has_refill (Some sc1) \<and>
     kschedctx_apply_refills (Some sc1) (of_nat 7) = Some (True, Some sc2) \<and>
     remaining_budget sc2 = 2 \<and> \<not> kschedctx_has_refill (Some sc2)"
proof (rule budget_returns [OF sample_configured sample_ring sample_reach])
  show "remaining_budget sample_spent = 0" by (simp add: sample_defs)
qed simp_all

end
