(* ===== verification/Iris_RunQueue.thy ===== *)
theory Iris_RunQueue
  imports Iris_SchedCtx
begin

text \<open>
  The run queues: \<^verbatim>\<open>kernel/core/scheduler/task_lifecycle.c\<close>.  A processor has one queue for each
  domain and priority, a list linked through the threads themselves, and a bitmap of the
  priorities that hold a thread.  A thread is its number; None in place of a thread is the null
  pointer, and an outer None a null dereference or a list walk that does not end.  The lemmas show
  that the links and the bitmap implement one first-in first-out list for each key.
\<close>

type_synonym tid = nat

definition IRIS_NUM_DOMAINS :: nat where "IRIS_NUM_DOMAINS = 4"

datatype task_state =
    TASK_READY | TASK_RUNNING | TASK_BLOCKED_IPC | TASK_BLOCKED_IRQ | TASK_SLEEPING_RETIRED | TASK_BLOCKED_FAULT
  | TASK_BLOCKED_SEND | TASK_BLOCKED_RECV | TASK_BUDGET_EXHAUSTED | TASK_BLOCKED_REPLY | TASK_SUSPENDED
  | TASK_TERMINATED | TASK_DEAD

text \<open>The fields of \<^verbatim>\<open>struct task\<close> the scheduler reads and writes.\<close>

record tcb =
  state :: task_state
  priority :: u8
  domain :: u8
  home_cpu :: nat
  rq_next :: "tid option"
  rq_queued :: bool
  terminal :: bool
  sched_ctx_of :: "nat option"
  wake_tick :: u64
  time_slice :: u32
  ticks_left :: u32
  need_resched :: bool
  timeout_ep :: bool
  timeout_pending :: bool

record run_queue =
  rq_head :: "nat \<Rightarrow> nat \<Rightarrow> tid option"
  rq_tail :: "nat \<Rightarrow> nat \<Rightarrow> tid option"
  rq_mask :: "nat \<Rightarrow> nat \<Rightarrow> u64"

text \<open>
  The scheduler's globals: the threads, the queue of each processor, the scheduling contexts, the
  domain that holds the processors and the cursor of its schedule, the thread each processor runs,
  the thread list, the clock, and the diagnostic counters.
\<close>

record sched =
  tcbs :: "tid \<Rightarrow> tcb option"
  rqs :: "nat \<Rightarrow> run_queue option"
  sctxs :: "nat \<Rightarrow> sched_ctx option"
  cur_domain :: u8
  dom_sched_idx :: u32
  dom_ticks_left :: u32
  dom_switches :: u64
  current_task :: "nat \<Rightarrow> tid option"
  sched_thread_list :: "tid list"
  sched_idle_thread :: tid
  scheduler_ticks :: u64
  wall_ticks :: u64
  rq_live_count :: u32
  rq_live_hwm :: u32
  sched_dup_enq :: u32

definition put_tcb :: "tid \<Rightarrow> tcb \<Rightarrow> 'z sched_scheme \<Rightarrow> 'z sched_scheme" where
  "put_tcb t k \<sigma> = \<sigma>\<lparr>tcbs := (tcbs \<sigma>)(t \<mapsto> k)\<rparr>"

definition put_rq :: "nat \<Rightarrow> run_queue \<Rightarrow> 'z sched_scheme \<Rightarrow> 'z sched_scheme" where
  "put_rq c rq \<sigma> = \<sigma>\<lparr>rqs := (rqs \<sigma>)(c \<mapsto> rq)\<rparr>"

definition upd2 :: "nat \<Rightarrow> nat \<Rightarrow> 'a \<Rightarrow> (nat \<Rightarrow> nat \<Rightarrow> 'a) \<Rightarrow> nat \<Rightarrow> nat \<Rightarrow> 'a" where
  "upd2 d p v f = f(d := (f d)(p := v))"

definition rq_live_inc :: "'z sched_scheme \<Rightarrow> 'z sched_scheme" where
  "rq_live_inc \<sigma> = (let n = rq_live_count \<sigma> + 1 in
     \<sigma>\<lparr>rq_live_count := n, rq_live_hwm := (if n > rq_live_hwm \<sigma> then n else rq_live_hwm \<sigma>)\<rparr>)"

definition rq_live_dec :: "'z sched_scheme \<Rightarrow> 'z sched_scheme" where
  "rq_live_dec \<sigma> = \<sigma>\<lparr>rq_live_count := rq_live_count \<sigma> - 1\<rparr>"

definition rq_dom_of :: "tcb \<Rightarrow> nat" where
  "rq_dom_of k = (if unat (domain k) < IRIS_NUM_DOMAINS then unat (domain k) else 0)"

definition rq_link_locked :: "nat \<Rightarrow> tid \<Rightarrow> 'z sched_scheme \<Rightarrow> 'z sched_scheme option" where
  "rq_link_locked c t \<sigma> = do {
     rq \<leftarrow> rqs \<sigma> c;
     k \<leftarrow> tcbs \<sigma> t;
     let prio = unat (priority k);
     let d = rq_dom_of k;
     if rq_queued k then Some (\<sigma>\<lparr>sched_dup_enq := sched_dup_enq \<sigma> + 1\<rparr>)
     else do {
       let \<sigma>1 = put_tcb t (k\<lparr>rq_queued := True, rq_next := None\<rparr>) \<sigma>;
       (case rq_head rq d prio of
          None \<Rightarrow>
            Some (rq_live_inc (put_rq c (rq\<lparr>rq_head := upd2 d prio (Some t) (rq_head rq),
              rq_tail := upd2 d prio (Some t) (rq_tail rq),
              rq_mask := upd2 d (prio div 64) (rq_mask rq d (prio div 64) OR push_bit (prio mod 64) 1) (rq_mask rq)\<rparr>) \<sigma>1))
        | Some _ \<Rightarrow> do {
            lt \<leftarrow> rq_tail rq d prio;
            kl \<leftarrow> tcbs \<sigma>1 lt;
            Some (rq_live_inc (put_rq c (rq\<lparr>rq_tail := upd2 d prio (Some t) (rq_tail rq)\<rparr>)
              (put_tcb lt (kl\<lparr>rq_next := Some t\<rparr>) \<sigma>1)))
          })
     }
   }"

text \<open>The walk of \<^verbatim>\<open>rq_unlink_locked\<close>: the thread before the sought one, and whether it was found.\<close>

partial_function (option) rq_find ::
    "(tid \<Rightarrow> tcb option) \<Rightarrow> tid \<Rightarrow> tid option \<Rightarrow> tid option \<Rightarrow> (tid option \<times> bool) option" where
  "rq_find m t prev cur =
     (if cur = None then Some (prev, False)
      else if cur = Some t then Some (prev, True)
      else do { c \<leftarrow> cur; k \<leftarrow> m c; rq_find m t (Some c) (rq_next k) })"

declare rq_find.simps [code]

definition rq_unlink_locked :: "nat \<Rightarrow> tid \<Rightarrow> 'z sched_scheme \<Rightarrow> 'z sched_scheme option" where
  "rq_unlink_locked c t \<sigma> = do {
     rq \<leftarrow> rqs \<sigma> c;
     k \<leftarrow> tcbs \<sigma> t;
     if \<not> rq_queued k then Some \<sigma>
     else do {
       let prio = unat (priority k);
     let d = rq_dom_of k;
       (prev, found) \<leftarrow> rq_find (tcbs \<sigma>) t None (rq_head rq d prio);
       if \<not> found then Some (rq_live_dec (put_tcb t (k\<lparr>rq_queued := False\<rparr>) \<sigma>))
       else do {
         let nxt = rq_next k;
         (\<sigma>1, rq1) \<leftarrow> (case prev of
            None \<Rightarrow> Some (\<sigma>, rq\<lparr>rq_head := upd2 d prio nxt (rq_head rq)\<rparr>)
          | Some p \<Rightarrow> do { kp \<leftarrow> tcbs \<sigma> p; Some (put_tcb p (kp\<lparr>rq_next := nxt\<rparr>) \<sigma>, rq) });
         let rq2 = (if rq_tail rq1 d prio = Some t then rq1\<lparr>rq_tail := upd2 d prio prev (rq_tail rq1)\<rparr> else rq1);
         let rq3 = (if rq_head rq2 d prio = None
                    then rq2\<lparr>rq_mask := upd2 d (prio div 64)
                      (rq_mask rq2 d (prio div 64) AND NOT (push_bit (prio mod 64) 1)) (rq_mask rq2)\<rparr>
                    else rq2);
         Some (rq_live_dec (put_tcb t (k\<lparr>rq_queued := False, rq_next := None\<rparr>) (put_rq c rq3 \<sigma>1)))
       }
     }
   }"

definition rq_enqueue :: "tid \<Rightarrow> 'z sched_scheme \<Rightarrow> 'z sched_scheme option" where
  "rq_enqueue t \<sigma> = do {
     k \<leftarrow> tcbs \<sigma> t;
     if rqs \<sigma> (home_cpu k) = None then Some \<sigma> else rq_link_locked (home_cpu k) t \<sigma>
   }"

definition rq_remove :: "tid \<Rightarrow> 'z sched_scheme \<Rightarrow> 'z sched_scheme option" where
  "rq_remove t \<sigma> = do {
     k \<leftarrow> tcbs \<sigma> t;
     if rqs \<sigma> (home_cpu k) = None then Some \<sigma> else rq_unlink_locked (home_cpu k) t \<sigma>
   }"

text \<open>\<open>top_bit 64 m\<close> is \<^verbatim>\<open>63 - __builtin_clzll(m)\<close> for a nonzero word; \<open>best_word\<close> the scan over the words.\<close>

primrec top_bit :: "nat \<Rightarrow> u64 \<Rightarrow> nat" where
  "top_bit 0 m = 0"
| "top_bit (Suc n) m = (if bit m n then n else top_bit n m)"

primrec best_word :: "nat \<Rightarrow> (nat \<Rightarrow> u64) \<Rightarrow> nat option" where
  "best_word 0 f = None"
| "best_word (Suc w) f = (if f w \<noteq> 0 then Some w else best_word w f)"

definition cur_dom :: "'z sched_scheme \<Rightarrow> nat" where
  "cur_dom \<sigma> = (if unat (cur_domain \<sigma>) \<ge> IRIS_NUM_DOMAINS then 0 else unat (cur_domain \<sigma>))"

definition rq_dequeue_best :: "nat \<Rightarrow> 'z sched_scheme \<Rightarrow> (tid option \<times> 'z sched_scheme) option" where
  "rq_dequeue_best self \<sigma> =
     (case rqs \<sigma> self of
        None \<Rightarrow> Some (None, \<sigma>)
      | Some rq \<Rightarrow>
          (let d = cur_dom \<sigma> in
           case best_word 4 (rq_mask rq d) of
             None \<Rightarrow> Some (None, \<sigma>)
           | Some w \<Rightarrow> do {
               let b = top_bit 64 (rq_mask rq d w);
               let prio = w * 64 + b;
               t \<leftarrow> rq_head rq d prio;
               k \<leftarrow> tcbs \<sigma> t;
               let nxt = rq_next k;
               let rq1 = rq\<lparr>rq_head := upd2 d prio nxt (rq_head rq)\<rparr>;
               let rq2 = (if nxt = None
                          then rq1\<lparr>rq_tail := upd2 d prio None (rq_tail rq1),
                                 rq_mask := upd2 d w (rq_mask rq1 d w AND NOT (push_bit b 1)) (rq_mask rq1)\<rparr>
                          else rq1);
               Some (Some t, rq_live_dec (put_tcb t (k\<lparr>rq_queued := False, rq_next := None\<rparr>) (put_rq self rq2 \<sigma>)))
             }))"

definition rq_top_priority :: "nat \<Rightarrow> 'z sched_scheme \<Rightarrow> int" where
  "rq_top_priority self \<sigma> =
     (case rqs \<sigma> self of
        None \<Rightarrow> -1
      | Some rq \<Rightarrow>
          (let d = cur_dom \<sigma> in
           case best_word 4 (rq_mask rq d) of
             None \<Rightarrow> -1
           | Some w \<Rightarrow> int (w * 64 + top_bit 64 (rq_mask rq d w))))"

definition requeue :: "tid \<Rightarrow> (tcb \<Rightarrow> tcb) \<Rightarrow> 'z sched_scheme \<Rightarrow> 'z sched_scheme option" where
  "requeue t f \<sigma> = do {
     k \<leftarrow> tcbs \<sigma> t;
     if rqs \<sigma> (home_cpu k) = None then Some (put_tcb t (f k) \<sigma>)
     else if rq_queued k then do {
       \<sigma>1 \<leftarrow> rq_unlink_locked (home_cpu k) t \<sigma>;
       k1 \<leftarrow> tcbs \<sigma>1 t;
       rq_link_locked (home_cpu k) t (put_tcb t (f k1) \<sigma>1)
     }
     else Some (put_tcb t (f k) \<sigma>)
   }"

text \<open>The reschedule interrupt sent afterwards reaches another processor and is left out.\<close>

definition sched_set_priority :: "tid option \<Rightarrow> u8 \<Rightarrow> 'z sched_scheme \<Rightarrow> 'z sched_scheme option" where
  "sched_set_priority t prio \<sigma> =
     (case t of
        None \<Rightarrow> Some \<sigma>
      | Some x \<Rightarrow> do {
          k \<leftarrow> tcbs \<sigma> x;
          if priority k = prio then Some \<sigma> else requeue x (\<lambda>k. k\<lparr>priority := prio\<rparr>) \<sigma>
        })"

definition sched_set_domain :: "tid option \<Rightarrow> u8 \<Rightarrow> 'z sched_scheme \<Rightarrow> 'z sched_scheme option" where
  "sched_set_domain t dm \<sigma> =
     (case t of
        None \<Rightarrow> Some \<sigma>
      | Some x \<Rightarrow> do {
          k \<leftarrow> tcbs \<sigma> x;
          if domain k = dm then Some \<sigma> else requeue x (\<lambda>k. k\<lparr>domain := dm\<rparr>) \<sigma>
        })"

definition task_wakeup :: "tid option \<Rightarrow> 'z sched_scheme \<Rightarrow> 'z sched_scheme option" where
  "task_wakeup t \<sigma> =
     (case t of
        None \<Rightarrow> Some \<sigma>
      | Some x \<Rightarrow> do {
          k \<leftarrow> tcbs \<sigma> x;
          if state k = TASK_DEAD \<or> terminal k then Some \<sigma>
          else do {
            let \<sigma>1 = put_tcb x (k\<lparr>state := TASK_READY\<rparr>) \<sigma>;
            if x = sched_idle_thread \<sigma> then Some \<sigma>1 else rq_enqueue x \<sigma>1
          }
        })"

text \<open>Processor 0 with thread 1 at priority 10 and thread 2 at priority 200, and thread 3 blocked.\<close>

definition sample_tcb :: "u8 \<Rightarrow> bool \<Rightarrow> task_state \<Rightarrow> tcb" where
  "sample_tcb prio queued st = \<lparr>state = st, priority = prio, domain = 0, home_cpu = 0, rq_next = None, rq_queued = queued,
     terminal = False, sched_ctx_of = None, wake_tick = 0, time_slice = 2, ticks_left = 2, need_resched = False,
     timeout_ep = False, timeout_pending = False\<rparr>"

definition sample_queue :: "nat \<Rightarrow> nat \<Rightarrow> tid option" where
  "sample_queue d p = (if d = 0 \<and> p = 10 then Some 1 else if d = 0 \<and> p = 200 then Some 2 else None)"

definition sample_sched :: sched where
  "sample_sched = \<lparr>tcbs = [1 \<mapsto> sample_tcb 10 True TASK_READY, 2 \<mapsto> sample_tcb 200 True TASK_READY,
       3 \<mapsto> sample_tcb 200 False TASK_BLOCKED_IPC],
     rqs = [0 \<mapsto> \<lparr>rq_head = sample_queue, rq_tail = sample_queue,
       rq_mask = (\<lambda>d w. if d \<noteq> 0 then 0 else if w = 0 then 2 ^ 10 else if w = 3 then 2 ^ 8 else 0)\<rparr>],
     sctxs = (\<lambda>_. None), cur_domain = 0, dom_sched_idx = 0, dom_ticks_left = 0, dom_switches = 0,
     current_task = (\<lambda>_. None), sched_thread_list = [1, 2, 3], sched_idle_thread = 0,
     scheduler_ticks = 0, wall_ticks = 0, rq_live_count = 2, rq_live_hwm = 2, sched_dup_enq = 0\<rparr>"

definition sample_lists :: "nat \<times> nat \<times> nat \<Rightarrow> tid list" where
  "sample_lists q = (if q = (0, 0, 10) then [1] else if q = (0, 0, 200) then [2] else [])"

subsection \<open>The queues as lists\<close>

definition hd_opt :: "'a list \<Rightarrow> 'a option" where
  "hd_opt xs = (case xs of [] \<Rightarrow> None | x # _ \<Rightarrow> Some x)"

definition last_opt :: "'a list \<Rightarrow> 'a option" where
  "last_opt xs = (if xs = [] then None else Some (last xs))"

lemma opt_simps [simp]:
  "hd_opt [] = None" "hd_opt (x # xs) = Some x" "last_opt [] = None" "last_opt (xs @ [x]) = Some x"
  "last_opt [x] = Some x" "last_opt (x # y # ys) = last_opt (y # ys)"
  by (simp_all add: hd_opt_def last_opt_def)

lemma hd_opt_None [simp]: "hd_opt xs = None \<longleftrightarrow> xs = []" and last_opt_None [simp]: "last_opt xs = None \<longleftrightarrow> xs = []"
  by (auto simp: hd_opt_def last_opt_def split: list.splits)

lemma hd_opt_append: "hd_opt (xs @ ys) = (if xs = [] then hd_opt ys else hd_opt xs)"
  by (cases xs) auto

primrec linked :: "(tid \<Rightarrow> tcb option) \<Rightarrow> tid list \<Rightarrow> bool" where
  "linked m [] \<longleftrightarrow> True"
| "linked m (x # xs) \<longleftrightarrow> (\<exists>k. m x = Some k \<and> rq_next k = hd_opt xs) \<and> linked m xs"

lemma linked_append:
  "linked m (xs @ ys) \<longleftrightarrow> linked m ys \<and>
     (\<forall>as x bs. xs = as @ x # bs \<longrightarrow> (\<exists>k. m x = Some k \<and> rq_next k = hd_opt (bs @ ys)))"
  by (induction xs) (auto simp: Cons_eq_append_conv)

lemma linked_cong:
  "(\<And>x. x \<in> set xs \<Longrightarrow> map_option rq_next (m x) = map_option rq_next (n x)) \<Longrightarrow> linked m xs = linked n xs"
proof (induction xs)
  case (Cons x xs)
  have "map_option rq_next (m x) = map_option rq_next (n x)" using Cons.prems by simp
  then have "(\<exists>k. m x = Some k \<and> rq_next k = y) = (\<exists>k. n x = Some k \<and> rq_next k = y)" for y
    by (cases "m x"; cases "n x") auto
  then show ?case using Cons by simp
qed simp

lemma linked_upd:
  "t \<notin> set xs \<Longrightarrow> linked (m(t \<mapsto> k)) xs = linked m xs"
  by (rule linked_cong) auto

text \<open>The key of a thread's queue, and the relation between the state and the lists.\<close>

type_synonym rq_key = "nat \<times> nat \<times> nat"

definition queue_key :: "tcb \<Rightarrow> rq_key" where
  "queue_key k = (home_cpu k, rq_dom_of k, unat (priority k))"

definition queued_at :: "'z sched_scheme \<Rightarrow> tid \<Rightarrow> rq_key \<Rightarrow> bool" where
  "queued_at \<sigma> t q \<longleftrightarrow> (\<exists>k. tcbs \<sigma> t = Some k \<and> rq_queued k \<and> queue_key k = q)"

definition queued_set :: "'z sched_scheme \<Rightarrow> tid set" where
  "queued_set \<sigma> = {t. \<exists>q. queued_at \<sigma> t q}"

definition bucket :: "(tid \<Rightarrow> tcb option) \<Rightarrow> run_queue \<Rightarrow> nat \<Rightarrow> nat \<Rightarrow> tid list \<Rightarrow> bool" where
  "bucket m rq d p xs \<longleftrightarrow> linked m xs \<and> rq_head rq d p = hd_opt xs \<and> rq_tail rq d p = last_opt xs \<and>
     bit (rq_mask rq d (p div 64)) (p mod 64) = (xs \<noteq> [])"

definition rq_rep :: "'z sched_scheme \<Rightarrow> (rq_key \<Rightarrow> tid list) \<Rightarrow> bool" where
  "rq_rep \<sigma> Q \<longleftrightarrow>
     (\<forall>c d p. case rqs \<sigma> c of None \<Rightarrow> Q (c, d, p) = [] | Some rq \<Rightarrow> bucket (tcbs \<sigma>) rq d p (Q (c, d, p))) \<and>
     (\<forall>q. distinct (Q q)) \<and> (\<forall>q t. t \<in> set (Q q) \<longleftrightarrow> queued_at \<sigma> t q) \<and>
     finite (queued_set \<sigma>) \<and> rq_live_count \<sigma> = of_nat (card (queued_set \<sigma>))"

lemma repD:
  assumes "rq_rep \<sigma> Q"
  shows "rqs \<sigma> c = Some rq \<Longrightarrow> bucket (tcbs \<sigma>) rq d p (Q (c, d, p))" "rqs \<sigma> c = None \<Longrightarrow> Q (c, d, p) = []"
    "distinct (Q q)" "t \<in> set (Q q) \<longleftrightarrow> queued_at \<sigma> t q" "finite (queued_set \<sigma>)"
    "rq_live_count \<sigma> = of_nat (card (queued_set \<sigma>))"
proof -
  have "case rqs \<sigma> c of None \<Rightarrow> Q (c, d, p) = [] | Some rq \<Rightarrow> bucket (tcbs \<sigma>) rq d p (Q (c, d, p))"
    using assms by (simp add: rq_rep_def)
  then show "rqs \<sigma> c = Some rq \<Longrightarrow> bucket (tcbs \<sigma>) rq d p (Q (c, d, p))" "rqs \<sigma> c = None \<Longrightarrow> Q (c, d, p) = []"
    by simp_all
qed (use assms in \<open>unfold rq_rep_def, blast\<close>)+

text \<open>One queue is replaced by another list; every other queue keeps its links.\<close>

lemma rep_update:
  assumes rep: "rq_rep \<sigma> Q" and rq: "rqs \<sigma> c = Some rq" "rqs \<sigma>' = (rqs \<sigma>)(c \<mapsto> rq')"
    and b: "bucket (tcbs \<sigma>') rq' d p xs" and xs: "distinct xs"
    and same: "\<And>d' p'. (d', p') \<noteq> (d, p) \<Longrightarrow> rq_head rq' d' p' = rq_head rq d' p' \<and> rq_tail rq' d' p' = rq_tail rq d' p' \<and>
      bit (rq_mask rq' d' (p' div 64)) (p' mod 64) = bit (rq_mask rq d' (p' div 64)) (p' mod 64)"
    and nxt: "\<And>x. x \<notin> set (Q (c, d, p)) \<union> set xs \<Longrightarrow> map_option rq_next (tcbs \<sigma>' x) = map_option rq_next (tcbs \<sigma> x)"
    and keys: "\<And>x q. queued_at \<sigma>' x q = (if q = (c, d, p) then x \<in> set xs else queued_at \<sigma> x q)"
    and live: "rq_live_count \<sigma>' = of_nat (card (queued_set \<sigma>'))"
  shows "rq_rep \<sigma>' (Q((c, d, p) := xs))"
proof -
  have other: "bucket (tcbs \<sigma>') r d' p' (Q (c', d', p')) = bucket (tcbs \<sigma>) r d' p' (Q (c', d', p'))"
    if "(c', d', p') \<noteq> (c, d, p)" for c' d' p' r
  proof -
    have "x \<notin> set (Q (c, d, p)) \<union> set xs" if "x \<in> set (Q (c', d', p'))" for x
      using that \<open>(c', d', p') \<noteq> (c, d, p)\<close> keys [of x "(c', d', p')"] keys [of x "(c, d, p)"] repD(4) [OF rep]
      by (auto simp: queued_at_def)
    then have "linked (tcbs \<sigma>') (Q (c', d', p')) = linked (tcbs \<sigma>) (Q (c', d', p'))"
      using nxt by (intro linked_cong) blast
    then show ?thesis by (simp add: bucket_def)
  qed
  have "case rqs \<sigma>' c' of None \<Rightarrow> (Q((c, d, p) := xs)) (c', d', p') = []
      | Some r \<Rightarrow> bucket (tcbs \<sigma>') r d' p' ((Q((c, d, p) := xs)) (c', d', p'))" for c' d' p'
  proof (cases "(c', d', p') = (c, d, p)")
    case True
    then show ?thesis using b rq by simp
  next
    case False
    then show ?thesis
      using repD(1) [OF rep, of c' _ d' p'] repD(2) [OF rep, of c' d' p'] rq same [of d' p'] other [OF False]
      by (auto simp: bucket_def split: option.splits)
  qed
  moreover have "queued_set \<sigma>' \<subseteq> queued_set \<sigma> \<union> set xs"
    using keys by (auto simp: queued_set_def split: if_splits)
  then have "finite (queued_set \<sigma>')" using repD(5) [OF rep] by (meson finite_UnI finite_set rev_finite_subset)
  ultimately show ?thesis using repD(3,4) [OF rep] keys xs live by (auto simp: rq_rep_def)
qed

subsection \<open>Enqueue\<close>

lemma upd2_apply [simp]: "upd2 d p v f d' p' = (if d' = d \<and> p' = p then v else f d' p')"
  by (simp add: upd2_def)

lemma sched_fields [simp]:
  "tcbs (put_tcb t k \<sigma>) = (tcbs \<sigma>)(t \<mapsto> k)" "rqs (put_tcb t k \<sigma>) = rqs \<sigma>" "rq_live_count (put_tcb t k \<sigma>) = rq_live_count \<sigma>"
  "tcbs (put_rq c rq \<sigma>) = tcbs \<sigma>" "rqs (put_rq c rq \<sigma>) = (rqs \<sigma>)(c \<mapsto> rq)" "rq_live_count (put_rq c rq \<sigma>) = rq_live_count \<sigma>"
  "tcbs (rq_live_inc \<sigma>) = tcbs \<sigma>" "rqs (rq_live_inc \<sigma>) = rqs \<sigma>" "rq_live_count (rq_live_inc \<sigma>) = rq_live_count \<sigma> + 1"
  "tcbs (rq_live_dec \<sigma>) = tcbs \<sigma>" "rqs (rq_live_dec \<sigma>) = rqs \<sigma>" "rq_live_count (rq_live_dec \<sigma>) = rq_live_count \<sigma> - 1"
  by (simp_all add: put_tcb_def put_rq_def rq_live_inc_def rq_live_dec_def Let_def)

text \<open>Every thread but one keeps its queue fields, up to the link.\<close>

definition same_keys :: "tid \<Rightarrow> (tid \<Rightarrow> tcb option) \<Rightarrow> (tid \<Rightarrow> tcb option) \<Rightarrow> bool" where
  "same_keys t m n \<longleftrightarrow> (\<forall>x. x \<noteq> t \<longrightarrow>
     map_option (\<lambda>k. (rq_queued k, queue_key k)) (n x) = map_option (\<lambda>k. (rq_queued k, queue_key k)) (m x))"

lemma same_keys_queued: "same_keys t (tcbs \<sigma>) (tcbs \<sigma>') \<Longrightarrow> x \<noteq> t \<Longrightarrow> queued_at \<sigma>' x q = queued_at \<sigma> x q"
  unfolding same_keys_def queued_at_def by (cases "tcbs \<sigma> x"; cases "tcbs \<sigma>' x") force+

lemma link_live:
  assumes "rq_rep \<sigma> Q" "same_keys t (tcbs \<sigma>) (tcbs \<sigma>')" "\<And>q. \<not> queued_at \<sigma> t q" "\<exists>q. queued_at \<sigma>' t q"
    "rq_live_count \<sigma>' = rq_live_count \<sigma> + 1"
  shows "rq_live_count \<sigma>' = of_nat (card (queued_set \<sigma>'))"
proof -
  have "x \<in> queued_set \<sigma>' \<longleftrightarrow> x \<in> insert t (queued_set \<sigma>)" for x
    using assms(4) same_keys_queued [OF assms(2), of x] by (cases "x = t") (auto simp: queued_set_def)
  then have "queued_set \<sigma>' = insert t (queued_set \<sigma>)" by blast
  moreover have "t \<notin> queued_set \<sigma>" using assms(3) by (auto simp: queued_set_def)
  ultimately show ?thesis using assms(5) repD(5,6) [OF assms(1)] by simp
qed

lemma link_refines:
  assumes rep: "rq_rep \<sigma> Q" and k: "tcbs \<sigma> t = Some k" "\<not> rq_queued k" and rq: "rqs \<sigma> (home_cpu k) = Some rq"
  shows "\<exists>\<sigma>'. rq_link_locked (home_cpu k) t \<sigma> = Some \<sigma>' \<and> rq_rep \<sigma>' (Q(queue_key k := Q (queue_key k) @ [t])) \<and>
     same_keys t (tcbs \<sigma>) (tcbs \<sigma>') \<and> (\<exists>k'. tcbs \<sigma>' t = Some k' \<and> rq_queued k' \<and> queue_key k' = queue_key k)"
proof -
  let ?d = "rq_dom_of k" and ?p = "unat (priority k)" and ?c = "home_cpu k"
  let ?q = "(?c, ?d, ?p)" and ?k = "k\<lparr>rq_queued := True, rq_next := None\<rparr>"
  have key: "queue_key k = ?q" "queue_key ?k = ?q" by (simp_all add: queue_key_def rq_dom_of_def)
  have b: "bucket (tcbs \<sigma>) rq ?d ?p (Q ?q)" using repD(1) [OF rep rq] .
  have t: "t \<notin> set (Q q)" "\<not> queued_at \<sigma> t q" for q using k repD(4) [OF rep] by (auto simp: queued_at_def)
  show ?thesis
  proof (cases "Q ?q")
    case Nil
    let ?rq = "rq\<lparr>rq_head := upd2 ?d ?p (Some t) (rq_head rq), rq_tail := upd2 ?d ?p (Some t) (rq_tail rq),
      rq_mask := upd2 ?d (?p div 64) (rq_mask rq ?d (?p div 64) OR push_bit (?p mod 64) 1) (rq_mask rq)\<rparr>"
    let ?s = "rq_live_inc (put_rq ?c ?rq (put_tcb t ?k \<sigma>))"
    have run: "rq_link_locked ?c t \<sigma> = Some ?s" using Nil b k rq by (simp add: rq_link_locked_def Let_def bucket_def)
    have keys: "same_keys t (tcbs \<sigma>) (tcbs ?s)" by (simp add: same_keys_def)
    have at: "queued_at ?s t q \<longleftrightarrow> q = ?q" for q using key by (auto simp: queued_at_def)
    have "rq_rep ?s (Q(?q := [t]))"
    proof (rule rep_update [OF rep rq])
      show "rqs ?s = (rqs \<sigma>)(?c \<mapsto> ?rq)" by simp
      show "bucket (tcbs ?s) ?rq ?d ?p [t]" by (simp add: bucket_def bit_set)
      show "queued_at ?s x q = (if q = ?q then x \<in> set [t] else queued_at \<sigma> x q)" for x q
        using same_keys_queued [OF keys, of x] at t Nil repD(4) [OF rep, of x ?q] by (cases "x = t") auto
      show "rq_live_count ?s = of_nat (card (queued_set ?s))"
        by (rule link_live [OF rep keys]) (use t at in auto)
    qed (auto simp: bit_set dest: div_mod_eq)
    then show ?thesis using run keys Nil key by (auto intro!: exI [of _ ?s])
  next
    case (Cons h hs)
    then obtain ys l where q: "Q ?q = ys @ [l]" by (metis list.distinct(1) rev_exhaust)
    obtain kl where kl: "tcbs \<sigma> l = Some kl" using b q by (auto simp: bucket_def linked_append)
    have l: "l \<noteq> t" using t(1) [of ?q] q by auto
    have "rq_head rq ?d ?p = hd_opt (h # hs)" "rq_tail rq ?d ?p = last_opt (ys @ [l])"
      using b unfolding bucket_def by (metis Cons, metis q)
    then have ht: "rq_head rq ?d ?p = Some h" "rq_tail rq ?d ?p = Some l" by simp_all
    let ?kl = "kl\<lparr>rq_next := Some t\<rparr>" and ?rq = "rq\<lparr>rq_tail := upd2 ?d ?p (Some t) (rq_tail rq)\<rparr>"
    let ?s = "rq_live_inc (put_rq ?c ?rq (put_tcb l ?kl (put_tcb t ?k \<sigma>)))"
    have run: "rq_link_locked ?c t \<sigma> = Some ?s"
      using ht k rq l kl by (simp add: rq_link_locked_def Let_def)
    have keys: "same_keys t (tcbs \<sigma>) (tcbs ?s)" using kl by (simp add: same_keys_def queue_key_def rq_dom_of_def)
    have at: "queued_at ?s t q \<longleftrightarrow> q = ?q" for q using key l by (auto simp: queued_at_def)
    have "linked (tcbs ?s) (ys @ [l, t])"
    proof -
      have "\<exists>k'. tcbs ?s x = Some k' \<and> rq_next k' = hd_opt (bs @ [l, t])" if "ys = as @ x # bs" for as x bs
      proof -
        have "x \<noteq> l" "x \<noteq> t" using repD(3) [OF rep, of ?q] t(1) [of ?q] q that by auto
        moreover have "\<exists>k'. tcbs \<sigma> x = Some k' \<and> rq_next k' = hd_opt (bs @ [l])"
          using b q that by (auto simp: bucket_def linked_append)
        ultimately show ?thesis by (auto simp: hd_opt_append split: if_splits)
      qed
      then show ?thesis using l by (simp add: linked_append)
    qed
    then have bk: "bucket (tcbs ?s) ?rq ?d ?p (Q ?q @ [t])"
      using b q Cons by (auto simp: bucket_def hd_opt_append last_opt_def)
    have "rq_rep ?s (Q(?q := Q ?q @ [t]))"
    proof (rule rep_update [OF rep rq _ bk])
      show "rqs ?s = (rqs \<sigma>)(?c \<mapsto> ?rq)" by simp
      show "queued_at ?s x q' = (if q' = ?q then x \<in> set (Q ?q @ [t]) else queued_at \<sigma> x q')" for x q'
        using same_keys_queued [OF keys, of x] at t repD(4) [OF rep, of x ?q] by (cases "x = t") auto
      show "rq_live_count ?s = of_nat (card (queued_set ?s))"
        by (rule link_live [OF rep keys]) (use t at in auto)
    qed (use t(1) [of ?q] repD(3) [OF rep, of ?q] q in auto)
    then show ?thesis using run keys key l by (auto intro!: exI [of _ ?s])
  qed
qed

subsection \<open>Removal\<close>

lemma unlink_live:
  assumes "rq_rep \<sigma> Q" "same_keys t (tcbs \<sigma>) (tcbs \<sigma>')" "\<exists>q. queued_at \<sigma> t q" "\<And>q. \<not> queued_at \<sigma>' t q"
    "rq_live_count \<sigma>' = rq_live_count \<sigma> - 1"
  shows "rq_live_count \<sigma>' = of_nat (card (queued_set \<sigma>'))"
proof -
  have "x \<in> queued_set \<sigma>' \<longleftrightarrow> x \<in> queued_set \<sigma> - {t}" for x
    using assms(4) same_keys_queued [OF assms(2), of x] by (cases "x = t") (auto simp: queued_set_def)
  then have "queued_set \<sigma>' = queued_set \<sigma> - {t}" by blast
  moreover have "t \<in> queued_set \<sigma>" using assms(3) by (auto simp: queued_set_def)
  moreover have "0 < card (queued_set \<sigma>)" using calculation repD(5) [OF assms(1)] by (auto simp: card_gt_0_iff)
  ultimately show ?thesis using assms(5) repD(5,6) [OF assms(1)]
    by (simp add: of_nat_diff Suc_leI)
qed

lemma find_linked:
  "linked m (ys @ t # zs) \<Longrightarrow> t \<notin> set ys \<Longrightarrow>
     rq_find m t prev (hd_opt (ys @ t # zs)) = Some (if ys = [] then prev else last_opt ys, True)"
proof (induction ys arbitrary: prev)
  case Nil
  then show ?case by (subst rq_find.simps) simp
next
  case (Cons y ys)
  then obtain k where "m y = Some k" "rq_next k = hd_opt (ys @ t # zs)" by auto
  then show ?case using Cons by (subst rq_find.simps) (auto simp: last_opt_def)
qed

text \<open>Removing one thread: the links, the ends and the bitmap afterwards.\<close>

lemma removed_rep:
  assumes rep: "rq_rep \<sigma> Q" and k: "tcbs \<sigma> t = Some k" "queue_key k = (c, d, p)" and rq: "rqs \<sigma> c = Some rq"
    and q: "Q (c, d, p) = ys @ t # zs"
    and t': "tcbs \<sigma>' t = Some k'" "\<not> rq_queued k'" and keys: "same_keys t (tcbs \<sigma>) (tcbs \<sigma>')"
    and rq': "rqs \<sigma>' = (rqs \<sigma>)(c \<mapsto> rq')" and b: "bucket (tcbs \<sigma>') rq' d p (ys @ zs)"
    and same: "\<And>d' p'. (d', p') \<noteq> (d, p) \<Longrightarrow> rq_head rq' d' p' = rq_head rq d' p' \<and> rq_tail rq' d' p' = rq_tail rq d' p' \<and>
      bit (rq_mask rq' d' (p' div 64)) (p' mod 64) = bit (rq_mask rq d' (p' div 64)) (p' mod 64)"
    and nxt: "\<And>x. x \<notin> set (Q (c, d, p)) \<Longrightarrow> map_option rq_next (tcbs \<sigma>' x) = map_option rq_next (tcbs \<sigma> x)"
    and live: "rq_live_count \<sigma>' = rq_live_count \<sigma> - 1"
  shows "rq_rep \<sigma>' (Q((c, d, p) := ys @ zs))"
proof (rule rep_update [OF rep rq rq' b])
  have dist: "distinct (ys @ t # zs)" using repD(3) [OF rep, of "(c, d, p)"] q by simp
  then show "distinct (ys @ zs)" by simp
  have at: "queued_at \<sigma> t q' \<longleftrightarrow> q' = (c, d, p)" "\<not> queued_at \<sigma>' t q'" for q'
    using repD(4) [OF rep, of t "(c, d, p)"] q k t' by (auto simp: queued_at_def)
  show "queued_at \<sigma>' x q' = (if q' = (c, d, p) then x \<in> set (ys @ zs) else queued_at \<sigma> x q')" for x q'
    using same_keys_queued [OF keys, of x q'] at repD(4) [OF rep, of x "(c, d, p)"] q dist by (cases "x = t") auto
  show "rq_live_count \<sigma>' = of_nat (card (queued_set \<sigma>'))"
    by (rule unlink_live [OF rep keys _ _ live]) (use at in auto)
qed (use same nxt q in auto)

lemma linked_remove_first: "linked m (t # zs) \<Longrightarrow> t \<notin> set zs \<Longrightarrow> linked (m(t \<mapsto> k)) zs"
  by (simp add: linked_upd)

lemma linked_remove_mid:
  assumes l: "linked m (as @ p # t # zs)" and d: "distinct (as @ p # t # zs)" and p: "m p = Some kp"
    and r: "rq_next kp' = hd_opt zs"
  shows "linked (m(p \<mapsto> kp', t \<mapsto> kt)) (as @ p # zs)"
proof -
  have "linked (m(p \<mapsto> kp', t \<mapsto> kt)) zs" using l d by (auto simp: linked_append linked_upd)
  moreover have "\<exists>k. (m(p \<mapsto> kp', t \<mapsto> kt)) x = Some k \<and> rq_next k = hd_opt (bs @ p # zs)" if "as = cs @ x # bs" for cs x bs
  proof -
    have "\<exists>k. m x = Some k \<and> rq_next k = hd_opt (bs @ p # t # zs)" using l that by (auto simp: linked_append)
    then show ?thesis using d that by (auto simp: hd_opt_append split: if_splits)
  qed
  ultimately show ?thesis using r d by (simp add: linked_append)
qed

lemma unlink_refines:
  assumes rep: "rq_rep \<sigma> Q" and k: "tcbs \<sigma> t = Some k" "rq_queued k" and rq: "rqs \<sigma> (home_cpu k) = Some rq"
  shows "\<exists>\<sigma>'. rq_unlink_locked (home_cpu k) t \<sigma> = Some \<sigma>' \<and> rq_rep \<sigma>' (Q(queue_key k := remove1 t (Q (queue_key k)))) \<and>
     same_keys t (tcbs \<sigma>) (tcbs \<sigma>') \<and> tcbs \<sigma>' t = Some (k\<lparr>rq_queued := False, rq_next := None\<rparr>) \<and> rqs \<sigma>' (home_cpu k) \<noteq> None"
proof -
  let ?d = "rq_dom_of k" and ?p = "unat (priority k)" and ?c = "home_cpu k"
  let ?q = "(?c, ?d, ?p)" and ?k = "k\<lparr>rq_queued := False, rq_next := None\<rparr>"
  have key: "queue_key k = ?q" by (simp add: queue_key_def)
  then have "t \<in> set (Q ?q)" using repD(4) [OF rep, of t ?q] k by (auto simp: queued_at_def)
  then obtain ys zs where q: "Q ?q = ys @ t # zs" by (meson split_list)
  have dist: "distinct (ys @ t # zs)" using repD(3) [OF rep, of ?q] q by simp
  then have rm: "remove1 t (Q ?q) = ys @ zs" using q by (simp add: remove1_append)
  have b: "linked (tcbs \<sigma>) (ys @ t # zs)" "rq_head rq ?d ?p = hd_opt (ys @ t # zs)" "rq_tail rq ?d ?p = last_opt (ys @ t # zs)"
      "bit (rq_mask rq ?d (?p div 64)) (?p mod 64)"
    using repD(1) [OF rep rq, of ?d ?p] q by (auto simp: bucket_def)
  have nk: "rq_next k = hd_opt zs" using b(1) k by (auto simp: linked_append)
  have find: "rq_find (tcbs \<sigma>) t None (rq_head rq ?d ?p) = Some (last_opt ys, True)"
    using find_linked [OF b(1)] dist b(2) by simp
  have tail: "rq_tail rq ?d ?p = Some t \<longleftrightarrow> zs = []" using b(3) dist by (cases zs rule: rev_cases) (auto simp: last_opt_def)
  show ?thesis
  proof (cases ys rule: rev_cases)
    case Nil
    let ?r1 = "rq\<lparr>rq_head := upd2 ?d ?p (hd_opt zs) (rq_head rq)\<rparr>"
    let ?r2 = "if rq_tail rq ?d ?p = Some t then ?r1\<lparr>rq_tail := upd2 ?d ?p None (rq_tail ?r1)\<rparr> else ?r1"
    let ?r3 = "if zs = [] then ?r2\<lparr>rq_mask := upd2 ?d (?p div 64)
        (rq_mask ?r2 ?d (?p div 64) AND NOT (push_bit (?p mod 64) 1)) (rq_mask ?r2)\<rparr> else ?r2"
    let ?s = "rq_live_dec (put_tcb t ?k (put_rq ?c ?r3 \<sigma>))"
    have run: "rq_unlink_locked ?c t \<sigma> = Some ?s"
      using rq k find Nil nk by (simp add: rq_unlink_locked_def Let_def)
    have "rq_rep ?s (Q(?q := ys @ zs))"
    proof (rule removed_rep [OF rep k(1) key rq q])
      show "bucket (tcbs ?s) ?r3 ?d ?p (ys @ zs)"
        using b Nil dist tail by (auto simp: bucket_def bit_clear linked_upd last_opt_def)
    qed (use q Nil tail b in \<open>auto simp: same_keys_def bit_clear dest: div_mod_eq\<close>)
    then show ?thesis using run rm key by (auto intro!: exI [of _ ?s] simp: same_keys_def)
  next
    case (snoc as p)
    obtain kp where kp: "tcbs \<sigma> p = Some kp" using b(1) snoc by (auto simp: linked_append)
    have pt: "p \<noteq> t" using dist snoc by auto
    let ?kp = "kp\<lparr>rq_next := hd_opt zs\<rparr>"
    let ?r2 = "if rq_tail rq ?d ?p = Some t then rq\<lparr>rq_tail := upd2 ?d ?p (Some p) (rq_tail rq)\<rparr> else rq"
    let ?s = "rq_live_dec (put_tcb t ?k (put_rq ?c ?r2 (put_tcb p ?kp \<sigma>)))"
    have "rq_head rq ?d ?p \<noteq> None" using b(2) by simp
    then have run: "rq_unlink_locked ?c t \<sigma> = Some ?s"
      using rq k find snoc nk kp by (auto simp add: rq_unlink_locked_def Let_def)
    have l: "linked (tcbs ?s) (as @ p # zs)"
      using linked_remove_mid [of "tcbs \<sigma>" as p t zs kp ?kp ?k] b(1) dist snoc kp by simp
    have "rq_rep ?s (Q(?q := ys @ zs))"
    proof (rule removed_rep [OF rep k(1) key rq q])
      show "bucket (tcbs ?s) ?r2 ?d ?p (ys @ zs)"
        using b snoc l tail by (auto simp: bucket_def hd_opt_append last_opt_def)
      show "same_keys t (tcbs \<sigma>) (tcbs ?s)" using kp by (simp add: same_keys_def queue_key_def rq_dom_of_def)
    qed (use q snoc in auto)
    then show ?thesis using run rm key kp pt
      by (auto intro!: exI [of _ ?s] simp: same_keys_def queue_key_def rq_dom_of_def)
  qed
qed

subsection \<open>The best thread\<close>

lemma top_bit_spec:
  "i < n \<Longrightarrow> bit m i \<Longrightarrow> top_bit n m < n \<and> bit m (top_bit n m) \<and> (\<forall>j < n. top_bit n m < j \<longrightarrow> \<not> bit m j)"
proof (induction n)
  case (Suc n)
  then show ?case by (cases "bit m n") (auto simp: less_Suc_eq)
qed simp

lemma word_nonzero: "m \<noteq> 0 \<longleftrightarrow> (\<exists>i < 64. bit m i)" for m :: u64
  by (auto simp: bit_word_eqI bit_eq_iff dest: bit_imp_le_length)

lemma best_word_spec:
  "case best_word n f of None \<Rightarrow> \<forall>v < n. f v = 0 | Some w \<Rightarrow> w < n \<and> f w \<noteq> 0 \<and> (\<forall>v < n. w < v \<longrightarrow> f v = 0)"
  by (induction n) (auto split: option.splits simp: less_Suc_eq)

text \<open>The bitmap scan finds the highest priority whose queue is not empty.\<close>

lemma scan_spec:
  assumes "\<And>p. bit (f (p div 64)) (p mod 64) \<longleftrightarrow> L p \<noteq> []" "\<And>p. 256 \<le> p \<Longrightarrow> L p = []"
  shows "best_word 4 f = None \<Longrightarrow> L p = []"
    and "best_word 4 f = Some w \<Longrightarrow> L (w * 64 + top_bit 64 (f w)) \<noteq> [] \<and> top_bit 64 (f w) < 64 \<and>
      (\<forall>p. w * 64 + top_bit 64 (f w) < p \<longrightarrow> L p = [])"
proof -
  have zero: "L p = []" if "f (p div 64) = 0" for p using that assms(1) [of p] by simp
  have big: "L p = []" if "\<not> p div 64 < 4" for p using that assms(2) [of p] by simp
  show "L p = []" if "best_word 4 f = None"
    using best_word_spec [of 4 f] that zero big by (cases "p div 64 < 4") auto
  assume w: "best_word 4 f = Some w"
  let ?b = "top_bit 64 (f w)"
  have fw: "f w \<noteq> 0" "w < 4" and above: "\<And>v. v < 4 \<Longrightarrow> w < v \<Longrightarrow> f v = 0" using best_word_spec [of 4 f] w by auto
  then obtain i where "i < 64" "bit (f w) i" by (auto simp: word_nonzero)
  then have b: "?b < 64" "bit (f w) ?b" "\<And>j. j < 64 \<Longrightarrow> ?b < j \<Longrightarrow> \<not> bit (f w) j" using top_bit_spec by blast+
  have "L p = []" if p: "w * 64 + ?b < p" for p
  proof (cases "p div 64 = w")
    case True
    then have "?b < p mod 64" using p by (metis add_less_cancel_left div_mult_mod_eq)
    then show ?thesis using assms(1) [of p] b(3) [of "p mod 64"] True by auto
  next
    case False
    then have "w < p div 64" using p b(1) by (metis add_lessD1 div_le_mono less_or_eq_imp_le linorder_neqE_nat nat_less_le nonzero_mult_div_cancel_right zero_neq_numeral)
    then show ?thesis using above zero big by (cases "p div 64 < 4") auto
  qed
  moreover have "L (w * 64 + ?b) \<noteq> []" using assms(1) [of "w * 64 + ?b"] b by simp
  ultimately show "L (w * 64 + ?b) \<noteq> [] \<and> ?b < 64 \<and> (\<forall>p. w * 64 + ?b < p \<longrightarrow> L p = [])" using b(1) by blast
qed

lemma rep_small: "rq_rep \<sigma> Q \<Longrightarrow> 256 \<le> p \<Longrightarrow> Q (c, d, p) = []"
proof (rule ccontr)
  assume rep: "rq_rep \<sigma> Q" and p: "256 \<le> p" and "Q (c, d, p) \<noteq> []"
  then obtain t where "t \<in> set (Q (c, d, p))" by (meson hd_in_set)
  then obtain k :: tcb where "unat (priority k) = p" using repD(4) [OF rep, of t "(c, d, p)"] by (auto simp: queued_at_def queue_key_def)
  then show False using p unsigned_less [of "priority k", where ?'a = nat] by simp
qed

lemma dequeue_refines:
  assumes rep: "rq_rep \<sigma> Q" and rq: "rqs \<sigma> self = Some rq"
  obtains (empty) "rq_dequeue_best self \<sigma> = Some (None, \<sigma>)" "\<And>p. Q (self, cur_dom \<sigma>, p) = []" "rq_top_priority self \<sigma> = -1"
  | (best) p t ts \<sigma>' where "Q (self, cur_dom \<sigma>, p) = t # ts" "\<And>p'. p < p' \<Longrightarrow> Q (self, cur_dom \<sigma>, p') = []"
      "rq_dequeue_best self \<sigma> = Some (Some t, \<sigma>')" "rq_rep \<sigma>' (Q((self, cur_dom \<sigma>, p) := ts))"
      "rq_top_priority self \<sigma> = int p"
proof -
  let ?d = "cur_dom \<sigma>"
  let ?f = "rq_mask rq ?d"
  have b: "bucket (tcbs \<sigma>) rq ?d p (Q (self, ?d, p))" for p by (rule repD(1) [OF rep rq])
  note scan = scan_spec [of ?f "\<lambda>p. Q (self, ?d, p)"]
  have scan1: "\<And>p. bit (?f (p div 64)) (p mod 64) \<longleftrightarrow> Q (self, ?d, p) \<noteq> []" using b by (simp add: bucket_def)
  show ?thesis
  proof (cases "best_word 4 ?f")
    case None
    then show ?thesis using scan(1) [OF scan1 rep_small [OF rep]] rq
      by (intro empty) (auto simp: rq_dequeue_best_def rq_top_priority_def)
  next
    case (Some w)
    define p where "p = w * 64 + top_bit 64 (?f w)"
    have s: "Q (self, ?d, p) \<noteq> []" "\<And>p'. p < p' \<Longrightarrow> Q (self, ?d, p') = []" "top_bit 64 (?f w) < 64"
      using scan(2) [OF scan1 rep_small [OF rep] Some] by (auto simp: p_def)
    have p: "p div 64 = w" "p mod 64 = top_bit 64 (?f w)" using s(3) by (auto simp: p_def)
    obtain t ts where q: "Q (self, ?d, p) = t # ts" using s(1) by (cases "Q (self, ?d, p)") auto
    have bt: "linked (tcbs \<sigma>) (t # ts)" "rq_head rq ?d p = Some t" "rq_tail rq ?d p = last_opt (t # ts)"
      using b [of p] q by (auto simp: bucket_def)
    then obtain k where k: "tcbs \<sigma> t = Some k" "rq_next k = hd_opt ts" by auto
    have key: "queue_key k = (self, ?d, p)" using repD(4) [OF rep, of t "(self, ?d, p)"] q k by (auto simp: queued_at_def)
    have dist: "distinct (t # ts)" using repD(3) [OF rep, of "(self, ?d, p)"] q by simp
    let ?r1 = "rq\<lparr>rq_head := upd2 ?d p (hd_opt ts) (rq_head rq)\<rparr>"
    let ?r2 = "if ts = [] then ?r1\<lparr>rq_tail := upd2 ?d p None (rq_tail ?r1),
        rq_mask := upd2 ?d w (rq_mask ?r1 ?d w AND NOT (push_bit (p mod 64) 1)) (rq_mask ?r1)\<rparr> else ?r1"
    let ?s = "rq_live_dec (put_tcb t (k\<lparr>rq_queued := False, rq_next := None\<rparr>) (put_rq self ?r2 \<sigma>))"
    have run: "rq_dequeue_best self \<sigma> = Some (Some t, ?s)"
      using Some rq bt(2) k p by (simp add: rq_dequeue_best_def Let_def flip: p_def)
    have "rq_rep ?s (Q((self, ?d, p) := [] @ ts))"
    proof (rule removed_rep [OF rep k(1) key rq])
      show "bucket (tcbs ?s) ?r2 ?d p ([] @ ts)"
        using b [of p] q bt dist p by (auto simp: bucket_def bit_clear linked_upd last_opt_def)
    qed (use q p bt in \<open>auto simp: same_keys_def bit_clear dest: div_mod_eq\<close>)
    then show ?thesis using q s(2) run rq Some
      by (intro best) (auto simp: rq_top_priority_def p_def)
  qed
qed

subsection \<open>Wakeup and requeue\<close>

lemma rep_cong:
  assumes rep: "rq_rep \<sigma> Q" and "rqs \<sigma>' = rqs \<sigma>" "rq_live_count \<sigma>' = rq_live_count \<sigma>"
    and at: "\<And>x q. queued_at \<sigma>' x q = queued_at \<sigma> x q"
    and b: "\<And>q. linked (tcbs \<sigma>') (Q q) = linked (tcbs \<sigma>) (Q q)"
  shows "rq_rep \<sigma>' Q"
proof -
  have "queued_set \<sigma>' = queued_set \<sigma>" using at by (simp add: queued_set_def)
  moreover have "bucket (tcbs \<sigma>') rq d p (Q q) = bucket (tcbs \<sigma>) rq d p (Q q)" for rq d p q using b by (simp add: bucket_def)
  ultimately show ?thesis using assms by (simp add: rq_rep_def cong: option.case_cong)
qed

lemma put_unqueued_rep:
  assumes rep: "rq_rep \<sigma> Q" and k: "tcbs \<sigma> t = Some k" "\<not> rq_queued k" "\<not> rq_queued k'"
  shows "rq_rep (put_tcb t k' \<sigma>) Q"
proof (rule rep_cong [OF rep])
  show "linked (tcbs (put_tcb t k' \<sigma>)) (Q q) = linked (tcbs \<sigma>) (Q q)" for q
  proof -
    have "t \<notin> set (Q q)" using repD(4) [OF rep, of t q] k by (auto simp: queued_at_def)
    then show ?thesis by (simp add: linked_upd)
  qed
qed (use k in \<open>auto simp: queued_at_def\<close>)

text \<open>A change of fields the queues do not read.\<close>

lemma put_same_rep:
  assumes rep: "rq_rep \<sigma> Q" and k: "tcbs \<sigma> t = Some k" "rq_queued k' = rq_queued k" "rq_next k' = rq_next k"
    "queue_key k' = queue_key k"
  shows "rq_rep (put_tcb t k' \<sigma>) Q"
proof (rule rep_cong [OF rep])
  show "linked (tcbs (put_tcb t k' \<sigma>)) (Q q) = linked (tcbs \<sigma>) (Q q)" for q by (rule linked_cong) (use k in simp)
qed (use k in \<open>auto simp: queued_at_def\<close>)

lemma dup_enq_rep [simp]: "rq_rep (\<sigma>\<lparr>sched_dup_enq := n\<rparr>) Q = rq_rep \<sigma> Q"
  by (simp add: rq_rep_def queued_set_def queued_at_def cong: option.case_cong)

lemma enqueue_refines:
  assumes rep: "rq_rep \<sigma> Q" and k: "tcbs \<sigma> t = Some k" and rq: "rqs \<sigma> (home_cpu k) \<noteq> None"
  shows "\<exists>\<sigma>'. rq_enqueue t \<sigma> = Some \<sigma>' \<and>
     rq_rep \<sigma>' (if rq_queued k then Q else Q(queue_key k := Q (queue_key k) @ [t]))"
proof (cases "rq_queued k")
  case True
  then have "rq_enqueue t \<sigma> = Some (\<sigma>\<lparr>sched_dup_enq := sched_dup_enq \<sigma> + 1\<rparr>)"
    using k rq by (auto simp: rq_enqueue_def rq_link_locked_def Let_def)
  then show ?thesis using rep True by auto
next
  case False
  obtain r where r: "rqs \<sigma> (home_cpu k) = Some r" using rq by auto
  then show ?thesis using link_refines [OF rep k False r] k False by (auto simp: rq_enqueue_def)
qed

lemma requeue_refines:
  assumes rep: "rq_rep \<sigma> Q" and k: "tcbs \<sigma> t = Some k" and rq: "rqs \<sigma> (home_cpu k) \<noteq> None"
    and f: "\<And>k. home_cpu (f k) = home_cpu k \<and> rq_queued (f k) = rq_queued k \<and> rq_next (f k) = rq_next k"
    and g: "queue_key (f (k\<lparr>rq_queued := False, rq_next := None\<rparr>)) = queue_key (f k)"
  defines "Q1 \<equiv> Q(queue_key k := remove1 t (Q (queue_key k)))"
  shows "\<exists>\<sigma>'. requeue t f \<sigma> = Some \<sigma>' \<and>
     rq_rep \<sigma>' (if rq_queued k then Q1(queue_key (f k) := Q1 (queue_key (f k)) @ [t]) else Q) \<and>
     (\<exists>k'. tcbs \<sigma>' t = Some k' \<and> rq_queued k' = rq_queued k \<and> queue_key k' = queue_key (f k))"
proof (cases "rq_queued k")
  case False
  then have "requeue t f \<sigma> = Some (put_tcb t (f k) \<sigma>)" using k rq by (simp add: requeue_def)
  then show ?thesis using put_unqueued_rep [OF rep k False] f False by simp
next
  case True
  let ?k = "k\<lparr>rq_queued := False, rq_next := None\<rparr>"
  obtain r where r: "rqs \<sigma> (home_cpu k) = Some r" using rq by auto
  obtain \<sigma>1 where u: "rq_unlink_locked (home_cpu k) t \<sigma> = Some \<sigma>1" "rq_rep \<sigma>1 Q1" "tcbs \<sigma>1 t = Some ?k"
    "rqs \<sigma>1 (home_cpu k) \<noteq> None" using unlink_refines [OF rep k True r] unfolding Q1_def by blast
  let ?s = "put_tcb t (f ?k) \<sigma>1"
  have rep1: "rq_rep ?s Q1" by (rule put_unqueued_rep [OF u(2,3)]) (use f [of ?k] in simp_all)
  have "tcbs ?s t = Some (f ?k)" "\<not> rq_queued (f ?k)" "home_cpu (f ?k) = home_cpu k" using f [of ?k] by auto
  then obtain \<sigma>' where "rq_link_locked (home_cpu k) t ?s = Some \<sigma>'"
    "rq_rep \<sigma>' (Q1(queue_key (f k) := Q1 (queue_key (f k)) @ [t]))"
    "\<exists>k'. tcbs \<sigma>' t = Some k' \<and> rq_queued k' \<and> queue_key k' = queue_key (f k)"
    using link_refines [OF rep1, of t "f ?k"] u(4) g by auto
  then show ?thesis using True k rq u by (auto simp: requeue_def)
qed

subsection \<open>Properties\<close>

text \<open>
  C25.  Dispatch takes the best thread.  On queues that stand for the lists \<open>Q\<close>, dequeuing on a
  processor that has a run queue either finds every list of the current domain empty and changes
  nothing, or takes the head of the list of the highest nonempty priority of that domain and of
  no other list, and leaves queues that stand for \<open>Q\<close> without it.  The reported top priority is
  the one dispatch would take.
\<close>

theorem dispatch_best:
  assumes "rq_rep \<sigma> Q" "rqs \<sigma> self \<noteq> None"
  shows "(rq_dequeue_best self \<sigma> = Some (None, \<sigma>) \<and> (\<forall>p. Q (self, cur_dom \<sigma>, p) = []) \<and> rq_top_priority self \<sigma> = -1) \<or>
    (\<exists>p t ts \<sigma>'. Q (self, cur_dom \<sigma>, p) = t # ts \<and> (\<forall>p'. p < p' \<longrightarrow> Q (self, cur_dom \<sigma>, p') = []) \<and>
       rq_dequeue_best self \<sigma> = Some (Some t, \<sigma>') \<and> rq_rep \<sigma>' (Q((self, cur_dom \<sigma>, p) := ts)) \<and>
       rq_top_priority self \<sigma> = int p)"
proof -
  obtain rq where "rqs \<sigma> self = Some rq" using assms(2) by auto
  then show ?thesis by (rule dequeue_refines [OF assms(1)]) blast+
qed

lemma sample_rep: "rq_rep sample_sched sample_lists"
proof -
  have at: "queued_at sample_sched t q \<longleftrightarrow> t = 1 \<and> q = (0, 0, 10) \<or> t = 2 \<and> q = (0, 0, 200)" for t q
    by (auto simp: queued_at_def sample_sched_def sample_tcb_def queue_key_def rq_dom_of_def IRIS_NUM_DOMAINS_def)
  then have set: "queued_set sample_sched = {1, 2}" by (auto simp: queued_set_def)
  obtain rq where rq: "rqs sample_sched = [0 \<mapsto> rq]" "rq_head rq = sample_queue" "rq_tail rq = sample_queue"
    "rq_mask rq = (\<lambda>d w. if d \<noteq> 0 then 0 else if w = 0 then 2 ^ 10 else if w = 3 then 2 ^ 8 else 0)"
    by (simp add: sample_sched_def)
  have "bucket (tcbs sample_sched) rq d p (sample_lists (0, d, p))" for d p
  proof -
    have b: "bit (1024 :: int) i \<longleftrightarrow> i = 10" "bit (256 :: int) i \<longleftrightarrow> i = 8" for i
      using bit_exp_iff [of 10 i, where 'a = int] bit_exp_iff [of 8 i, where 'a = int] by auto
    have "\<not> bit (if p div 64 = 0 then 1024 else if p div 64 = 3 then 256 else 0 :: u64) (p mod 64)" if "p \<noteq> 10" "p \<noteq> 200"
      using that div_mod_eq [of p 10] div_mod_eq [of p 200] by (auto simp: b)
    then show ?thesis
      unfolding bucket_def sample_sched_def rq(2-4) sample_queue_def sample_lists_def sample_tcb_def
      by (cases "p = 10"; cases "p = 200") (auto simp: b split: if_splits)
  qed
  then have "case rqs sample_sched c of None \<Rightarrow> sample_lists (c, d, p) = []
      | Some r \<Rightarrow> bucket (tcbs sample_sched) r d p (sample_lists (c, d, p))" for c d p
    using rq(1) by (cases "c = 0") (auto simp: sample_lists_def)
  moreover have "rq_live_count sample_sched = 2" by (simp add: sample_sched_def)
  ultimately show ?thesis using at set unfolding rq_rep_def by (auto simp: sample_lists_def)
qed

lemma sample_cpu: "rqs sample_sched 0 \<noteq> None" "cur_dom sample_sched = 0"
  by (simp_all add: sample_sched_def cur_dom_def IRIS_NUM_DOMAINS_def)

theorem dispatch_best_witness: "\<exists>\<sigma>'. rq_dequeue_best 0 sample_sched = Some (Some 2, \<sigma>')"
proof -
  have "sample_lists (0, 0, p) \<noteq> [] \<longleftrightarrow> p = 10 \<or> p = 200" for p by (simp add: sample_lists_def)
  then show ?thesis
    using dispatch_best [OF sample_rep sample_cpu(1)] unfolding sample_cpu(2)
    by (auto simp: sample_lists_def split: if_splits)
qed



text \<open>
  C27.  A thread moves between queues with its key.  Setting the priority of a thread returns; a
  queued thread leaves the list of its old priority and joins the end of the new one's, a thread
  that is not queued stays out of every list, and no other list changes.
\<close>

theorem set_priority_moves:
  assumes "rq_rep \<sigma> Q" "tcbs \<sigma> t = Some k" "rqs \<sigma> (home_cpu k) \<noteq> None" "priority k \<noteq> prio"
  defines "new \<equiv> (home_cpu k, rq_dom_of k, unat prio)"
  shows "\<exists>\<sigma>' k'. sched_set_priority (Some t) prio \<sigma> = Some \<sigma>' \<and> tcbs \<sigma>' t = Some k' \<and> queue_key k' = new \<and>
     rq_rep \<sigma>' (if rq_queued k then Q(queue_key k := remove1 t (Q (queue_key k)), new := Q new @ [t]) else Q)"
proof -
  let ?f = "\<lambda>k. k\<lparr>priority := prio\<rparr> :: tcb"
  let ?Q1 = "Q(queue_key k := remove1 t (Q (queue_key k)))"
  have key: "queue_key (?f k) = new" "queue_key (?f (k\<lparr>rq_queued := False, rq_next := None\<rparr>)) = new"
    by (simp_all add: queue_key_def rq_dom_of_def new_def)
  have "new \<noteq> queue_key k" using assms(4) by (auto simp: new_def queue_key_def word_unat_eq_iff)
  then have "?Q1 new = Q new" by simp
  moreover have "\<exists>\<sigma>'. requeue t ?f \<sigma> = Some \<sigma>' \<and>
      rq_rep \<sigma>' (if rq_queued k then ?Q1(queue_key (?f k) := ?Q1 (queue_key (?f k)) @ [t]) else Q) \<and>
      (\<exists>k'. tcbs \<sigma>' t = Some k' \<and> rq_queued k' = rq_queued k \<and> queue_key k' = queue_key (?f k))"
    by (rule requeue_refines [OF assms(1-3)]) (simp_all add: key)
  ultimately show ?thesis using assms(2,4) by (auto simp: sched_set_priority_def key)
qed

theorem set_priority_moves_witness:
  "\<exists>\<sigma>'. sched_set_priority (Some 1) 200 sample_sched = Some \<sigma>' \<and>
     rq_rep \<sigma>' (sample_lists((0, 0, 10) := [], (0, 0, 200) := [2, 1]))"
proof -
  have "tcbs sample_sched 1 = Some (sample_tcb 10 True TASK_READY)" by (simp add: sample_sched_def)
  from set_priority_moves [OF sample_rep this, of 200] show ?thesis
    by (auto simp: sample_sched_def sample_tcb_def queue_key_def rq_dom_of_def IRIS_NUM_DOMAINS_def sample_lists_def)
qed

end
