(* ===== verification/Iris_Sched.thy ===== *)
theory Iris_Sched
  imports Iris_RunQueue
begin

text \<open>
  The tick, the idle walk and the dispatcher: \<^verbatim>\<open>kernel/core/scheduler/scheduler.c\<close>.  The processor
  that runs the code is the argument \<open>self\<close>; whether it owns the timer is \<open>timekeeper\<close>.  The
  delivery of a timeout fault, which belongs to the endpoint code, is the argument \<open>deliver\<close>.
  Left out: register and address-space switching, reschedule interrupts, the reaper and the
  deferred CNode teardown the dispatcher also drives, and the idle and switch counters.
\<close>

definition MAX_CPUS :: nat where "MAX_CPUS = 8"

definition put_sc :: "nat \<Rightarrow> sched_ctx \<Rightarrow> 'z sched_scheme \<Rightarrow> 'z sched_scheme" where
  "put_sc c sc \<sigma> = \<sigma>\<lparr>sctxs := (sctxs \<sigma>)(c \<mapsto> sc)\<rparr>"

definition upd_tcb :: "tid \<Rightarrow> (tcb \<Rightarrow> tcb) \<Rightarrow> 'z sched_scheme \<Rightarrow> 'z sched_scheme option" where
  "upd_tcb t f \<sigma> = do { k \<leftarrow> tcbs \<sigma> t; Some (put_tcb t (f k) \<sigma>) }"

subsection \<open>The domain schedule\<close>

text \<open>The schedule is a constant of the code: all of the time to domain 0.\<close>

definition dom_schedule :: "(u8 \<times> u32) list" where "dom_schedule = [(0, 0)]"

definition sched_domain_tick :: "(u8 \<times> u32) list \<Rightarrow> 'z sched_scheme \<Rightarrow> bool \<times> 'z sched_scheme" where
  "sched_domain_tick sch \<sigma> =
     (if length sch \<le> 1 \<and> snd (sch ! 0) = 0 then (False, \<sigma>)
      else let left = (if dom_ticks_left \<sigma> > 0 then dom_ticks_left \<sigma> - 1 else dom_ticks_left \<sigma>) in
        if left > 0 then (False, \<sigma>\<lparr>dom_ticks_left := left\<rparr>)
        else let prev = cur_domain \<sigma>;
                 idx = (dom_sched_idx \<sigma> + 1) mod of_nat (length sch);
                 nxt = fst (sch ! unat idx);
                 \<sigma>1 = \<sigma>\<lparr>dom_sched_idx := idx, dom_ticks_left := snd (sch ! unat idx), cur_domain := nxt\<rparr> in
          if nxt \<noteq> prev then (True, \<sigma>1\<lparr>dom_switches := dom_switches \<sigma>1 + 1\<rparr>) else (False, \<sigma>1))"

fun mark_all :: "nat list \<Rightarrow> 'z sched_scheme \<Rightarrow> 'z sched_scheme option" where
  "mark_all [] \<sigma> = Some \<sigma>"
| "mark_all (c # cs) \<sigma> = do {
     \<sigma>1 \<leftarrow> (case current_task \<sigma> c of None \<Rightarrow> Some \<sigma> | Some t \<Rightarrow> upd_tcb t (\<lambda>k. k\<lparr>need_resched := True\<rparr>) \<sigma>);
     mark_all cs \<sigma>1
   }"

subsection \<open>The tick\<close>

text \<open>The scan of \<^verbatim>\<open>sched_tick_global\<close> over the thread list.\<close>

fun tick_wake :: "tid list \<Rightarrow> 'z sched_scheme \<Rightarrow> 'z sched_scheme option" where
  "tick_wake [] \<sigma> = Some \<sigma>"
| "tick_wake (t # ts) \<sigma> = do {
     k \<leftarrow> tcbs \<sigma> t;
     if state k = TASK_BUDGET_EXHAUSTED \<and> wake_tick k \<noteq> 0 \<and> wake_tick k \<le> scheduler_ticks \<sigma>
     then do {
       \<sigma>1 \<leftarrow> (case sched_ctx_of k of
                None \<Rightarrow> Some \<sigma>
              | Some c \<Rightarrow> do { sc \<leftarrow> sctxs \<sigma> c; Some (put_sc c (sc\<lparr>remaining_budget := budget_ticks sc\<rparr>) \<sigma>) });
       \<sigma>2 \<leftarrow> task_wakeup (Some t) (put_tcb t (k\<lparr>wake_tick := 0\<rparr>) \<sigma>1);
       tick_wake ts \<sigma>2
     }
     else tick_wake ts \<sigma>
   }"

definition sched_tick_global :: "'z sched_scheme \<Rightarrow> 'z sched_scheme option" where
  "sched_tick_global \<sigma> = do {
     let \<sigma>1 = \<sigma>\<lparr>scheduler_ticks := scheduler_ticks \<sigma> + 1, wall_ticks := wall_ticks \<sigma> + 1\<rparr>;
     let (changed, \<sigma>2) = sched_domain_tick dom_schedule \<sigma>1;
     \<sigma>3 \<leftarrow> (if changed then mark_all [0..<MAX_CPUS] \<sigma>2 else Some \<sigma>2);
     tick_wake (sched_thread_list \<sigma>3) \<sigma>3
   }"

text \<open>The preemption check and the time slice at the end of \<^verbatim>\<open>sched_tick_local\<close>.\<close>

definition tick_slice :: "nat \<Rightarrow> tid \<Rightarrow> 'z sched_scheme \<Rightarrow> 'z sched_scheme option" where
  "tick_slice self t \<sigma> = do {
     k \<leftarrow> tcbs \<sigma> t;
     let k1 = (if state k = TASK_RUNNING \<and> rq_top_priority self \<sigma> > int (unat (priority k))
               then k\<lparr>need_resched := True\<rparr> else k);
     let k2 = (if ticks_left k1 > 0 then k1\<lparr>ticks_left := ticks_left k1 - 1\<rparr> else k1);
     let k3 = (if ticks_left k2 = 0 then k2\<lparr>need_resched := True\<rparr> else k2);
     Some (put_tcb t k3 \<sigma>)
   }"

definition sched_tick_local :: "nat \<Rightarrow> 'z sched_scheme \<Rightarrow> 'z sched_scheme option" where
  "sched_tick_local self \<sigma> =
     (case current_task \<sigma> self of
        None \<Rightarrow> Some \<sigma>
      | Some t \<Rightarrow> do {
          k \<leftarrow> tcbs \<sigma> t;
          (case sched_ctx_of k of
             Some c \<Rightarrow>
               if state k = TASK_RUNNING then do {
                 sc \<leftarrow> sctxs \<sigma> c;
                 let (exhausted, sc1) = kschedctx_charge_tick (Some sc) (scheduler_ticks \<sigma>);
                 s1 \<leftarrow> sc1;
                 let \<sigma>1 = put_sc c s1 \<sigma>;
                 if exhausted then
                   if timeout_ep k then Some (put_tcb t (k\<lparr>timeout_pending := True, need_resched := True\<rparr>) \<sigma>1)
                   else do {
                     sc2 \<leftarrow> kschedctx_flush_run (Some s1);
                     s2 \<leftarrow> sc2;
                     let \<sigma>2 = put_sc c s2 \<sigma>1;
                     if \<not> kschedctx_has_refill (Some s2) then Some (put_tcb t (k\<lparr>need_resched := True\<rparr>) \<sigma>2)
                     else Some (put_tcb t (k\<lparr>state := TASK_BUDGET_EXHAUSTED, wake_tick := 0, need_resched := True\<rparr>) \<sigma>2)
                   }
                 else tick_slice self t \<sigma>1
               }
               else tick_slice self t \<sigma>
           | None \<Rightarrow> tick_slice self t \<sigma>)
        })"

definition scheduler_tick :: "nat \<Rightarrow> 'z sched_scheme \<Rightarrow> 'z sched_scheme option" where
  "scheduler_tick self \<sigma> = do { \<sigma>1 \<leftarrow> sched_tick_global \<sigma>; sched_tick_local self \<sigma>1 }"

definition scheduler_tick_remote :: "nat \<Rightarrow> 'z sched_scheme \<Rightarrow> 'z sched_scheme option" where
  "scheduler_tick_remote self \<sigma> = sched_tick_local self \<sigma>"

subsection \<open>The idle walk\<close>

fun nearest_deadline :: "tid list \<Rightarrow> u64 \<Rightarrow> 'z sched_scheme \<Rightarrow> u64 option" where
  "nearest_deadline [] m \<sigma> = Some m"
| "nearest_deadline (t # ts) m \<sigma> = do {
     k \<leftarrow> tcbs \<sigma> t;
     let m1 = (if wake_tick k \<noteq> 0 \<and> wake_tick k < m then wake_tick k else m);
     m2 \<leftarrow> (case sched_ctx_of k of
              Some c \<Rightarrow>
                if state k = TASK_BUDGET_EXHAUSTED then do {
                  sc \<leftarrow> sctxs \<sigma> c;
                  if refill_count sc > 0
                  then let due = at_tick (refills sc ! unat (refill_head sc)) in Some (if due < m1 then due else m1)
                  else Some m1
                }
                else Some m1
            | None \<Rightarrow> Some m1);
     nearest_deadline ts m2 \<sigma>
   }"

fun idle_wake :: "tid list \<Rightarrow> 'z sched_scheme \<Rightarrow> 'z sched_scheme option" where
  "idle_wake [] \<sigma> = Some \<sigma>"
| "idle_wake (t # ts) \<sigma> =
     (if t = sched_idle_thread \<sigma> then idle_wake ts \<sigma>
      else do {
        k \<leftarrow> tcbs \<sigma> t;
        \<sigma>1 \<leftarrow> (case sched_ctx_of k of
                 Some c \<Rightarrow>
                   if state k = TASK_BUDGET_EXHAUSTED then do {
                     sc \<leftarrow> sctxs \<sigma> c;
                     (gained, sc1) \<leftarrow> kschedctx_apply_refills (Some sc) (scheduler_ticks \<sigma>);
                     s1 \<leftarrow> sc1;
                     let \<sigma>a = put_sc c s1 \<sigma>;
                     if gained then task_wakeup (Some t) (put_tcb t (k\<lparr>wake_tick := 0\<rparr>) \<sigma>a) else Some \<sigma>a
                   }
                   else Some \<sigma>
               | None \<Rightarrow> Some \<sigma>);
        idle_wake ts \<sigma>1
      })"

definition sched_handle_idle :: "bool \<Rightarrow> nat \<Rightarrow> 'z sched_scheme \<Rightarrow> (tid option \<times> 'z sched_scheme) option" where
  "sched_handle_idle timekeeper self \<sigma> = do {
     min_wake \<leftarrow> nearest_deadline (sched_thread_list \<sigma>) (- 1) \<sigma>;
     let \<sigma>1 = (if min_wake \<noteq> - 1 \<and> timekeeper \<and> min_wake > scheduler_ticks \<sigma>
               then \<sigma>\<lparr>scheduler_ticks := min_wake\<rparr> else \<sigma>);
     \<sigma>2 \<leftarrow> idle_wake (sched_thread_list \<sigma>1) \<sigma>1;
     rq_dequeue_best self \<sigma>2
   }"

subsection \<open>The dispatcher\<close>

definition timeout_outgoing ::
    "(tid \<Rightarrow> 'z sched_scheme \<Rightarrow> bool \<times> 'z sched_scheme) \<Rightarrow> tid \<Rightarrow> 'z sched_scheme \<Rightarrow> 'z sched_scheme option" where
  "timeout_outgoing deliver t \<sigma> = do {
     k \<leftarrow> tcbs \<sigma> t;
     if \<not> timeout_pending k then Some \<sigma>
     else do {
       let (delivered, \<sigma>1) = deliver t (put_tcb t (k\<lparr>timeout_pending := False\<rparr>) \<sigma>);
       k1 \<leftarrow> tcbs \<sigma>1 t;
       if delivered then Some (put_tcb t (k1\<lparr>state := TASK_BLOCKED_FAULT\<rparr>) \<sigma>1)
       else (case sched_ctx_of k1 of
               None \<Rightarrow> Some \<sigma>1
             | Some c \<Rightarrow> do {
                 sc \<leftarrow> sctxs \<sigma>1 c;
                 Some (put_tcb t (k1\<lparr>state := TASK_BUDGET_EXHAUSTED,
                   wake_tick := scheduler_ticks \<sigma>1 + period_ticks sc\<rparr>) \<sigma>1)
               })
     }
   }"

definition release_outgoing ::
    "(tid \<Rightarrow> 'z sched_scheme \<Rightarrow> bool \<times> 'z sched_scheme) \<Rightarrow> tid option \<Rightarrow> 'z sched_scheme \<Rightarrow> 'z sched_scheme option" where
  "release_outgoing deliver out \<sigma> =
     (case out of
        None \<Rightarrow> Some \<sigma>
      | Some t \<Rightarrow> do {
          \<sigma>1 \<leftarrow> timeout_outgoing deliver t \<sigma>;
          k \<leftarrow> tcbs \<sigma>1 t;
          \<sigma>2 \<leftarrow> (case sched_ctx_of k of
                   None \<Rightarrow> Some \<sigma>1
                 | Some c \<Rightarrow> do {
                     sc \<leftarrow> sctxs \<sigma>1 c;
                     sc1 \<leftarrow> kschedctx_flush_run (Some sc);
                     s1 \<leftarrow> sc1;
                     Some (put_sc c s1 \<sigma>1)
                   });
          if state k = TASK_RUNNING then do {
            let \<sigma>3 = put_tcb t (k\<lparr>state := TASK_READY\<rparr>) \<sigma>2;
            if t = sched_idle_thread \<sigma>3 then Some \<sigma>3 else rq_enqueue t \<sigma>3
          }
          else Some \<sigma>2
        })"

text \<open>The loop drops threads that were suspended while queued.\<close>

partial_function (option) pick_loop :: "bool \<Rightarrow> nat \<Rightarrow> 'z sched_scheme \<Rightarrow> (tid option \<times> 'z sched_scheme) option" where
  "pick_loop timekeeper self \<sigma> = do {
     first \<leftarrow> rq_dequeue_best self \<sigma>;
     second \<leftarrow> (if fst first = None then sched_handle_idle timekeeper self (snd first) else Some first);
     if fst second = None then Some second
     else do {
       t \<leftarrow> fst second;
       k \<leftarrow> tcbs (snd second) t;
       if state k \<noteq> TASK_SUSPENDED then Some second else pick_loop timekeeper self (snd second)
     }
   }"

declare pick_loop.simps [code]

definition sched_pick_for_dispatch ::
    "(tid \<Rightarrow> 'z sched_scheme \<Rightarrow> bool \<times> 'z sched_scheme) \<Rightarrow> bool \<Rightarrow> nat \<Rightarrow> tid option \<Rightarrow> 'z sched_scheme
       \<Rightarrow> (tid option \<times> 'z sched_scheme) option" where
  "sched_pick_for_dispatch deliver timekeeper self out \<sigma> = do {
     \<sigma>1 \<leftarrow> release_outgoing deliver out \<sigma>;
     (chosen, \<sigma>2) \<leftarrow> pick_loop timekeeper self \<sigma>1;
     (case chosen of
        None \<Rightarrow> Some (None, \<sigma>2)
      | Some t \<Rightarrow> do {
          k \<leftarrow> tcbs \<sigma>2 t;
          Some (chosen, put_tcb t (k\<lparr>state := TASK_RUNNING, ticks_left := time_slice k, need_resched := False\<rparr>)
            (\<sigma>2\<lparr>current_task := (current_task \<sigma>2)(self := chosen)\<rparr>))
        })
   }"


text \<open>Processor 0 as in the run-queue sample, but thread 3 has spent the budget of context 0 and waits for tick 1.\<close>

definition sample_flushed :: sched_ctx where
  "sample_flushed = the (the (kschedctx_flush_run (Some sample_spent)))"

definition parked_sched :: sched where
  "parked_sched = sample_sched\<lparr>
     tcbs := (tcbs sample_sched)(3 \<mapsto> (sample_tcb 200 False TASK_BUDGET_EXHAUSTED)\<lparr>sched_ctx_of := Some 0, wake_tick := 1\<rparr>),
     sctxs := [0 \<mapsto> sample_flushed]\<rparr>"

subsection \<open>What the queue operations leave alone\<close>

text \<open>A thread without its links, and states that differ only in the links and in whether \<open>t\<close> is queued.\<close>

definition tcb_core :: "tcb \<Rightarrow> tcb" where
  "tcb_core k = k\<lparr>rq_queued := False, rq_next := None\<rparr>"

definition same_but_links :: "tid \<Rightarrow> 'z sched_scheme \<Rightarrow> 'z sched_scheme \<Rightarrow> bool" where
  "same_but_links t \<sigma> \<sigma>' \<longleftrightarrow>
     (\<forall>x. map_option tcb_core (tcbs \<sigma>' x) = map_option tcb_core (tcbs \<sigma> x)) \<and>
     (\<forall>x. x \<noteq> t \<longrightarrow> map_option rq_queued (tcbs \<sigma>' x) = map_option rq_queued (tcbs \<sigma> x)) \<and>
     (\<forall>c. (rqs \<sigma>' c = None) = (rqs \<sigma> c = None)) \<and>
     sctxs \<sigma>' = sctxs \<sigma> \<and> cur_domain \<sigma>' = cur_domain \<sigma> \<and> current_task \<sigma>' = current_task \<sigma> \<and>
     sched_thread_list \<sigma>' = sched_thread_list \<sigma> \<and> sched_idle_thread \<sigma>' = sched_idle_thread \<sigma> \<and>
     scheduler_ticks \<sigma>' = scheduler_ticks \<sigma> \<and> wall_ticks \<sigma>' = wall_ticks \<sigma>"

lemma enqueue_frame:
  assumes "rq_enqueue t \<sigma> = Some \<sigma>'"
  shows "same_but_links t \<sigma> \<sigma>'"
  using assms
  by (auto simp: rq_enqueue_def rq_link_locked_def same_but_links_def tcb_core_def rq_live_inc_def Let_def put_tcb_def put_rq_def
      split: Option.bind_split_asm if_split_asm option.split_asm)

lemma dequeue_result:
  assumes "rq_dequeue_best self \<sigma> = Some (r, \<sigma>')"
  shows "r = None \<and> \<sigma>' = \<sigma> \<or>
    (\<exists>t k rq. r = Some t \<and> tcbs \<sigma> t = Some k \<and> rqs \<sigma> self \<noteq> None \<and>
       \<sigma>' = rq_live_dec (put_tcb t (tcb_core k) (put_rq self rq \<sigma>)))"
proof (cases "rqs \<sigma> self")
  case rq: (Some rq)
  show ?thesis
  proof (cases "best_word 4 (rq_mask rq (cur_dom \<sigma>))")
    case (Some w)
    have "rqs \<sigma> self \<noteq> None" using rq by simp
    with assms [unfolded rq_dequeue_best_def Let_def rq option.case Some] show ?thesis
      unfolding tcb_core_def by (elim bindE) (unfold option.inject prod.inject, blast intro: sym)
  qed (use rq assms in \<open>simp add: rq_dequeue_best_def\<close>)
qed (use assms in \<open>simp add: rq_dequeue_best_def\<close>)

lemma dequeue_frame:
  assumes "rq_dequeue_best self \<sigma> = Some (Some t, \<sigma>')"
  shows "same_but_links t \<sigma> \<sigma>'"
  using dequeue_result [OF assms]
  by (auto simp: same_but_links_def tcb_core_def rq_live_dec_def put_tcb_def put_rq_def split: if_split_asm)

subsection \<open>The invariant of the scheduler\<close>

text \<open>
  The queues stand for lists; every listed or running thread exists; and the context of a thread
  exists with room for a replenishment.
\<close>

definition threads_ok :: "'z sched_scheme \<Rightarrow> bool" where
  "threads_ok \<sigma> \<longleftrightarrow>
     (\<forall>t \<in> set (sched_thread_list \<sigma>). tcbs \<sigma> t \<noteq> None) \<and>
     (\<forall>c t. current_task \<sigma> c = Some t \<longrightarrow> tcbs \<sigma> t \<noteq> None) \<and>
     (\<forall>t k c. tcbs \<sigma> t = Some k \<longrightarrow> sched_ctx_of k = Some c \<longrightarrow> (\<exists>sc. sctxs \<sigma> c = Some sc \<and> refill_max sc \<noteq> 0))"

definition sched_ok :: "'z sched_scheme \<Rightarrow> bool" where
  "sched_ok \<sigma> \<longleftrightarrow> (\<exists>Q. rq_rep \<sigma> Q) \<and> threads_ok \<sigma>"

lemma core_fields:
  "tcb_core k = tcb_core k' \<Longrightarrow> state k = state k' \<and> priority k = priority k' \<and> domain k = domain k' \<and> home_cpu k = home_cpu k' \<and>
     terminal k = terminal k' \<and> sched_ctx_of k = sched_ctx_of k' \<and> wake_tick k = wake_tick k'"
  by (cases k; cases k') (simp add: tcb_core_def)

lemma frame_core:
  assumes "same_but_links t \<sigma> \<sigma>'"
  shows "tcbs \<sigma>' x = None \<longleftrightarrow> tcbs \<sigma> x = None"
    "tcbs \<sigma>' x = Some k' \<Longrightarrow> \<exists>k. tcbs \<sigma> x = Some k \<and> tcb_core k = tcb_core k' \<and> (x \<noteq> t \<longrightarrow> rq_queued k = rq_queued k')"
proof -
  have m: "map_option tcb_core (tcbs \<sigma>' x) = map_option tcb_core (tcbs \<sigma> x)"
    "x \<noteq> t \<Longrightarrow> map_option rq_queued (tcbs \<sigma>' x) = map_option rq_queued (tcbs \<sigma> x)"
    using assms unfolding same_but_links_def by blast+
  then show "tcbs \<sigma>' x = None \<longleftrightarrow> tcbs \<sigma> x = None" by (metis option.map_disc_iff)
  show "\<exists>k. tcbs \<sigma> x = Some k \<and> tcb_core k = tcb_core k' \<and> (x \<noteq> t \<longrightarrow> rq_queued k = rq_queued k')" if "tcbs \<sigma>' x = Some k'"
    using m that by (cases "tcbs \<sigma> x") auto
qed

lemma frame_same:
  assumes "same_but_links t \<sigma> \<sigma>'"
  shows "sctxs \<sigma>' = sctxs \<sigma>" "cur_domain \<sigma>' = cur_domain \<sigma>" "current_task \<sigma>' = current_task \<sigma>"
    "sched_thread_list \<sigma>' = sched_thread_list \<sigma>" "sched_idle_thread \<sigma>' = sched_idle_thread \<sigma>"
    "scheduler_ticks \<sigma>' = scheduler_ticks \<sigma>"
  using assms unfolding same_but_links_def by blast+

lemma frame_threads:
  assumes f: "same_but_links t \<sigma> \<sigma>'" and ok: "threads_ok \<sigma>"
  shows "threads_ok \<sigma>'"
  unfolding threads_ok_def frame_same [OF f] frame_core(1) [OF f]
proof (intro conjI allI impI)
  fix x k' c assume k': "tcbs \<sigma>' x = Some k'" "sched_ctx_of k' = Some c"
  obtain k where k: "tcbs \<sigma> x = Some k" "tcb_core k = tcb_core k'" using frame_core(2) [OF f k'(1)] by blast
  then have "sched_ctx_of k = Some c" using core_fields [OF k(2)] k'(2) by simp
  then show "\<exists>sc. sctxs \<sigma> c = Some sc \<and> refill_max sc \<noteq> 0" using ok k(1) unfolding threads_ok_def by blast
qed (use ok in \<open>simp_all add: threads_ok_def\<close>)

lemma put_ok:
  assumes "sched_ok \<sigma>" "tcbs \<sigma> t = Some k" "rq_queued k' = rq_queued k" "rq_next k' = rq_next k" "queue_key k' = queue_key k"
    "sched_ctx_of k' = sched_ctx_of k"
  shows "sched_ok (put_tcb t k' \<sigma>)"
proof -
  obtain Q where "rq_rep \<sigma> Q" using assms(1) by (auto simp: sched_ok_def)
  from put_same_rep [OF this assms(2-5)] have "\<exists>Q. rq_rep (put_tcb t k' \<sigma>) Q" by blast
  moreover have "threads_ok (put_tcb t k' \<sigma>)" using assms by (auto simp: sched_ok_def threads_ok_def put_tcb_def split: if_splits)
  ultimately show ?thesis by (simp add: sched_ok_def)
qed

lemma rep_other [simp]:
  "rq_rep (\<sigma>\<lparr>sctxs := s\<rparr>) Q = rq_rep \<sigma> Q" "rq_rep (\<sigma>\<lparr>scheduler_ticks := n\<rparr>) Q = rq_rep \<sigma> Q"
  "rq_rep (\<sigma>\<lparr>current_task := f\<rparr>) Q = rq_rep \<sigma> Q" "rq_rep (\<sigma>\<lparr>wall_ticks := n\<rparr>) Q = rq_rep \<sigma> Q"
  by (simp_all add: rq_rep_def queued_set_def queued_at_def cong: option.case_cong)

lemma put_sc_ok: "sched_ok \<sigma> \<Longrightarrow> refill_max sc \<noteq> 0 \<Longrightarrow> sched_ok (put_sc c sc \<sigma>)"
  by (auto simp: sched_ok_def threads_ok_def put_sc_def)

lemma ticks_ok [simp]: "sched_ok (\<sigma>\<lparr>scheduler_ticks := n\<rparr>) = sched_ok \<sigma>" "sched_ok (\<sigma>\<lparr>wall_ticks := n\<rparr>) = sched_ok \<sigma>"
  by (simp_all add: sched_ok_def threads_ok_def)

lemma enqueue_ok:
  assumes "sched_ok \<sigma>" "tcbs \<sigma> t \<noteq> None"
  shows "\<exists>\<sigma>'. rq_enqueue t \<sigma> = Some \<sigma>' \<and> sched_ok \<sigma>'"
proof -
  obtain Q k where q: "rq_rep \<sigma> Q" "threads_ok \<sigma>" "tcbs \<sigma> t = Some k" using assms by (auto simp: sched_ok_def)
  show ?thesis
  proof (cases "rqs \<sigma> (home_cpu k) = None")
    case True
    then show ?thesis using q assms by (simp add: rq_enqueue_def)
  next
    case False
    obtain \<sigma>' Q' where e: "rq_enqueue t \<sigma> = Some \<sigma>'" "rq_rep \<sigma>' Q'" using enqueue_refines [OF q(1,3) False] by blast
    then show ?thesis using frame_threads [OF enqueue_frame [OF e(1)] q(2)] by (auto simp: sched_ok_def)
  qed
qed

text \<open>What bounds the dispatcher's loop: a queued thread counts once, a parked thread twice.\<close>

definition parked :: "'z sched_scheme \<Rightarrow> tid set" where
  "parked \<sigma> = {t \<in> set (sched_thread_list \<sigma>). \<exists>k. tcbs \<sigma> t = Some k \<and> state k = TASK_BUDGET_EXHAUSTED}"

definition load :: "'z sched_scheme \<Rightarrow> nat" where
  "load \<sigma> = card (queued_set \<sigma>) + 2 * card (parked \<sigma>)"

definition quiet :: "'z sched_scheme \<Rightarrow> 'z sched_scheme \<Rightarrow> bool" where
  "quiet \<sigma> \<sigma>' \<longleftrightarrow> sched_thread_list \<sigma>' = sched_thread_list \<sigma> \<and> sched_idle_thread \<sigma>' = sched_idle_thread \<sigma> \<and>
     cur_domain \<sigma>' = cur_domain \<sigma> \<and> current_task \<sigma>' = current_task \<sigma> \<and> load \<sigma>' \<le> load \<sigma> \<and>
     (\<forall>x. (tcbs \<sigma>' x = None) = (tcbs \<sigma> x = None))"

lemma quiet_refl [simp]: "quiet \<sigma> \<sigma>"
  by (simp add: quiet_def)

lemma quiet_trans: "quiet \<sigma> \<sigma>1 \<Longrightarrow> quiet \<sigma>1 \<sigma>2 \<Longrightarrow> quiet \<sigma> \<sigma>2"
  by (simp add: quiet_def)

lemma finite_parked [simp]: "finite (parked \<sigma>)"
  by (simp add: parked_def)

lemma ok_finite: "sched_ok \<sigma> \<Longrightarrow> finite (queued_set \<sigma>)"
  by (auto simp: sched_ok_def dest: repD(5))

lemma queued_setE: "x \<in> queued_set \<sigma> \<longleftrightarrow> (\<exists>k. tcbs \<sigma> x = Some k \<and> rq_queued k)"
  unfolding queued_set_def queued_at_def by blast

lemma put_sc_quiet: "quiet \<sigma> (put_sc c sc \<sigma>)"
  by (simp add: quiet_def put_sc_def load_def parked_def queued_set_def queued_at_def)

lemma put_tcb_quiet:
  assumes "tcbs \<sigma> t = Some k" "rq_queued k' = rq_queued k" "state k' = state k"
  shows "quiet \<sigma> (put_tcb t k' \<sigma>)"
proof -
  have "queued_set (put_tcb t k' \<sigma>) = queued_set \<sigma>" using assms by (auto simp: queued_setE split: if_splits)
  moreover have "parked (put_tcb t k' \<sigma>) = parked \<sigma>" using assms by (auto simp: parked_def put_tcb_def)
  ultimately show ?thesis using assms by (auto simp: quiet_def load_def put_tcb_def)
qed

lemma frame_queued:
  assumes "same_but_links t \<sigma> \<sigma>'"
  shows "queued_set \<sigma>' \<subseteq> insert t (queued_set \<sigma>)" "parked \<sigma>' = parked \<sigma>"
proof -
  show "queued_set \<sigma>' \<subseteq> insert t (queued_set \<sigma>)" using frame_core(2) [OF assms] by (fastforce simp: queued_setE)
  have "(\<exists>k. tcbs \<sigma>' x = Some k \<and> state k = s) = (\<exists>k. tcbs \<sigma> x = Some k \<and> state k = s)" for x s
  proof (cases "tcbs \<sigma>' x")
    case None
    then show ?thesis using frame_core(1) [OF assms, of x] by simp
  next
    case (Some k')
    then obtain k where k: "tcbs \<sigma> x = Some k" "tcb_core k = tcb_core k'" using frame_core(2) [OF assms] by blast
    then show ?thesis using core_fields [OF k(2)] Some by simp
  qed
  then show "parked \<sigma>' = parked \<sigma>" using frame_same(4) [OF assms] by (simp add: parked_def)
qed

lemma wakeup_ok:
  assumes ok: "sched_ok \<sigma>" and k: "tcbs \<sigma> t = Some k"
  shows "\<exists>\<sigma>'. task_wakeup (Some t) \<sigma> = Some \<sigma>' \<and> sched_ok \<sigma>' \<and>
    (t \<in> parked \<sigma> \<longrightarrow> quiet \<sigma> \<sigma>') \<and> (\<forall>x. (tcbs \<sigma>' x = None) = (tcbs \<sigma> x = None))"
proof (cases "state k = TASK_DEAD \<or> terminal k")
  case True
  then show ?thesis using ok k by (auto simp: task_wakeup_def)
next
  case False
  let ?s = "put_tcb t (k\<lparr>state := TASK_READY\<rparr>) \<sigma>"
  have s: "sched_ok ?s" by (rule put_ok [OF ok k]) (simp_all add: queue_key_def rq_dom_of_def)
  obtain \<sigma>' where r: "task_wakeup (Some t) \<sigma> = Some \<sigma>'" "sched_ok \<sigma>'" "\<sigma>' = ?s \<or> same_but_links t ?s \<sigma>'"
  proof (cases "t = sched_idle_thread \<sigma>")
    case True
    then show ?thesis using that s k False by (simp add: task_wakeup_def Let_def)
  next
    case n: False
    obtain \<sigma>' where e: "rq_enqueue t ?s = Some \<sigma>'" "sched_ok \<sigma>'" using enqueue_ok [OF s, of t] by auto
    then show ?thesis using that n k False enqueue_frame [OF e(1)] by (simp add: task_wakeup_def Let_def)
  qed
  have dom: "(tcbs \<sigma>' x = None) = (tcbs \<sigma> x = None)" for x using r(3) k by (auto simp: frame_core(1) split: if_splits)
  have q: "queued_set \<sigma>' \<subseteq> insert t (queued_set ?s)" "parked \<sigma>' = parked ?s" using r(3) frame_queued [of t ?s \<sigma>'] by auto
  have "queued_set ?s = queued_set \<sigma>" "parked ?s = parked \<sigma> - {t}" using k by (auto simp: queued_setE parked_def put_tcb_def split: if_splits)
  moreover have "card (parked \<sigma>) > 0" if "t \<in> parked \<sigma>" using that by (auto simp: card_gt_0_iff)
  moreover have "card (queued_set \<sigma>') \<le> Suc (card (queued_set \<sigma>))"
    using card_mono [OF _ q(1)] card_insert_if [of "queued_set \<sigma>" t] ok_finite [OF ok] calculation(1) by (simp split: if_splits)
  ultimately have l: "load \<sigma>' \<le> load \<sigma>" if "t \<in> parked \<sigma>" using that q(2) by (simp add: load_def)
  have "quiet \<sigma> \<sigma>'" if "t \<in> parked \<sigma>"
    using r(3) l [OF that] dom by (auto simp: quiet_def frame_same put_tcb_def)
  then show ?thesis using r dom by blast
qed

lemma apply_total:
  assumes "refill_max sc \<noteq> 0"
  shows "\<exists>g sc'. apply_loop now g0 sc = Some (g, sc') \<and> refill_max sc' = refill_max sc"
  using assms
proof (induction now g0 sc rule: apply_loop.induct)
  case (1 now g0 sc)
  show ?case
  proof (cases "refill_count sc > 0 \<and> at_tick (refills sc ! unat (refill_head sc)) \<le> now")
    case True
    then show ?thesis using 1(1) [OF True 1(2)] 1(2) by (simp add: apply_loop.simps [of now g0 sc])
  next
    case False
    then show ?thesis by (subst apply_loop.simps) auto
  qed
qed

lemma apply_refills_total:
  assumes "refill_max sc \<noteq> 0"
  shows "\<exists>g s1. kschedctx_apply_refills (Some sc) now = Some (g, Some s1) \<and> refill_max s1 \<noteq> 0"
proof -
  obtain g sc' where "apply_loop now False sc = Some (g, sc')" "refill_max sc' = refill_max sc"
    using apply_total [OF assms] by blast
  then show ?thesis using assms by (cases "budget_ticks sc' < remaining_budget sc'") simp_all
qed

lemma flush_total:
  assumes "refill_max sc \<noteq> 0"
  shows "\<exists>s1. kschedctx_flush_run (Some sc) = Some (Some s1) \<and> refill_max s1 \<noteq> 0"
  using assms by (simp add: Let_def)

lemma ctx_ok:
  assumes "sched_ok \<sigma>" "tcbs \<sigma> t = Some k" "sched_ctx_of k = Some c"
  shows "\<exists>sc. sctxs \<sigma> c = Some sc \<and> refill_max sc \<noteq> 0"
  using assms unfolding sched_ok_def threads_ok_def by blast

lemma list_ok: "sched_ok \<sigma> \<Longrightarrow> t \<in> set (sched_thread_list \<sigma>) \<Longrightarrow> \<exists>k. tcbs \<sigma> t = Some k"
  unfolding sched_ok_def threads_ok_def by blast

lemma nearest_total:
  "sched_ok \<sigma> \<Longrightarrow> set ts \<subseteq> set (sched_thread_list \<sigma>) \<Longrightarrow> \<exists>n. nearest_deadline ts m \<sigma> = Some n"
proof (induction ts arbitrary: m)
  case (Cons t ts)
  obtain k where k: "tcbs \<sigma> t = Some k" using list_ok [OF Cons.prems(1), of t] Cons.prems(2) by auto
  show ?case
  proof (cases "sched_ctx_of k")
    case None
    then show ?thesis using Cons k by (simp add: Let_def)
  next
    case (Some c)
    obtain sc where "sctxs \<sigma> c = Some sc" using ctx_ok [OF Cons.prems(1) k Some] by blast
    then show ?thesis using Cons k Some by (simp add: Let_def)
  qed
qed simp

text \<open>One thread of the idle walk.\<close>

lemma replenish_ok:
  assumes ok: "sched_ok \<sigma>" and k: "tcbs \<sigma> t = Some k" "sched_ctx_of k = Some c" "state k = TASK_BUDGET_EXHAUSTED"
    and t: "t \<in> set (sched_thread_list \<sigma>)" and ap: "sctxs \<sigma> c = Some sc" "kschedctx_apply_refills (Some sc) now = Some (g, Some s1)"
    and m: "refill_max s1 \<noteq> 0"
  shows "\<exists>\<sigma>'. (if g then task_wakeup (Some t) (put_tcb t (k\<lparr>wake_tick := 0\<rparr>) (put_sc c s1 \<sigma>)) else Some (put_sc c s1 \<sigma>)) = Some \<sigma>' \<and>
    sched_ok \<sigma>' \<and> quiet \<sigma> \<sigma>'"
proof (cases g)
  case False
  then show ?thesis using put_sc_ok [OF ok m] put_sc_quiet by auto
next
  case True
  let ?a = "put_sc c s1 \<sigma>" and ?k = "k\<lparr>wake_tick := 0\<rparr>"
  have ka: "tcbs ?a t = Some k" using k by (simp add: put_sc_def)
  have b: "sched_ok (put_tcb t ?k ?a)"
    by (rule put_ok [OF put_sc_ok [OF ok m] ka]) (simp_all add: queue_key_def rq_dom_of_def)
  have q: "quiet \<sigma> (put_tcb t ?k ?a)"
    by (rule quiet_trans [OF put_sc_quiet put_tcb_quiet [OF ka]]) simp_all
  have "t \<in> parked (put_tcb t ?k ?a)" using t k by (simp add: parked_def put_tcb_def put_sc_def)
  then show ?thesis using True wakeup_ok [OF b, of t ?k] q by (auto intro: quiet_trans)
qed

lemma idle_wake_ok:
  "sched_ok \<sigma> \<Longrightarrow> set ts \<subseteq> set (sched_thread_list \<sigma>) \<Longrightarrow> \<exists>\<sigma>'. idle_wake ts \<sigma> = Some \<sigma>' \<and> sched_ok \<sigma>' \<and> quiet \<sigma> \<sigma>'"
proof (induction ts arbitrary: \<sigma>)
  case (Cons t ts)
  obtain k where k: "tcbs \<sigma> t = Some k" using list_ok [OF Cons.prems(1), of t] Cons.prems(2) by auto
  show ?case
  proof (cases "t = sched_idle_thread \<sigma> \<or> sched_ctx_of k = None \<or> state k \<noteq> TASK_BUDGET_EXHAUSTED")
    case True
    then have "idle_wake (t # ts) \<sigma> = idle_wake ts \<sigma>" using k by (auto split: option.split)
    then show ?thesis using Cons by simp
  next
    case False
    then obtain c where c: "sched_ctx_of k = Some c" by auto
    obtain sc where sc: "sctxs \<sigma> c = Some sc" "refill_max sc \<noteq> 0" using ctx_ok [OF Cons.prems(1) k c] by blast
    obtain g s1 where g: "kschedctx_apply_refills (Some sc) (scheduler_ticks \<sigma>) = Some (g, Some s1)" "refill_max s1 \<noteq> 0"
      using apply_refills_total [OF sc(2)] by blast
    obtain \<sigma>1 where s1: "(if g then task_wakeup (Some t) (put_tcb t (k\<lparr>wake_tick := 0\<rparr>) (put_sc c s1 \<sigma>)) else Some (put_sc c s1 \<sigma>)) = Some \<sigma>1"
      "sched_ok \<sigma>1" "quiet \<sigma> \<sigma>1"
      using replenish_ok [OF Cons.prems(1) k c _ _ sc(1) g] False Cons.prems(2) by auto
    have "idle_wake (t # ts) \<sigma> = idle_wake ts \<sigma>1" using False k c sc g(1) s1(1) by (simp del: kschedctx_apply_refills.simps)
    moreover have "sched_thread_list \<sigma>1 = sched_thread_list \<sigma>" using s1(3) by (simp add: quiet_def)
    ultimately show ?thesis using Cons.IH [OF s1(2)] Cons.prems(2) s1(3) by (auto intro: quiet_trans)
  qed
qed simp

text \<open>What dispatch guarantees of the thread it hands to a processor.\<close>

definition picked :: "nat \<Rightarrow> 'z sched_scheme \<Rightarrow> tid \<Rightarrow> bool" where
  "picked self \<sigma> t \<longleftrightarrow> (\<exists>k. tcbs \<sigma> t = Some k \<and> \<not> rq_queued k \<and> home_cpu k = self \<and> rq_dom_of k = cur_dom \<sigma> \<and>
     (\<forall>x p. queued_at \<sigma> x (self, cur_dom \<sigma>, p) \<longrightarrow> p \<le> unat (priority k)))"

lemma dequeue_ok:
  assumes ok: "sched_ok \<sigma>"
  shows "\<exists>r \<sigma>'. rq_dequeue_best self \<sigma> = Some (r, \<sigma>') \<and> sched_ok \<sigma>' \<and> quiet \<sigma> \<sigma>' \<and>
    (\<forall>t. r = Some t \<longrightarrow> load \<sigma>' < load \<sigma> \<and> picked self \<sigma>' t)"
proof (cases "rqs \<sigma> self")
  case None
  then show ?thesis using ok by (simp add: rq_dequeue_best_def)
next
  case (Some rq)
  obtain Q where Q: "rq_rep \<sigma> Q" "threads_ok \<sigma>" using ok by (auto simp: sched_ok_def)
  show ?thesis
  proof (rule dequeue_refines [OF Q(1) Some])
    assume "rq_dequeue_best self \<sigma> = Some (None, \<sigma>)"
    then show ?thesis using ok by simp
  next
    fix p t ts \<sigma>'
    let ?Q = "Q((self, cur_dom \<sigma>, p) := ts)"
    assume b: "Q (self, cur_dom \<sigma>, p) = t # ts" "\<And>p'. p < p' \<Longrightarrow> Q (self, cur_dom \<sigma>, p') = []"
      "rq_dequeue_best self \<sigma> = Some (Some t, \<sigma>')" "rq_rep \<sigma>' ?Q"
    note f = dequeue_frame [OF b(3)]
    have at: "queued_at \<sigma> t (self, cur_dom \<sigma>, p)" using repD(4) [OF Q(1)] b(1) by (metis list.set_intros(1))
    then obtain k where k: "tcbs \<sigma> t = Some k" "rq_queued k" "queue_key k = (self, cur_dom \<sigma>, p)" by (auto simp: queued_at_def)
    have t': "tcbs \<sigma>' t = Some (tcb_core k)" using dequeue_result [OF b(3)] k by auto
    have dom': "cur_dom \<sigma>' = cur_dom \<sigma>" using frame_same(2) [OF f] by (simp add: cur_dom_def)
    have "p' \<le> p" if "queued_at \<sigma>' x (self, cur_dom \<sigma>, p')" for x p'
    proof (rule ccontr)
      assume "\<not> p' \<le> p"
      then have "?Q (self, cur_dom \<sigma>, p') = []" using b(2) by simp
      then show False using repD(4) [OF b(4), of x "(self, cur_dom \<sigma>, p')"] that by simp
    qed
    then have pick: "picked self \<sigma>' t"
      using t' k(3) dom' unfolding picked_def by (auto simp: tcb_core_def queue_key_def rq_dom_of_def)
    have "queued_set \<sigma>' \<subseteq> queued_set \<sigma> - {t}"
      using frame_queued(1) [OF f] frame_core(2) [OF f] t' by (fastforce simp: queued_setE tcb_core_def)
    moreover have "t \<in> queued_set \<sigma>" using k by (auto simp: queued_setE)
    ultimately have "card (queued_set \<sigma>') < card (queued_set \<sigma>)" using ok_finite [OF ok] by (intro psubset_card_mono) auto
    then have "load \<sigma>' < load \<sigma>" using frame_queued(2) [OF f] by (simp add: load_def)
    moreover have "sched_ok \<sigma>'" using b(4) frame_threads [OF f Q(2)] by (auto simp: sched_ok_def)
    ultimately show ?thesis using b(3) pick frame_same [OF f] frame_core(1) [OF f] by (simp add: quiet_def)
  qed
qed

lemma idle_ok:
  assumes ok: "sched_ok \<sigma>"
  shows "\<exists>r \<sigma>'. sched_handle_idle timekeeper self \<sigma> = Some (r, \<sigma>') \<and> sched_ok \<sigma>' \<and> quiet \<sigma> \<sigma>' \<and>
    (\<forall>t. r = Some t \<longrightarrow> load \<sigma>' < load \<sigma> \<and> picked self \<sigma>' t)"
proof -
  obtain n where n: "nearest_deadline (sched_thread_list \<sigma>) (- 1) \<sigma> = Some n" using nearest_total [OF ok] by blast
  define \<sigma>1 where "\<sigma>1 = (if n \<noteq> - 1 \<and> timekeeper \<and> n > scheduler_ticks \<sigma> then \<sigma>\<lparr>scheduler_ticks := n\<rparr> else \<sigma>)"
  have s1: "sched_ok \<sigma>1" "quiet \<sigma> \<sigma>1" using ok by (auto simp: \<sigma>1_def quiet_def load_def parked_def queued_set_def queued_at_def)
  obtain \<sigma>2 where s2: "idle_wake (sched_thread_list \<sigma>1) \<sigma>1 = Some \<sigma>2" "sched_ok \<sigma>2" "quiet \<sigma>1 \<sigma>2" using idle_wake_ok [OF s1(1)] by blast
  obtain r \<sigma>' where d: "rq_dequeue_best self \<sigma>2 = Some (r, \<sigma>')" "sched_ok \<sigma>'" "quiet \<sigma>2 \<sigma>'"
    "\<forall>t. r = Some t \<longrightarrow> load \<sigma>' < load \<sigma>2 \<and> picked self \<sigma>' t" using dequeue_ok [OF s2(2), of self] by blast
  have "sched_handle_idle timekeeper self \<sigma> = Some (r, \<sigma>')"
    using n s2(1) d(1) by (simp add: sched_handle_idle_def Let_def flip: \<sigma>1_def)
  moreover have q: "quiet \<sigma> \<sigma>2" by (rule quiet_trans [OF s1(2) s2(3)])
  ultimately show ?thesis using d quiet_trans [OF q d(3)] by (force simp: quiet_def)
qed

lemma pick_loop_ok:
  assumes "sched_ok \<sigma>"
  shows "\<exists>r \<sigma>'. pick_loop timekeeper self \<sigma> = Some (r, \<sigma>') \<and> sched_ok \<sigma>' \<and> quiet \<sigma> \<sigma>' \<and>
    (\<forall>t. r = Some t \<longrightarrow> picked self \<sigma>' t \<and> (\<forall>k. tcbs \<sigma>' t = Some k \<longrightarrow> state k \<noteq> TASK_SUSPENDED))"
  using assms
proof (induction "load \<sigma>" arbitrary: \<sigma> rule: less_induct)
  case less
  obtain r0 \<sigma>0 where d: "rq_dequeue_best self \<sigma> = Some (r0, \<sigma>0)" "sched_ok \<sigma>0" "quiet \<sigma> \<sigma>0"
    "\<forall>t. r0 = Some t \<longrightarrow> load \<sigma>0 < load \<sigma> \<and> picked self \<sigma>0 t" using dequeue_ok [OF less.prems, of self] by blast
  obtain r \<sigma>' where s: "(if r0 = None then sched_handle_idle timekeeper self \<sigma>0 else Some (r0, \<sigma>0)) = Some (r, \<sigma>')"
    "sched_ok \<sigma>'" "quiet \<sigma> \<sigma>'" "\<forall>t. r = Some t \<longrightarrow> load \<sigma>' < load \<sigma> \<and> picked self \<sigma>' t"
  proof (cases r0)
    case None
    obtain r \<sigma>' where "sched_handle_idle timekeeper self \<sigma>0 = Some (r, \<sigma>')" "sched_ok \<sigma>'" "quiet \<sigma>0 \<sigma>'"
      "\<forall>t. r = Some t \<longrightarrow> load \<sigma>' < load \<sigma>0 \<and> picked self \<sigma>' t" using idle_ok [OF d(2)] by blast
    then show ?thesis using that None d(3) quiet_trans [OF d(3)] by (force simp: quiet_def)
  qed (use that d in simp)
  have unfold: "pick_loop timekeeper self \<sigma> = (if r = None then Some (r, \<sigma>') else do {
      t \<leftarrow> r; k \<leftarrow> tcbs \<sigma>' t; if state k \<noteq> TASK_SUSPENDED then Some (r, \<sigma>') else pick_loop timekeeper self \<sigma>' })"
    by (subst pick_loop.simps) (simp only: d(1) Option.bind.simps fst_conv snd_conv s(1))
  show ?case
  proof (cases r)
    case None
    then show ?thesis using s by (simp add: unfold)
  next
    case (Some t)
    then obtain k where k: "tcbs \<sigma>' t = Some k" using s(4) by (auto simp: picked_def)
    have eq: "pick_loop timekeeper self \<sigma> = (if state k \<noteq> TASK_SUSPENDED then Some (r, \<sigma>') else pick_loop timekeeper self \<sigma>')"
      using k Some by (simp add: unfold)
    show ?thesis
    proof (cases "state k = TASK_SUSPENDED")
      case True
      then show ?thesis using eq less.hyps [OF _ s(2)] s Some quiet_trans [OF s(3)] by simp blast
    qed (use eq s k Some in simp)
  qed
qed

subsection \<open>The outgoing thread\<close>

text \<open>What the dispatcher needs of the delivery of a timeout fault: it keeps the scheduler's invariant and the thread.\<close>

definition fault_delivery_ok :: "(tid \<Rightarrow> 'z sched_scheme \<Rightarrow> bool \<times> 'z sched_scheme) \<Rightarrow> bool" where
  "fault_delivery_ok deliver \<longleftrightarrow> (\<forall>t \<sigma>. sched_ok \<sigma> \<longrightarrow> tcbs \<sigma> t \<noteq> None \<longrightarrow>
     sched_ok (snd (deliver t \<sigma>)) \<and> tcbs (snd (deliver t \<sigma>)) t \<noteq> None)"

lemma queue_fields [simp]:
  "queue_key (k\<lparr>state := s\<rparr>) = queue_key k" "queue_key (k\<lparr>wake_tick := w\<rparr>) = queue_key k"
  "queue_key (k\<lparr>need_resched := b\<rparr>) = queue_key k" "queue_key (k\<lparr>ticks_left := n\<rparr>) = queue_key k"
  "queue_key (k\<lparr>timeout_pending := b\<rparr>) = queue_key k"
  by (simp_all add: queue_key_def rq_dom_of_def)

lemma timeout_ok:
  assumes ok: "sched_ok \<sigma>" and d: "fault_delivery_ok deliver" and k: "tcbs \<sigma> t = Some k"
  shows "\<exists>\<sigma>'. timeout_outgoing deliver t \<sigma> = Some \<sigma>' \<and> sched_ok \<sigma>' \<and> tcbs \<sigma>' t \<noteq> None"
proof (cases "timeout_pending k")
  case False
  then show ?thesis using ok k by (simp add: timeout_outgoing_def)
next
  case True
  let ?s = "put_tcb t (k\<lparr>timeout_pending := False\<rparr>) \<sigma>"
  obtain b \<sigma>1 where r: "deliver t ?s = (b, \<sigma>1)" by fastforce
  have "sched_ok ?s" by (rule put_ok [OF ok k]) simp_all
  moreover have "tcbs ?s t \<noteq> None" by simp
  ultimately have s1: "sched_ok \<sigma>1" "tcbs \<sigma>1 t \<noteq> None" using d r unfolding fault_delivery_ok_def by (metis snd_conv)+
  then obtain k1 where k1: "tcbs \<sigma>1 t = Some k1" by auto
  have put: "sched_ok (put_tcb t k' \<sigma>1)" if "rq_queued k' = rq_queued k1" "rq_next k' = rq_next k1" "queue_key k' = queue_key k1"
    "sched_ctx_of k' = sched_ctx_of k1" for k' by (rule put_ok [OF s1(1) k1 that])
  show ?thesis
  proof (cases "sched_ctx_of k1")
    case None
    then show ?thesis using True k r k1 s1 put by (simp add: timeout_outgoing_def)
  next
    case (Some c)
    obtain sc where "sctxs \<sigma>1 c = Some sc" using ctx_ok [OF s1(1) k1 Some] by blast
    then show ?thesis using True k r k1 Some put by (simp add: timeout_outgoing_def)
  qed
qed

lemma outgoing_ok:
  assumes ok: "sched_ok \<sigma>" and d: "fault_delivery_ok deliver" and out: "\<forall>t. out = Some t \<longrightarrow> tcbs \<sigma> t \<noteq> None"
  shows "\<exists>\<sigma>'. release_outgoing deliver out \<sigma> = Some \<sigma>' \<and> sched_ok \<sigma>'"
proof (cases out)
  case None
  then show ?thesis using ok by (simp add: release_outgoing_def)
next
  case (Some t)
  then obtain k0 where "tcbs \<sigma> t = Some k0" using out by auto
  then obtain \<sigma>1 k where s1: "timeout_outgoing deliver t \<sigma> = Some \<sigma>1" "sched_ok \<sigma>1" "tcbs \<sigma>1 t = Some k"
    using timeout_ok [OF ok d] by fastforce
  define charged where "charged = (case sched_ctx_of k of
                   None \<Rightarrow> Some \<sigma>1
                 | Some c \<Rightarrow> do {
                     sc \<leftarrow> sctxs \<sigma>1 c;
                     sc1 \<leftarrow> kschedctx_flush_run (Some sc);
                     s1 \<leftarrow> sc1;
                     Some (put_sc c s1 \<sigma>1)
                   })"
  obtain \<sigma>2 where s2: "charged = Some \<sigma>2" "sched_ok \<sigma>2" "tcbs \<sigma>2 t = Some k"
  proof (cases "sched_ctx_of k")
    case None
    then show ?thesis using that s1 by (simp add: charged_def)
  next
    case c: (Some c)
    obtain sc where sc: "sctxs \<sigma>1 c = Some sc" "refill_max sc \<noteq> 0" using ctx_ok [OF s1(2,3) c] by blast
    obtain s' where f: "kschedctx_flush_run (Some sc) = Some (Some s')" "refill_max s' \<noteq> 0" using flush_total [OF sc(2)] by blast
    then show ?thesis using that [of "put_sc c s' \<sigma>1"] c sc put_sc_ok [OF s1(2) f(2)] s1(3)
      by (simp add: charged_def put_sc_def del: kschedctx_flush_run.simps)
  qed
  let ?s = "put_tcb t (k\<lparr>state := TASK_READY\<rparr>) \<sigma>2"
  have s3: "sched_ok ?s" by (rule put_ok [OF s2(2,3)]) simp_all
  obtain \<sigma>' where "rq_enqueue t ?s = Some \<sigma>'" "sched_ok \<sigma>'" using enqueue_ok [OF s3, of t] by auto
  then show ?thesis using Some s1 s2 s3 by (simp add: release_outgoing_def Let_def flip: charged_def)
qed

lemma picked_put:
  assumes "picked self \<sigma> t" "tcbs \<sigma> t = Some k" "rq_queued k' = rq_queued k" "queue_key k' = queue_key k"
  shows "picked self (put_tcb t k' (\<sigma>\<lparr>current_task := f\<rparr>)) t"
proof -
  have "queued_at (put_tcb t k' (\<sigma>\<lparr>current_task := f\<rparr>)) x q = queued_at \<sigma> x q" for x q
    using assms(2-4) by (auto simp: queued_at_def)
  moreover have "cur_dom (put_tcb t k' (\<sigma>\<lparr>current_task := f\<rparr>)) = cur_dom \<sigma>" by (simp add: cur_dom_def put_tcb_def)
  ultimately show ?thesis using assms unfolding picked_def by (auto simp: queue_key_def)
qed

lemma dispatch_ok:
  assumes "sched_ok \<sigma>" "fault_delivery_ok deliver" "\<forall>t. out = Some t \<longrightarrow> tcbs \<sigma> t \<noteq> None"
  shows "\<exists>r \<sigma>'. sched_pick_for_dispatch deliver timekeeper self out \<sigma> = Some (r, \<sigma>') \<and> sched_ok \<sigma>' \<and>
    (\<forall>t. r = Some t \<longrightarrow> current_task \<sigma>' self = Some t \<and> picked self \<sigma>' t \<and>
       (\<exists>k. tcbs \<sigma>' t = Some k \<and> state k = TASK_RUNNING \<and> ticks_left k = time_slice k \<and> \<not> need_resched k))"
proof -
  obtain \<sigma>1 where s1: "release_outgoing deliver out \<sigma> = Some \<sigma>1" "sched_ok \<sigma>1" using outgoing_ok [OF assms] by blast
  obtain r \<sigma>2 where s2: "pick_loop timekeeper self \<sigma>1 = Some (r, \<sigma>2)" "sched_ok \<sigma>2" "\<forall>t. r = Some t \<longrightarrow> picked self \<sigma>2 t"
    using pick_loop_ok [OF s1(2), of timekeeper self] by blast
  show ?thesis
  proof (cases r)
    case None
    then show ?thesis using s1 s2 by (simp add: sched_pick_for_dispatch_def)
  next
    case (Some t)
    then obtain k where k: "tcbs \<sigma>2 t = Some k" using s2(3) by (auto simp: picked_def)
    let ?c = "\<sigma>2\<lparr>current_task := (current_task \<sigma>2)(self := r)\<rparr>"
    let ?k = "k\<lparr>state := TASK_RUNNING, ticks_left := time_slice k, need_resched := False\<rparr>"
    have "sched_ok ?c" using s2(2) k Some by (auto simp: sched_ok_def threads_ok_def)
    then have "sched_ok (put_tcb t ?k ?c)" by (rule put_ok [where k = k]) (use k in simp_all)
    moreover have "picked self (put_tcb t ?k ?c) t" by (rule picked_put [where k = k]) (use k s2(3) Some in simp_all)
    ultimately show ?thesis using s1 s2(1) k Some by (simp add: sched_pick_for_dispatch_def) (simp add: put_tcb_def)
  qed
qed

subsection \<open>The tick and the queue changes\<close>

lemma domain_tick_default [simp]: "sched_domain_tick dom_schedule \<sigma> = (False, \<sigma>)"
  by (simp add: sched_domain_tick_def dom_schedule_def)

lemma wakeup_frame:
  assumes "task_wakeup (Some t) \<sigma> = Some \<sigma>'"
  shows "sched_thread_list \<sigma>' = sched_thread_list \<sigma> \<and> current_task \<sigma>' = current_task \<sigma> \<and> sctxs \<sigma>' = sctxs \<sigma> \<and>
    (\<forall>x. x \<noteq> t \<longrightarrow> map_option tcb_core (tcbs \<sigma>' x) = map_option tcb_core (tcbs \<sigma> x))"
proof -
  obtain k where k: "tcbs \<sigma> t = Some k" using assms by (auto simp: task_wakeup_def elim!: bindE)
  let ?s = "put_tcb t (k\<lparr>state := TASK_READY\<rparr>) \<sigma>"
  have "\<sigma>' = \<sigma> \<or> \<sigma>' = ?s \<or> rq_enqueue t ?s = Some \<sigma>'"
    using assms k by (auto simp: task_wakeup_def Let_def split: if_split_asm)
  moreover have "same_but_links t ?s \<sigma>'" if "rq_enqueue t ?s = Some \<sigma>'" by (rule enqueue_frame [OF that])
  ultimately show ?thesis by (auto simp: same_but_links_def put_tcb_def)
qed

lemma tick_wake_ok:
  "sched_ok \<sigma> \<Longrightarrow> set ts \<subseteq> set (sched_thread_list \<sigma>) \<Longrightarrow>
     \<exists>\<sigma>'. tick_wake ts \<sigma> = Some \<sigma>' \<and> sched_ok \<sigma>' \<and> current_task \<sigma>' = current_task \<sigma>"
proof (induction ts arbitrary: \<sigma>)
  case (Cons t ts)
  obtain k where k: "tcbs \<sigma> t = Some k" using list_ok [OF Cons.prems(1), of t] Cons.prems(2) by auto
  show ?case
  proof (cases "state k = TASK_BUDGET_EXHAUSTED \<and> wake_tick k \<noteq> 0 \<and> wake_tick k \<le> scheduler_ticks \<sigma>")
    case False
    then have "tick_wake (t # ts) \<sigma> = tick_wake ts \<sigma>" using k by auto
    then show ?thesis using Cons by simp
  next
    case True
    define refilled where "refilled = (case sched_ctx_of k of None \<Rightarrow> Some \<sigma> | Some c \<Rightarrow> do {
      sc \<leftarrow> sctxs \<sigma> c; Some (put_sc c (sc\<lparr>remaining_budget := budget_ticks sc\<rparr>) \<sigma>) })"
    obtain \<sigma>1 where s1: "refilled = Some \<sigma>1" "sched_ok \<sigma>1" "tcbs \<sigma>1 = tcbs \<sigma>"
      "sched_thread_list \<sigma>1 = sched_thread_list \<sigma>" "current_task \<sigma>1 = current_task \<sigma>"
    proof (cases "sched_ctx_of k")
      case (Some c)
      obtain sc where sc: "sctxs \<sigma> c = Some sc" "refill_max sc \<noteq> 0" using ctx_ok [OF Cons.prems(1) k Some] by blast
      let ?c = "sc\<lparr>remaining_budget := budget_ticks sc\<rparr>"
      have "sched_ok (put_sc c ?c \<sigma>)" by (rule put_sc_ok [OF Cons.prems(1)]) (use sc in simp)
      then show ?thesis using that [of "put_sc c ?c \<sigma>"] Some sc by (simp add: refilled_def put_sc_def)
    qed (use that Cons.prems(1) in \<open>simp add: refilled_def\<close>)
    let ?s = "put_tcb t (k\<lparr>wake_tick := 0\<rparr>) \<sigma>1"
    have "tcbs \<sigma>1 t = Some k" using s1(3) k by simp
    then have "sched_ok ?s" by (intro put_ok [OF s1(2), of t k]) simp_all
    from wakeup_ok [OF this, of t] obtain \<sigma>2 where s2: "task_wakeup (Some t) ?s = Some \<sigma>2" "sched_ok \<sigma>2" by auto
    have "sched_thread_list \<sigma>2 = sched_thread_list \<sigma>" "current_task \<sigma>2 = current_task \<sigma>"
      using wakeup_frame [OF s2(1)] s1 by (simp_all add: put_tcb_def)
    moreover have "tick_wake (t # ts) \<sigma> = tick_wake ts \<sigma>2" using k True s1(1) s2(1) by (simp flip: refilled_def)
    ultimately show ?thesis using Cons.IH [OF s2(2)] Cons.prems(2) by auto
  qed
qed simp

lemma tick_slice_ok:
  assumes "sched_ok \<sigma>" "tcbs \<sigma> t = Some k"
  shows "\<exists>\<sigma>'. tick_slice self t \<sigma> = Some \<sigma>' \<and> sched_ok \<sigma>'"
  using assms by (auto simp: tick_slice_def Let_def intro!: put_ok [OF assms])

lemma charge_max: "kschedctx_charge_tick (Some sc) now = (b, Some s1) \<Longrightarrow> refill_max s1 = refill_max sc"
  by (auto simp: Let_def split: if_split_asm)

lemma tick_local_ok:
  assumes ok: "sched_ok \<sigma>"
  shows "\<exists>\<sigma>'. sched_tick_local self \<sigma> = Some \<sigma>' \<and> sched_ok \<sigma>'"
proof (cases "current_task \<sigma> self")
  case None
  then show ?thesis using ok by (simp add: sched_tick_local_def)
next
  case (Some t)
  then obtain k where k: "tcbs \<sigma> t = Some k" using ok unfolding sched_ok_def threads_ok_def by blast
  show ?thesis
  proof (cases "sched_ctx_of k \<noteq> None \<and> state k = TASK_RUNNING")
    case False
    then have "sched_tick_local self \<sigma> = tick_slice self t \<sigma>" using Some k by (auto simp: sched_tick_local_def split: option.split)
    then show ?thesis using tick_slice_ok [OF ok k] by simp
  next
    case True
    then obtain c where c: "sched_ctx_of k = Some c" by auto
    obtain sc where sc: "sctxs \<sigma> c = Some sc" "refill_max sc \<noteq> 0" using ctx_ok [OF ok k c] by blast
    obtain b s1 where ch: "kschedctx_charge_tick (Some sc) (scheduler_ticks \<sigma>) = (b, Some s1)" by (simp add: Let_def)
    have m1: "refill_max s1 \<noteq> 0" using charge_max [OF ch] sc(2) by simp
    obtain s2 where fl: "kschedctx_flush_run (Some s1) = Some (Some s2)" "refill_max s2 \<noteq> 0" using flush_total [OF m1] by blast
    have put: "sched_ok (put_tcb t k' (put_sc c s \<sigma>))" if "refill_max s \<noteq> 0" "rq_queued k' = rq_queued k" "rq_next k' = rq_next k"
      "queue_key k' = queue_key k" "sched_ctx_of k' = sched_ctx_of k" for k' s
      by (rule put_ok [OF put_sc_ok [OF ok that(1)] _ that(2-5)]) (use k in \<open>simp add: put_sc_def\<close>)
    have put2: "put_sc c s2 (put_sc c s1 \<sigma>) = put_sc c s2 \<sigma>" by (simp add: put_sc_def)
    have "\<exists>\<sigma>'. tick_slice self t (put_sc c s1 \<sigma>) = Some \<sigma>' \<and> sched_ok \<sigma>'"
      by (rule tick_slice_ok [OF put_sc_ok [OF ok m1], where t = t and k = k]) (use k in \<open>simp add: put_sc_def\<close>)
    then show ?thesis using Some k c True sc ch fl put m1 put2
      by (simp add: sched_tick_local_def Let_def del: kschedctx_charge_tick.simps kschedctx_flush_run.simps kschedctx_has_refill.simps)
  qed
qed

lemma tick_global_ok:
  assumes "sched_ok \<sigma>"
  shows "\<exists>\<sigma>'. sched_tick_global \<sigma> = Some \<sigma>' \<and> sched_ok \<sigma>'"
proof -
  let ?s = "\<sigma>\<lparr>scheduler_ticks := scheduler_ticks \<sigma> + 1, wall_ticks := wall_ticks \<sigma> + 1\<rparr>"
  have "sched_ok ?s" using assms by simp
  from tick_wake_ok [OF this order.refl] show ?thesis by (auto simp: sched_tick_global_def Let_def)
qed

lemma unlink_frame:
  assumes "rq_unlink_locked c t \<sigma> = Some \<sigma>'"
  shows "same_but_links t \<sigma> \<sigma>'"
  using assms
  by (auto simp: rq_unlink_locked_def same_but_links_def tcb_core_def rq_live_dec_def Let_def put_tcb_def put_rq_def
      split: Option.bind_split_asm if_split_asm option.split_asm prod.split_asm)

lemma link_frame:
  assumes "rq_link_locked (home_cpu k) t \<sigma> = Some \<sigma>'" "tcbs \<sigma> t = Some k"
  shows "same_but_links t \<sigma> \<sigma>'"
proof (rule enqueue_frame)
  have "rqs \<sigma> (home_cpu k) \<noteq> None" using assms(1) by (cases "rqs \<sigma> (home_cpu k)") (simp_all add: rq_link_locked_def)
  then show "rq_enqueue t \<sigma> = Some \<sigma>'" using assms by (auto simp: rq_enqueue_def)
qed

lemma put_threads: "threads_ok \<sigma> \<Longrightarrow> tcbs \<sigma> t = Some k \<Longrightarrow> sched_ctx_of k' = sched_ctx_of k \<Longrightarrow> threads_ok (put_tcb t k' \<sigma>)"
  by (auto simp: threads_ok_def put_tcb_def split: if_splits)

lemma requeue_ok:
  assumes ok: "sched_ok \<sigma>" and k: "tcbs \<sigma> t = Some k"
    and f: "\<And>k. home_cpu (f k) = home_cpu k \<and> rq_queued (f k) = rq_queued k \<and> rq_next (f k) = rq_next k \<and> sched_ctx_of (f k) = sched_ctx_of k"
    and g: "queue_key (f (k\<lparr>rq_queued := False, rq_next := None\<rparr>)) = queue_key (f k)"
  shows "\<exists>\<sigma>'. requeue t f \<sigma> = Some \<sigma>' \<and> sched_ok \<sigma>'"
proof -
  obtain Q where q: "rq_rep \<sigma> Q" "threads_ok \<sigma>" using ok by (auto simp: sched_ok_def)
  show ?thesis
  proof (cases "rqs \<sigma> (home_cpu k) = None")
    case True
    have "\<not> rq_queued k"
      using repD(4) [OF q(1), of t "queue_key k"] repD(2) [OF q(1) True] k by (auto simp: queued_at_def queue_key_def)
    then have "rq_rep (put_tcb t (f k) \<sigma>) Q" using put_unqueued_rep [OF q(1) k] f by simp
    then show ?thesis using True k put_threads [OF q(2) k, of "f k"] f by (auto simp: requeue_def sched_ok_def)
  next
    case False
    obtain \<sigma>' Q' where r: "requeue t f \<sigma> = Some \<sigma>'" "rq_rep \<sigma>' Q'" using requeue_refines [OF q(1) k False _ g] f by blast
    have "threads_ok \<sigma>'"
    proof (cases "rq_queued k")
      case False
      then show ?thesis using r(1) k put_threads [OF q(2) k, of "f k"] f by (auto simp: requeue_def split: if_splits)
    next
      case True
      then obtain \<sigma>1 k1 where u: "rq_unlink_locked (home_cpu k) t \<sigma> = Some \<sigma>1" "tcbs \<sigma>1 t = Some k1"
        "rq_link_locked (home_cpu k) t (put_tcb t (f k1) \<sigma>1) = Some \<sigma>'"
        using r(1) k False by (auto simp: requeue_def elim!: bindE)
      obtain k0 where "tcbs \<sigma> t = Some k0" "tcb_core k0 = tcb_core k1" using frame_core(2) [OF unlink_frame [OF u(1)] u(2)] by blast
      then have h: "home_cpu (f k1) = home_cpu k" using core_fields [of k0 k1] k f by simp
      have "threads_ok (put_tcb t (f k1) \<sigma>1)"
        using put_threads [OF frame_threads [OF unlink_frame [OF u(1)] q(2)] u(2)] f by simp
      then show ?thesis using frame_threads link_frame [of "f k1" t "put_tcb t (f k1) \<sigma>1" \<sigma>'] u(3) h by auto
    qed
    then show ?thesis using r by (auto simp: sched_ok_def)
  qed
qed

lemma set_priority_ok: "sched_ok \<sigma> \<Longrightarrow> tcbs \<sigma> t = Some k \<Longrightarrow> \<exists>\<sigma>'. sched_set_priority (Some t) p \<sigma> = Some \<sigma>' \<and> sched_ok \<sigma>'"
  using requeue_ok [of \<sigma> t k "\<lambda>k. k\<lparr>priority := p\<rparr>"] by (auto simp: sched_set_priority_def queue_key_def rq_dom_of_def)

lemma set_domain_ok: "sched_ok \<sigma> \<Longrightarrow> tcbs \<sigma> t = Some k \<Longrightarrow> \<exists>\<sigma>'. sched_set_domain (Some t) d \<sigma> = Some \<sigma>' \<and> sched_ok \<sigma>'"
  using requeue_ok [of \<sigma> t k "\<lambda>k. k\<lparr>domain := d\<rparr>"] by (auto simp: sched_set_domain_def queue_key_def rq_dom_of_def)

subsection \<open>Properties\<close>

lemma sample_ok: "sched_ok sample_sched"
proof -
  have "sched_ctx_of k = None" if "tcbs sample_sched t = Some k" for t k
    using that by (auto simp: sample_sched_def sample_tcb_def split: if_splits)
  moreover have "\<forall>t \<in> set (sched_thread_list sample_sched). tcbs sample_sched t \<noteq> None" "current_task sample_sched c = None" for c
    by (simp_all add: sample_sched_def)
  ultimately show ?thesis using sample_rep by (auto simp: sched_ok_def threads_ok_def)
qed



text \<open>
  C29.  The scheduler keeps its invariant.  A tick on the processor that owns the timer or on another,
  a wakeup, and a change of priority or domain of an existing thread all return, and leave queues
  that stand for lists, threads that exist, and contexts with room for a replenishment.
\<close>

theorem scheduler_invariant:
  assumes "sched_ok \<sigma>" "tcbs \<sigma> t \<noteq> None"
  shows "(\<exists>\<sigma>'. scheduler_tick self \<sigma> = Some \<sigma>' \<and> sched_ok \<sigma>') \<and>
    (\<exists>\<sigma>'. scheduler_tick_remote self \<sigma> = Some \<sigma>' \<and> sched_ok \<sigma>') \<and>
    (\<exists>\<sigma>'. task_wakeup (Some t) \<sigma> = Some \<sigma>' \<and> sched_ok \<sigma>') \<and>
    (\<exists>\<sigma>'. sched_set_priority (Some t) p \<sigma> = Some \<sigma>' \<and> sched_ok \<sigma>') \<and>
    (\<exists>\<sigma>'. sched_set_domain (Some t) d \<sigma> = Some \<sigma>' \<and> sched_ok \<sigma>')"
proof -
  obtain k where k: "tcbs \<sigma> t = Some k" using assms(2) by auto
  obtain \<sigma>1 where "sched_tick_global \<sigma> = Some \<sigma>1" "sched_ok \<sigma>1" using tick_global_ok [OF assms(1)] by blast
  then have "\<exists>\<sigma>'. scheduler_tick self \<sigma> = Some \<sigma>' \<and> sched_ok \<sigma>'" using tick_local_ok [of \<sigma>1 self] by (simp add: scheduler_tick_def)
  then show ?thesis
    using tick_local_ok [OF assms(1), of self] wakeup_ok [OF assms(1) k] set_priority_ok [OF assms(1) k, of p]
      set_domain_ok [OF assms(1) k, of d] unfolding scheduler_tick_remote_def by blast
qed

theorem scheduler_invariant_witness: "\<exists>\<sigma>'. scheduler_tick 0 sample_sched = Some \<sigma>' \<and> sched_ok \<sigma>'"
  using scheduler_invariant [OF sample_ok, of 1 0] by (simp add: sample_sched_def)

subsection \<open>Two limits of the accounting\<close>

lemma tick_wake_leaves:
  "tick_wake ts \<sigma> = Some \<sigma>' \<Longrightarrow> tcbs \<sigma> t = Some k \<Longrightarrow> wake_tick k = 0 \<Longrightarrow>
     map_option tcb_core (tcbs \<sigma>' t) = Some (tcb_core k) \<and> current_task \<sigma>' = current_task \<sigma>"
proof (induction ts arbitrary: \<sigma> k)
  case (Cons u ts)
  from Cons.prems(1) obtain ku where ku: "tcbs \<sigma> u = Some ku" by (auto elim: bindE)
  show ?case
  proof (cases "state ku = TASK_BUDGET_EXHAUSTED \<and> wake_tick ku \<noteq> 0 \<and> wake_tick ku \<le> scheduler_ticks \<sigma>")
    case False
    then have "tick_wake ts \<sigma> = Some \<sigma>'" using Cons.prems(1) ku by auto
    then show ?thesis using Cons by blast
  next
    case True
    then have u: "u \<noteq> t" using ku Cons.prems by auto
    from Cons.prems(1) ku True obtain \<sigma>1 \<sigma>2 where s: "tick_wake ts \<sigma>2 = Some \<sigma>'"
      "task_wakeup (Some u) (put_tcb u (ku\<lparr>wake_tick := 0\<rparr>) \<sigma>1) = Some \<sigma>2" "tcbs \<sigma>1 = tcbs \<sigma>" "current_task \<sigma>1 = current_task \<sigma>"
      by (fastforce simp: put_sc_def split: option.split_asm elim!: bindE)
    then have "map_option tcb_core (tcbs \<sigma>2 t) = Some (tcb_core k)" "current_task \<sigma>2 = current_task \<sigma>"
      using wakeup_frame [OF s(2)] u Cons.prems(2) by (auto simp: put_tcb_def)
    then obtain k2 where k2: "tcbs \<sigma>2 t = Some k2" "tcb_core k2 = tcb_core k" by (auto simp: map_option_eq_Some)
    then show ?thesis using Cons.IH [OF s(1) k2(1)] core_fields [OF k2(2)] Cons.prems(3) \<open>current_task \<sigma>2 = current_task \<sigma>\<close> by simp
  qed
qed simp

text \<open>
  A thread parked without a wake tick, as \<^const>\<open>sched_tick_local\<close> parks it, stays parked through
  every tick and through every dispatch that finds a queued thread to run, whatever
  replenishments have come due: only a processor with nothing to run looks at them.
\<close>

lemma parked_not_woken:
  assumes "tcbs \<sigma> t = Some k" "state k = TASK_BUDGET_EXHAUSTED" "wake_tick k = 0"
  shows "sched_tick_global \<sigma> = Some \<sigma>' \<Longrightarrow> map_option tcb_core (tcbs \<sigma>' t) = Some (tcb_core k)"
    and "rq_dequeue_best self \<sigma> = Some (Some u, \<sigma>') \<Longrightarrow> tcbs \<sigma>' u = Some ku \<Longrightarrow> state ku \<noteq> TASK_SUSPENDED \<Longrightarrow>
      pick_loop timekeeper self \<sigma> = Some (Some u, \<sigma>') \<and> map_option tcb_core (tcbs \<sigma>' t) = Some (tcb_core k)"
proof -
  show "map_option tcb_core (tcbs \<sigma>' t) = Some (tcb_core k)" if "sched_tick_global \<sigma> = Some \<sigma>'"
    using that tick_wake_leaves [of _ _ \<sigma>' t k] assms by (simp add: sched_tick_global_def Let_def)
  show "pick_loop timekeeper self \<sigma> = Some (Some u, \<sigma>') \<and> map_option tcb_core (tcbs \<sigma>' t) = Some (tcb_core k)"
    if "rq_dequeue_best self \<sigma> = Some (Some u, \<sigma>')" "tcbs \<sigma>' u = Some ku" "state ku \<noteq> TASK_SUSPENDED"
  proof
    show "pick_loop timekeeper self \<sigma> = Some (Some u, \<sigma>')" using that by (subst pick_loop.simps) simp
    show "map_option tcb_core (tcbs \<sigma>' t) = Some (tcb_core k)"
      using dequeue_frame [OF that(1)] assms(1) by (simp add: same_but_links_def)
  qed
qed

text \<open>
  A thread whose timeout fault could not be delivered gets its whole budget back at its wake tick
  with its replenishments still pending: two ticks of budget become four.
\<close>

lemma timeout_refill_breaks_budget:
  "sc_parts sample_flushed = 2"
  "map_option (\<lambda>\<sigma>. map_option sc_parts (sctxs \<sigma> 0)) (sched_tick_global parked_sched) = Some (Some 4)"
  by code_simp+

end
