(* ===== verification/Iris_Asid.thy ===== *)
theory Iris_Asid
  imports Iris_Lifecycle
begin

text \<open>
  Address-space identifier pools: \<^verbatim>\<open>kernel/new_core/src/kasidpool.c\<close>.  A pool owns a range of the
  processor's identifiers and a bitmap of those it has handed out.  The state adds to the kernel's
  the pools by object, the next identifier no pool owns, and the gauge of live pools.  None is a
  read past the bitmap.  The lemmas show that a bitmap stands for the set of identifiers in use and
  that no two pools own the same identifier.
\<close>

definition KASID_FIRST :: u32 where "KASID_FIRST = 2"
definition KASID_LAST :: u32 where "KASID_LAST = 4094"
definition KASID_POOL_SIZE :: u32 where "KASID_POOL_SIZE = 128"
definition KASID_POOL_WORDS :: nat where "KASID_POOL_WORDS = 2"

record kasidpool =
  first_id :: u16
  id_count :: u16
  used_ids :: "u64 list"

record ast = kst +
  asid_pools :: "oid \<Rightarrow> kasidpool option"
  kasid_next :: u32
  kasidpool_live :: u32

definition kasidpool_live_count :: "'z ast_scheme \<Rightarrow> u32" where
  "kasidpool_live_count \<sigma> = kasidpool_live \<sigma>"

definition carve_ids :: "u32 \<Rightarrow> (iris_status + u16 \<times> u16) \<times> u32" where
  "carve_ids next =
     (let next1 = next + KASID_POOL_SIZE in
      if next + KASID_POOL_SIZE - 1 > KASID_LAST then (Inl IRIS_ERR_NO_MEMORY, next1 - KASID_POOL_SIZE)
      else (Inr (ucast next, ucast KASID_POOL_SIZE), next1))"

definition kasidpool_carve_range :: "'z ast_scheme \<Rightarrow> (iris_status + u16 \<times> u16) \<times> 'z ast_scheme" where
  "kasidpool_carve_range \<sigma> = (let (r, n) = carve_ids (kasid_next \<sigma>) in (r, \<sigma>\<lparr>kasid_next := n\<rparr>))"

text \<open>The destroy hook of the type: the gauge falls and the block goes back to its Untyped.\<close>

definition kasidpool_obj_destroy :: "oid \<Rightarrow> 'z ast_scheme \<Rightarrow> hook_effect list \<times> 'z ast_scheme" where
  "kasidpool_obj_destroy o' \<sigma> = ([EReleaseChild o'], \<sigma>\<lparr>kasidpool_live := kasidpool_live \<sigma> - 1\<rparr>)"

definition new_pool :: "u16 \<Rightarrow> u16 \<Rightarrow> kasidpool" where
  "new_pool f c = \<lparr>first_id = f, id_count = c, used_ids = replicate KASID_POOL_WORDS 0\<rparr>"

definition kasidpool_alloc_at :: "oid option \<Rightarrow> u16 \<Rightarrow> u16 \<Rightarrow> 'z ast_scheme \<Rightarrow> oid option \<times> 'z ast_scheme" where
  "kasidpool_alloc_at mem f c \<sigma> =
     (case mem of
        None \<Rightarrow> (None, \<sigma>)
      | Some p \<Rightarrow>
          if c = 0 then (None, \<sigma>)
          else (Some p, (kobject_init p KOBJ_ASID_POOL 0 (\<sigma>\<lparr>asid_pools := (asid_pools \<sigma>)(p \<mapsto> new_pool f c)\<rparr>))
                 \<lparr>kasidpool_live := kasidpool_live \<sigma> + 1\<rparr>))"

text \<open>The scan of \<^verbatim>\<open>kasidpool_take\<close>, which stops at a nonzero identifier.\<close>

function take_loop :: "nat \<Rightarrow> kasidpool \<Rightarrow> (u16 \<times> kasidpool) option" where
  "take_loop i p =
     (if i \<ge> unat (id_count p) then Some (0, p)
      else if i div 64 \<ge> length (used_ids p) then None
      else if bit (used_ids p ! (i div 64)) (i mod 64) then take_loop (i + 1) p
      else let p1 = p\<lparr>used_ids := (used_ids p)[i div 64 := used_ids p ! (i div 64) OR push_bit (i mod 64) 1]\<rparr>;
               ident = first_id p + of_nat i in
        if ident \<noteq> 0 then Some (ident, p1) else take_loop (i + 1) p1)"
  by pat_completeness auto
termination
  by (relation "measure (\<lambda>(i, p). unat (id_count p) - i)") (auto simp: Let_def)

declare take_loop.simps [simp del]

fun kasidpool_take :: "kasidpool option \<Rightarrow> (u16 \<times> kasidpool option) option" where
  "kasidpool_take None = Some (0, None)"
| "kasidpool_take (Some p) = map_option (map_prod id Some) (take_loop 0 p)"

text \<open>The comparison with the end of the range is made in C's \<^verbatim>\<open>int\<close>, which holds the sum.\<close>

fun kasidpool_put :: "kasidpool option \<Rightarrow> u16 \<Rightarrow> kasidpool option option" where
  "kasidpool_put None ident = Some None"
| "kasidpool_put (Some p) ident =
     (if ident = 0 then Some (Some p)
      else if ident < first_id p \<or> unat ident \<ge> unat (first_id p) + unat (id_count p) then Some (Some p)
      else let i = unat (ident - first_id p) in
        if i div 64 \<ge> length (used_ids p) then None
        else Some (Some (p\<lparr>used_ids := (used_ids p)[i div 64 := used_ids p ! (i div 64) AND NOT (push_bit (i mod 64) 1)]\<rparr>)))"

text \<open>Pools made over carved ranges, and identifiers taken from and given back to any of them.\<close>

inductive asid_step :: "u32 \<times> kasidpool list \<Rightarrow> u32 \<times> kasidpool list \<Rightarrow> bool" where
  asid_full: "carve_ids n = (Inl e, n') \<Longrightarrow> asid_step (n, ps) (n', ps)"
| asid_new: "carve_ids n = (Inr (f, c), n') \<Longrightarrow> asid_step (n, ps) (n', ps @ [new_pool f c])"
| asid_take: "i < length ps \<Longrightarrow> kasidpool_take (Some (ps ! i)) = Some (ident, Some p) \<Longrightarrow> asid_step (n, ps) (n, ps[i := p])"
| asid_put: "i < length ps \<Longrightarrow> kasidpool_put (Some (ps ! i)) ident = Some (Some p) \<Longrightarrow> asid_step (n, ps) (n, ps[i := p])"

subsection \<open>The bitmap as a set\<close>

definition used_at :: "kasidpool \<Rightarrow> nat \<Rightarrow> bool" where
  "used_at p i \<longleftrightarrow> bit (used_ids p ! (i div 64)) (i mod 64)"

definition id_range :: "kasidpool \<Rightarrow> nat set" where
  "id_range p = {unat (first_id p)..<unat (first_id p) + unat (id_count p)}"

definition assigned :: "kasidpool \<Rightarrow> nat set" where
  "assigned p = {n \<in> id_range p. used_at p (n - unat (first_id p))}"

definition pool_ok :: "kasidpool \<Rightarrow> bool" where
  "pool_ok p \<longleftrightarrow> length (used_ids p) = KASID_POOL_WORDS \<and> unat (id_count p) \<le> 128 \<and> first_id p \<noteq> 0 \<and>
     unat (first_id p) + unat (id_count p) \<le> 4095"

abbreviation mark_used :: "kasidpool \<Rightarrow> nat \<Rightarrow> kasidpool" where
  "mark_used p i \<equiv> p\<lparr>used_ids := (used_ids p)[i div 64 := used_ids p ! (i div 64) OR push_bit (i mod 64) 1]\<rparr>"

abbreviation mark_free :: "kasidpool \<Rightarrow> nat \<Rightarrow> kasidpool" where
  "mark_free p i \<equiv> p\<lparr>used_ids := (used_ids p)[i div 64 := used_ids p ! (i div 64) AND NOT (push_bit (i mod 64) 1)]\<rparr>"

lemma pool_index: "pool_ok p \<Longrightarrow> i < unat (id_count p) \<Longrightarrow> i div 64 < length (used_ids p)"
  by (auto simp: pool_ok_def KASID_POOL_WORDS_def)

lemma used_at_mark:
  assumes "i div 64 < length (used_ids p)"
  shows "used_at (mark_used p i) j \<longleftrightarrow> used_at p j \<or> j = i" "used_at (mark_free p i) j \<longleftrightarrow> used_at p j \<and> j \<noteq> i"
  using assms div_mod_eq [of j i] by (auto simp: used_at_def bit_set bit_clear nth_list_update)

lemma mark_ok [simp]: "pool_ok (p\<lparr>used_ids := (used_ids p)[i := w]\<rparr>) = pool_ok p"
  by (simp add: pool_ok_def)

lemma mark_range [simp]: "id_range (p\<lparr>used_ids := ws\<rparr>) = id_range p"
  by (simp add: id_range_def)

lemma mark_back:
  assumes "\<not> used_at p i" "i div 64 < length (used_ids p)"
  shows "mark_free (mark_used p i) i = p"
proof -
  have "(used_ids p ! (i div 64) OR push_bit (i mod 64) 1) AND NOT (push_bit (i mod 64) 1) = used_ids p ! (i div 64)"
  proof (rule bit_word_eqI)
    fix n assume "n < LENGTH(64)"
    then show "bit ((used_ids p ! (i div 64) OR push_bit (i mod 64) 1) AND NOT (push_bit (i mod 64) 1)) n = bit (used_ids p ! (i div 64)) n"
      using assms(1) bit_clear [of n "used_ids p ! (i div 64) OR 2 ^ (i mod 64)" "i mod 64"] bit_set [of n "used_ids p ! (i div 64)" "i mod 64"]
      by (auto simp: used_at_def)
  qed
  then show ?thesis using assms(2) by simp
qed

lemma ident_nat:
  assumes "pool_ok p" "i < unat (id_count p)"
  shows "unat (first_id p + of_nat i) = unat (first_id p) + i" "first_id p + of_nat i \<noteq> 0"
proof -
  have "unat (first_id p) + i < 2 ^ 16" "i < 2 ^ 16" using assms by (auto simp: pool_ok_def)
  then show u: "unat (first_id p + of_nat i) = unat (first_id p) + i" by (simp add: unat_word_ariths unat_of_nat)
  have "unat (first_id p) \<noteq> 0" using assms(1) by (simp add: pool_ok_def unat_eq_0)
  then show "first_id p + of_nat i \<noteq> 0" using u by (metis add_is_0 unat_0)
qed

lemma take_loop_spec:
  assumes "pool_ok p" "\<forall>j < i. used_at p j"
  shows "(take_loop i p = Some (0, p) \<and> (\<forall>j < unat (id_count p). used_at p j)) \<or>
    (\<exists>j < unat (id_count p). take_loop i p = Some (first_id p + of_nat j, mark_used p j) \<and> \<not> used_at p j)"
  using assms
proof (induction i p rule: take_loop.induct)
  case (1 i p)
  note step = take_loop.simps [of i p]
  show ?case
  proof (cases "i < unat (id_count p)")
    case False
    then show ?thesis using 1(4) by (simp add: step)
  next
    case True
    note w = pool_index [OF 1(3) True] ident_nat [OF 1(3) True]
    show ?thesis
    proof (cases "used_at p i")
      case used: True
      then have "\<forall>j < i + 1. used_at p j" using 1(4) by (auto simp: less_Suc_eq)
      moreover have "take_loop i p = take_loop (i + 1) p" using True w used by (simp add: step used_at_def)
      ultimately show ?thesis using 1(1) 1(3) True w(1) used by (simp add: used_at_def)
    next
      case False
      then have "take_loop i p = Some (first_id p + of_nat i, mark_used p i)" using True w by (simp add: step used_at_def Let_def)
      then show ?thesis using True False by blast
    qed
  qed
qed

lemma assigned_mark:
  assumes "pool_ok p" "i < unat (id_count p)"
  shows "assigned (mark_used p i) = insert (unat (first_id p) + i) (assigned p)"
    "assigned (mark_free p i) = assigned p - {unat (first_id p) + i}"
  using used_at_mark [OF pool_index [OF assms]] assms(2) by (auto simp: assigned_def id_range_def)

lemma put_spec:
  assumes "pool_ok p"
  shows "kasidpool_put (Some p) ident = Some (Some (if unat ident \<in> id_range p then mark_free p (unat ident - unat (first_id p)) else p))"
proof (cases "unat ident \<in> id_range p")
  case False
  then show ?thesis by (auto simp: id_range_def word_less_nat_alt Let_def)
next
  case True
  then have r: "unat (first_id p) \<le> unat ident" "unat ident < unat (first_id p) + unat (id_count p)" by (auto simp: id_range_def)
  have "unat (first_id p) \<noteq> 0" using assms by (simp add: pool_ok_def unat_eq_0)
  then have "ident \<noteq> 0" using r(1) by auto
  moreover have "unat (ident - first_id p) = unat ident - unat (first_id p)" using r(1) by (simp add: unat_sub word_le_nat_alt)
  moreover have "(unat ident - unat (first_id p)) div 64 < length (used_ids p)" using r by (intro pool_index [OF assms]) simp
  ultimately show ?thesis using True r by (simp add: word_less_nat_alt Let_def)
qed

lemma take_spec:
  assumes "pool_ok p"
  obtains (full) "kasidpool_take (Some p) = Some (0, Some p)" "assigned p = id_range p"
  | (id) j where "j < unat (id_count p)" "kasidpool_take (Some p) = Some (first_id p + of_nat j, Some (mark_used p j))" "\<not> used_at p j"
proof -
  from take_loop_spec [OF assms, of 0] consider
      "take_loop 0 p = Some (0, p)" "\<forall>j < unat (id_count p). used_at p j"
    | j where "j < unat (id_count p)" "take_loop 0 p = Some (first_id p + of_nat j, mark_used p j)" "\<not> used_at p j" by blast
  then show ?thesis
  proof cases
    case 1
    then show ?thesis by (intro full) (auto simp: assigned_def id_range_def)
  next
    case 2
    then show ?thesis by (intro id [of j]) simp_all
  qed
qed

lemma carve_spec:
  assumes "carve_ids n = (r, n')" "unat n \<le> 4095"
  shows "(\<exists>e. r = Inl e) \<and> n' = n \<or>
    (\<exists>f c. r = Inr (f, c) \<and> unat f = unat n \<and> unat c = 128 \<and> unat n + 128 \<le> 4095 \<and> unat n' = unat n + 128)"
proof -
  have u: "unat (n + 128) = unat n + 128" "unat (n + 127) = unat n + 127" "unat (127 + n) = unat n + 127" using assms(2) by (simp_all add: unat_word_ariths)
  have "n + 128 - 1 = n + 127" by simp
  moreover have "unat (ucast n :: u16) = unat n" using assms(2) by (simp add: unsigned_ucast_eq unsigned_take_bit_eq take_bit_nat_eq_self)
  ultimately show ?thesis using assms(1) u
    by (auto simp: carve_ids_def KASID_POOL_SIZE_def KASID_LAST_def Let_def word_less_nat_alt split: if_splits)
qed

text \<open>Every pool lies below the next identifier to be carved, and after the pools made before it.\<close>

definition asid_inv :: "u32 \<times> kasidpool list \<Rightarrow> bool" where
  "asid_inv s = (case s of (n, ps) \<Rightarrow> unat n \<le> 4095 \<and> 2 \<le> unat n \<and>
     (\<forall>p \<in> set ps. pool_ok p \<and> id_range p \<subseteq> {2..<unat n}) \<and>
     (\<forall>i j. i < j \<longrightarrow> j < length ps \<longrightarrow> id_range (ps ! i) \<inter> id_range (ps ! j) = {}))"

lemma inv_update:
  assumes "asid_inv (n, ps)" "pool_ok p" "id_range p = id_range (ps ! i)"
  shows "asid_inv (n, ps[i := p])"
proof (cases "i < length ps")
  case True
  have "id_range (ps[i := p] ! j) = id_range (ps ! j)" if "j < length ps" for j using assms(3) that by (cases "j = i") auto
  moreover have "id_range p \<subseteq> {2..<unat n}" using assms True by (auto simp: asid_inv_def)
  ultimately show ?thesis using assms(1,2) by (auto simp: asid_inv_def dest!: set_update_subset_insert [THEN subsetD])
qed (use assms in \<open>simp add: list_update_beyond\<close>)

lemma step_asid_inv: "asid_step s s' \<Longrightarrow> asid_inv s \<Longrightarrow> asid_inv s'"
proof (induction rule: asid_step.induct)
  case (asid_full n e n' ps)
  then show ?case using carve_spec [OF asid_full(1)] by (auto simp: asid_inv_def)
next
  case (asid_new n f c n' ps)
  have n: "unat f = unat n" "unat c = 128" "unat n + 128 \<le> 4095" "unat n' = unat n + 128"
    using carve_spec [OF asid_new(1)] asid_new(2) by (auto simp: asid_inv_def)
  let ?p = "new_pool f c"
  have r: "id_range ?p = {unat n..<unat n + 128}" using n by (simp add: id_range_def new_pool_def)
  have "f \<noteq> 0" using n asid_new(2) by (auto simp: asid_inv_def)
  then have ok: "pool_ok ?p" using n by (simp add: pool_ok_def new_pool_def)
  have "id_range ((ps @ [?p]) ! i) \<inter> id_range ((ps @ [?p]) ! j) = {}" if ij: "i < j" "j < length (ps @ [?p])" for i j
  proof (cases "j < length ps")
    case True
    then show ?thesis using ij asid_new(2) by (simp add: nth_append asid_inv_def)
  next
    case False
    then have "j = length ps" "i < length ps" using ij by auto
    moreover have "id_range (ps ! i) \<subseteq> {2..<unat n}" using asid_new(2) \<open>i < length ps\<close> by (simp add: asid_inv_def)
    ultimately show ?thesis using r by (fastforce simp: nth_append)
  qed
  moreover have "id_range p \<subseteq> {2..<unat n'}" if "p \<in> set ps" for p using asid_new(2) that n by (fastforce simp: asid_inv_def)
  ultimately show ?case using asid_new(2) n r ok by (auto simp: asid_inv_def)
next
  case (asid_take i ps ident p n)
  have ok: "pool_ok (ps ! i)" using asid_take(1,3) by (simp add: asid_inv_def)
  have "pool_ok p \<and> id_range p = id_range (ps ! i)" by (rule take_spec [OF ok]) (use asid_take(2) ok in auto)
  then show ?case using inv_update [OF asid_take(3)] by blast
next
  case (asid_put i ps ident p n)
  have "pool_ok (ps ! i)" using asid_put(1,3) by (simp add: asid_inv_def)
  then have "pool_ok p \<and> id_range p = id_range (ps ! i)" using asid_put(2) put_spec [of "ps ! i" ident] by (auto split: if_splits)
  then show ?case using inv_update [OF asid_put(3)] by blast
qed

lemma reach_asid_inv: "asid_step\<^sup>*\<^sup>* s s' \<Longrightarrow> asid_inv s \<Longrightarrow> asid_inv s'"
  by (induction rule: rtranclp_induct) (auto dest: step_asid_inv)

subsection \<open>Properties\<close>

text \<open>
  C30.  Taking an identifier and giving it back are inverse.  Taking from a well-formed pool either
  answers 0, changes nothing, and every identifier of the pool is in use; or it answers an
  identifier of the pool that was free and is now in use, all others unchanged, and giving it back
  restores the pool exactly.  Giving back an identifier the pool does not own changes nothing.
\<close>

theorem asid_roundtrip:
  assumes "pool_ok p"
  shows "(\<exists>ident p'. kasidpool_take (Some p) = Some (ident, Some p') \<and>
      (ident = 0 \<and> p' = p \<and> assigned p = id_range p \<or>
       ident \<noteq> 0 \<and> unat ident \<in> id_range p - assigned p \<and> assigned p' = insert (unat ident) (assigned p) \<and>
       kasidpool_put (Some p') ident = Some (Some p))) \<and>
    (unat other \<notin> id_range p \<longrightarrow> kasidpool_put (Some p) other = Some (Some p))"
proof
  show "unat other \<notin> id_range p \<longrightarrow> kasidpool_put (Some p) other = Some (Some p)" using put_spec [OF assms, of other] by simp
  show "\<exists>ident p'. kasidpool_take (Some p) = Some (ident, Some p') \<and>
      (ident = 0 \<and> p' = p \<and> assigned p = id_range p \<or>
       ident \<noteq> 0 \<and> unat ident \<in> id_range p - assigned p \<and> assigned p' = insert (unat ident) (assigned p) \<and>
       kasidpool_put (Some p') ident = Some (Some p))"
    using assms
  proof (rule take_spec)
    fix j assume j: "j < unat (id_count p)" "kasidpool_take (Some p) = Some (first_id p + of_nat j, Some (mark_used p j))" "\<not> used_at p j"
    note u = ident_nat [OF assms j(1)]
    have "kasidpool_put (Some (mark_used p j)) (first_id p + of_nat j) = Some (Some (mark_free (mark_used p j) j))"
      using put_spec [of "mark_used p j" "first_id p + of_nat j"] assms u j(1) by (simp add: id_range_def)
    then have "kasidpool_put (Some (mark_used p j)) (first_id p + of_nat j) = Some (Some p)"
      using mark_back [OF j(3) pool_index [OF assms j(1)]] by simp
    moreover have "unat (first_id p) + j \<in> id_range p - assigned p" using j by (auto simp: id_range_def assigned_def)
    ultimately show ?thesis using j(2) u assigned_mark(1) [OF assms j(1)]
      by (intro exI [of _ "first_id p + of_nat j"] exI [of _ "mark_used p j"]) simp
  qed auto
qed

theorem asid_roundtrip_witness:
  "pool_ok (new_pool 2 128) \<and> (\<exists>ident p'. kasidpool_take (Some (new_pool 2 128)) = Some (ident, Some p') \<and>
     kasidpool_put (Some p') ident = Some (Some (new_pool 2 128)))"
proof -
  have ok: "pool_ok (new_pool 2 128)" by (simp add: pool_ok_def new_pool_def)
  have "kasidpool_put (Some (new_pool 2 128)) 0 = Some (Some (new_pool 2 128))" by simp
  then show ?thesis using asid_roundtrip [OF ok, of 0] ok by blast
qed

text \<open>
  C31.  No identifier has two owners.  However pools are created and identifiers taken and given
  back, the pools' ranges are disjoint, lie between 2 and 4094 (0 is the kernel's, 1 the root
  task's, 4095 reserved), and an identifier in use is in use in one pool only.
\<close>

theorem asid_unique:
  assumes "asid_step\<^sup>*\<^sup>* (KASID_FIRST, []) (n, ps)" "i < length ps" "j < length ps" "i \<noteq> j"
  shows "id_range (ps ! i) \<subseteq> {2..4094} \<and> id_range (ps ! i) \<inter> id_range (ps ! j) = {} \<and> assigned (ps ! i) \<inter> assigned (ps ! j) = {}"
proof -
  have "asid_inv (KASID_FIRST, [])" by (simp add: asid_inv_def KASID_FIRST_def)
  then have inv: "asid_inv (n, ps)" by (rule reach_asid_inv [OF assms(1)])
  then have "a < b \<Longrightarrow> b < length ps \<Longrightarrow> id_range (ps ! a) \<inter> id_range (ps ! b) = {}" for a b by (simp add: asid_inv_def)
  then have "id_range (ps ! i) \<inter> id_range (ps ! j) = {}" using assms(2-4) by (metis Int_commute neq_iff)
  moreover have "id_range (ps ! i) \<subseteq> {2..<unat n}" "unat n \<le> 4095" using inv assms(2) by (auto simp: asid_inv_def)
  ultimately show ?thesis by (fastforce simp: assigned_def)
qed

theorem asid_unique_witness:
  "asid_step\<^sup>*\<^sup>* (KASID_FIRST, []) (258, [new_pool 2 128, new_pool 130 128]) \<and>
     id_range (new_pool 2 128) \<inter> id_range (new_pool 130 128) = {}"
proof -
  have "asid_step (2, []) (130, [] @ [new_pool 2 128])"
    by (rule asid_new) (simp add: carve_ids_def KASID_POOL_SIZE_def KASID_LAST_def)
  moreover have "asid_step (130, [new_pool 2 128]) (258, [new_pool 2 128] @ [new_pool 130 128])"
    by (rule asid_new) (simp add: carve_ids_def KASID_POOL_SIZE_def KASID_LAST_def)
  ultimately have r: "asid_step\<^sup>*\<^sup>* (KASID_FIRST, []) (258, [new_pool 2 128, new_pool 130 128])"
    unfolding KASID_FIRST_def by (simp add: converse_rtranclp_into_rtranclp)
  from asid_unique [OF this, of 0 1] r show ?thesis by simp
qed

end
