(* ===== verification/Iris_ProgMem.thy ===== *)
theory Iris_ProgMem
  imports Iris_Rights
begin

text \<open>
  Memory of a program: \<^verbatim>\<open>services/common/prog_mem_plan.c\<close>, which decides where the next mapping
  goes, and \<^verbatim>\<open>services/common/prog_mem.c\<close>, which makes the mappings behind \<^verbatim>\<open>brk\<close>, \<^verbatim>\<open>mmap\<close>,
  \<^verbatim>\<open>munmap\<close> and \<^verbatim>\<open>mprotect\<close>.  The invocations on the program's budget and address space are a
  parameter over a state of their own, each with its success.  A list holds the first
  \<^verbatim>\<open>nmaps\<close> records.  The tests for null pointers are left out.  The lemmas show that the records of
  the heap tile it and that no two mappings overlap.
\<close>

definition PROG_MEM_MAPS :: nat where "PROG_MEM_MAPS = 32"
definition PROG_MEM_CHUNK_MIN :: u64 where "PROG_MEM_CHUNK_MIN = 65536"
definition PROG_PROT_RW :: u32 where "PROG_PROT_RW = 1"
definition IRIS_PROG_HEAP_OFF :: u64 where "IRIS_PROG_HEAP_OFF = 0x60000000"
definition IRIS_PROG_HEAP_END_OFF :: u64 where "IRIS_PROG_HEAP_END_OFF = 0x70000000"
definition IRIS_PROG_MMAP_OFF :: u64 where "IRIS_PROG_MMAP_OFF = 0x70000000"
definition IRIS_PROG_STACK_OFF :: u64 where "IRIS_PROG_STACK_OFF = 0x7FFFFF7000"

record prog_map =
  map_vaddr :: u64
  map_bytes :: u64
  map_slot :: u32
  map_prot :: u32
  map_heap :: bool

record prog_mem =
  untyped_c :: u64
  vspace_c :: u64
  slot_next :: u32
  slot_end :: u32
  pt_slot :: u32
  brk_base :: u64
  brk_cur :: u64
  brk_end :: u64
  heap_top :: u64
  mmap_cur :: u64
  mmap_end :: u64
  prog_maps :: "prog_map list"

text \<open>Retype a frame into a slot, map it, unmap it, and delete the slot.\<close>

record 'w pm_calls =
  inv_retype :: "u32 \<Rightarrow> u64 \<Rightarrow> 'w \<Rightarrow> bool \<times> 'w"
  inv_map :: "u32 \<Rightarrow> u64 \<Rightarrow> u64 \<Rightarrow> u32 \<Rightarrow> 'w \<Rightarrow> bool \<times> 'w"
  inv_unmap :: "u32 \<Rightarrow> u64 \<Rightarrow> 'w \<Rightarrow> bool \<times> 'w"
  inv_delete :: "u32 \<Rightarrow> 'w \<Rightarrow> 'w"

subsection \<open>The plan\<close>

definition prog_mem_setup :: "u64 \<Rightarrow> u64 \<Rightarrow> u64 \<Rightarrow> u32 \<Rightarrow> u32 \<Rightarrow> u32 \<Rightarrow> prog_mem" where
  "prog_mem_setup private_base untyped vspace slot_lo slot_hi pt =
     \<lparr>untyped_c = untyped, vspace_c = vspace, slot_next = slot_lo, slot_end = slot_hi, pt_slot = pt,
      brk_base = private_base + IRIS_PROG_HEAP_OFF, brk_cur = private_base + IRIS_PROG_HEAP_OFF,
      brk_end = private_base + IRIS_PROG_HEAP_END_OFF, heap_top = private_base + IRIS_PROG_HEAP_OFF,
      mmap_cur = private_base + IRIS_PROG_MMAP_OFF, mmap_end = private_base + IRIS_PROG_STACK_OFF - 4096,
      prog_maps = []\<rparr>"

definition prog_mem_pages :: "u64 \<Rightarrow> u64" where
  "prog_mem_pages bytes = (if bytes > - 1 - 4095 then 0 else (bytes + 4095) AND NOT 4095)"

definition prog_mem_reserve :: "prog_mem \<Rightarrow> u64 \<Rightarrow> bool \<Rightarrow> (u64 \<times> prog_mem) option" where
  "prog_mem_reserve m bytes heap =
     (let cur = (if heap then heap_top m else mmap_cur m);
          lim = (if heap then brk_end m else mmap_end m);
          n = prog_mem_pages bytes in
      if n = 0 then None
      else if cur > lim \<or> n > lim - cur then None
      else Some (cur, if heap then m\<lparr>heap_top := cur + n\<rparr> else m\<lparr>mmap_cur := cur + n\<rparr>))"

definition prog_mem_chunk :: "prog_mem \<Rightarrow> u64 \<Rightarrow> u64" where
  "prog_mem_chunk m need0 =
     (let need = prog_mem_pages need0 in
      if need = 0 then 0
      else let held = heap_top m - brk_base m;
               want0 = (if held > PROG_MEM_CHUNK_MIN then held else PROG_MEM_CHUNK_MIN);
               want1 = (if want0 < need then need else want0);
               want2 = (if heap_top m \<le> brk_end m \<and> want1 > brk_end m - heap_top m then brk_end m - heap_top m else want1) in
        if want2 < need then 0 else want2)"

definition prog_mem_take_slot :: "prog_mem \<Rightarrow> (u32 \<times> prog_mem) option" where
  "prog_mem_take_slot m =
     (if slot_next m > slot_end m then None else Some (slot_next m, m\<lparr>slot_next := slot_next m + 1\<rparr>))"

definition covers :: "u64 \<Rightarrow> u64 \<Rightarrow> prog_map \<Rightarrow> bool" where
  "covers vaddr bytes e \<longleftrightarrow>
     \<not> vaddr < map_vaddr e \<and> \<not> vaddr - map_vaddr e > map_bytes e \<and> \<not> bytes > map_bytes e - (vaddr - map_vaddr e)"

primrec find_index :: "('a \<Rightarrow> bool) \<Rightarrow> nat \<Rightarrow> 'a list \<Rightarrow> nat option" where
  "find_index P i [] = None"
| "find_index P i (x # xs) = (if P x then Some i else find_index P (Suc i) xs)"

definition prog_mem_find :: "prog_mem \<Rightarrow> u64 \<Rightarrow> u64 \<Rightarrow> nat option" where
  "prog_mem_find m vaddr bytes =
     (if bytes = 0 then None
      else if vaddr > - 1 - bytes then None
      else find_index (covers vaddr bytes) 0 (prog_maps m))"

definition prog_mem_record :: "prog_mem \<Rightarrow> u64 \<Rightarrow> u64 \<Rightarrow> u32 \<Rightarrow> u32 \<Rightarrow> bool \<Rightarrow> prog_mem option" where
  "prog_mem_record m vaddr bytes slot prot heap =
     (if length (prog_maps m) \<ge> PROG_MEM_MAPS then None
      else Some (m\<lparr>prog_maps := prog_maps m @
        [\<lparr>map_vaddr = vaddr, map_bytes = bytes, map_slot = slot, map_prot = prot, map_heap = heap\<rparr>]\<rparr>))"

definition prog_mem_forget :: "prog_mem \<Rightarrow> nat \<Rightarrow> prog_mem" where
  "prog_mem_forget m i =
     (if i \<ge> length (prog_maps m) then m
      else m\<lparr>prog_maps := butlast ((prog_maps m)[i := last (prog_maps m)])\<rparr>)"

subsection \<open>The mappings\<close>

definition pm_add ::
    "'w pm_calls \<Rightarrow> u64 \<Rightarrow> u64 \<Rightarrow> u32 \<Rightarrow> bool \<Rightarrow> prog_mem \<Rightarrow> 'w \<Rightarrow> bool \<times> prog_mem \<times> 'w" where
  "pm_add A vaddr bytes prot heap m w =
     (case prog_mem_take_slot m of
        None \<Rightarrow> (False, m, w)
      | Some (slot, m1) \<Rightarrow>
          (let (made, w1) = inv_retype A slot bytes w in
           if \<not> made then (False, m1, w1)
           else let (mapped, w2) = inv_map A slot vaddr bytes prot w1 in
             if \<not> mapped then (False, m1, inv_delete A slot w2)
             else (case prog_mem_record m1 vaddr bytes slot prot heap of
                     None \<Rightarrow> (False, m1, inv_delete A slot (snd (inv_unmap A slot vaddr w2)))
                   | Some m2 \<Rightarrow> (True, m2, w2))))"

definition pm_drop :: "'w pm_calls \<Rightarrow> nat \<Rightarrow> prog_mem \<Rightarrow> 'w \<Rightarrow> prog_mem \<times> 'w" where
  "pm_drop A i m w =
     (let e = prog_maps m ! i in
      (prog_mem_forget m i, inv_delete A (map_slot e) (snd (inv_unmap A (map_slot e) (map_vaddr e) w))))"

text \<open>The two loops of \<^verbatim>\<open>prog_brk\<close>.\<close>

partial_function (option) brk_grow ::
    "'w pm_calls \<Rightarrow> u64 \<Rightarrow> prog_mem \<Rightarrow> 'w \<Rightarrow> (bool \<times> prog_mem \<times> 'w) option" where
  "brk_grow A want m w =
     (if \<not> heap_top m < want then Some (True, m, w)
      else let chunk = prog_mem_chunk m (want - heap_top m) in
        if chunk = 0 then Some (False, m, w)
        else let r = prog_mem_reserve m chunk True in
          if r = None then Some (False, m, w)
          else let va = fst (the r); a = pm_add A va chunk PROG_PROT_RW True (snd (the r)) w in
            if \<not> fst a then Some (False, (fst (snd a))\<lparr>heap_top := va\<rparr>, snd (snd a))
            else brk_grow A want (fst (snd a)) (snd (snd a)))"

declare brk_grow.simps [code]

definition above :: "u64 \<Rightarrow> prog_map \<Rightarrow> bool" where
  "above want e \<longleftrightarrow> map_heap e \<and> \<not> map_vaddr e < want"

lemma find_index_bound: "find_index P i xs = Some j \<Longrightarrow> i \<le> j \<and> j < i + length xs \<and> P (xs ! (j - i))"
proof (induction xs arbitrary: i)
  case (Cons x xs)
  show ?case
  proof (cases "P x")
    case False
    then have "find_index P (Suc i) xs = Some j" using Cons.prems by simp
    then show ?thesis using Cons.IH [of "Suc i"] by (auto simp: nth_Cons' Suc_diff_le)
  qed (use Cons.prems in auto)
qed simp

function brk_shrink :: "'w pm_calls \<Rightarrow> u64 \<Rightarrow> prog_mem \<Rightarrow> 'w \<Rightarrow> prog_mem \<times> 'w" where
  "brk_shrink A want m w =
     (case find_index (above want) 0 (prog_maps m) of
        None \<Rightarrow> (m, w)
      | Some i \<Rightarrow>
          (let va = map_vaddr (prog_maps m ! i);
               (m1, w1) = pm_drop A i (if va < heap_top m then m\<lparr>heap_top := va\<rparr> else m) w in
           brk_shrink A want m1 w1))"
  by pat_completeness auto
termination
  by (relation "measure (\<lambda>(_, _, m, _). length (prog_maps m))")
    (auto simp: pm_drop_def Let_def prog_mem_forget_def dest!: find_index_bound split: if_split_asm)

declare brk_shrink.simps [simp del]

text \<open>The break moves by a signed amount; the answer is the old break or \<open>-1\<close>.\<close>

definition prog_brk :: "'w pm_calls \<Rightarrow> u64 \<Rightarrow> prog_mem \<Rightarrow> 'w \<Rightarrow> (u64 \<times> prog_mem \<times> 'w) option" where
  "prog_brk A delta m w =
     (if brk_base m = 0 then Some (- 1, m, w)
      else let old = brk_cur m in
        if sint delta > 0 then
          (let want = old + delta in
           if want < old \<or> want > brk_end m then Some (- 1, m, w)
           else do {
             (ok, m1, w1) \<leftarrow> brk_grow A want m w;
             if ok then Some (old, m1\<lparr>brk_cur := want\<rparr>, w1) else Some (- 1, m1, w1)
           })
        else if sint delta < 0 then
          (let drop = - delta in
           if drop > old - brk_base m then Some (- 1, m, w)
           else let want = old - drop; (m1, w1) = brk_shrink A want m w in Some (old, m1\<lparr>brk_cur := want\<rparr>, w1))
        else Some (old, m, w))"

definition prog_mmap :: "'w pm_calls \<Rightarrow> u64 \<Rightarrow> u32 \<Rightarrow> prog_mem \<Rightarrow> 'w \<Rightarrow> u64 \<times> prog_mem \<times> 'w" where
  "prog_mmap A bytes prot m w =
     (let n = prog_mem_pages bytes in
      if n = 0 then (0, m, w)
      else case prog_mem_reserve m n False of
             None \<Rightarrow> (0, m, w)
           | Some (va, m1) \<Rightarrow>
               (let (ok, m2, w2) = pm_add A va n prot False m1 w in
                if ok then (va, m2, w2) else (0, m2\<lparr>mmap_cur := va\<rparr>, w2)))"

definition prog_munmap :: "'w pm_calls \<Rightarrow> u64 \<Rightarrow> prog_mem \<Rightarrow> 'w \<Rightarrow> iris_status \<times> prog_mem \<times> 'w" where
  "prog_munmap A vaddr m w =
     (case prog_mem_find m vaddr 1 of
        None \<Rightarrow> (IRIS_ERR_NOT_FOUND, m, w)
      | Some i \<Rightarrow>
          if map_vaddr (prog_maps m ! i) \<noteq> vaddr then (IRIS_ERR_NOT_FOUND, m, w)
          else if map_heap (prog_maps m ! i) then (IRIS_ERR_INVALID_ARG, m, w)
          else (IRIS_OK, pm_drop A i m w))"

definition prog_mprotect :: "'w pm_calls \<Rightarrow> u64 \<Rightarrow> u64 \<Rightarrow> u32 \<Rightarrow> prog_mem \<Rightarrow> 'w \<Rightarrow> iris_status \<times> prog_mem \<times> 'w" where
  "prog_mprotect A vaddr bytes prot m w =
     (case prog_mem_find m vaddr bytes of
        None \<Rightarrow> (IRIS_ERR_NOT_FOUND, m, w)
      | Some i \<Rightarrow>
          (let e = prog_maps m ! i in
           if vaddr \<noteq> map_vaddr e \<or> bytes \<noteq> map_bytes e then (IRIS_ERR_NOT_SUPPORTED, m, w)
           else if prot = map_prot e then (IRIS_OK, m, w)
           else let (unmapped, w1) = inv_unmap A (map_slot e) (map_vaddr e) w in
             if \<not> unmapped then (IRIS_ERR_INVALID_ARG, m, w1)
             else let (mapped, w2) = inv_map A (map_slot e) (map_vaddr e) (map_bytes e) prot w1 in
               if \<not> mapped then
                 (let (back, w3) = inv_map A (map_slot e) (map_vaddr e) (map_bytes e) (map_prot e) w2 in
                  (IRIS_ERR_INVALID_ARG, if back then m else prog_mem_forget m i, w3))
               else (IRIS_OK, m\<lparr>prog_maps := (prog_maps m)[i := e\<lparr>map_prot := prot\<rparr>]\<rparr>, w2)))"

text \<open>Calls that always succeed, and a program with its private region at 512 GiB.\<close>

definition sample_calls :: "unit pm_calls" where
  "sample_calls = \<lparr>inv_retype = (\<lambda>_ _ w. (True, w)), inv_map = (\<lambda>_ _ _ _ w. (True, w)),
     inv_unmap = (\<lambda>_ _ w. (True, w)), inv_delete = (\<lambda>_ w. w)\<rparr>"

definition sample_prog :: prog_mem where
  "sample_prog = prog_mem_setup 0x8000000000 1 2 36 63 35"

subsection \<open>The invariant\<close>

definition rng :: "prog_map \<Rightarrow> nat set" where
  "rng e = {unat (map_vaddr e)..<unat (map_vaddr e) + unat (map_bytes e)}"

definition apart_maps :: "prog_map list \<Rightarrow> bool" where
  "apart_maps es \<longleftrightarrow> (\<forall>i < length es. \<forall>j < length es. i \<noteq> j \<longrightarrow> rng (es ! i) \<inter> rng (es ! j) = {})"

definition heap_cover :: "prog_map list \<Rightarrow> nat set" where
  "heap_cover es = (\<Union>e \<in> {e \<in> set es. map_heap e}. rng e)"

text \<open>
  No two mappings overlap, a mapping outside the heap lies between the heap's limit and the \<^verbatim>\<open>mmap\<close>
  cursor, and the regions are ordered and page-aligned; with it, the heap's mappings cover exactly
  the heap and the break is inside it.
\<close>

definition maps_ok :: "prog_mem \<Rightarrow> bool" where
  "maps_ok m \<longleftrightarrow> apart_maps (prog_maps m) \<and>
     (\<forall>e \<in> set (prog_maps m). map_bytes e \<noteq> 0 \<and> (map_heap e \<longrightarrow> 4096 dvd unat (map_vaddr e)) \<and>
        (\<not> map_heap e \<longrightarrow> rng e \<subseteq> {unat (brk_end m)..<unat (mmap_cur m)})) \<and>
     unat (brk_base m) \<le> unat (heap_top m) \<and> unat (heap_top m) \<le> unat (brk_end m) \<and> unat (brk_end m) \<le> unat (mmap_cur m) \<and>
     4096 dvd unat (brk_base m) \<and> 4096 dvd unat (heap_top m) \<and> 4096 dvd unat (brk_end m)"

definition heap_ok :: "prog_mem \<Rightarrow> bool" where
  "heap_ok m \<longleftrightarrow> heap_cover (prog_maps m) = {unat (brk_base m)..<unat (heap_top m)} \<and>
     unat (brk_base m) \<le> unat (brk_cur m) \<and> unat (brk_cur m) \<le> unat (heap_top m)"

lemma pages_nat:
  "unat (prog_mem_pages b) = (if unat b > 2 ^ 64 - 4096 then 0 else (unat b + 4095) div 4096 * 4096)"
proof (cases "b > - 1 - 4095")
  case True
  then show ?thesis by (simp add: prog_mem_pages_def word_less_nat_alt)
next
  case False
  then have "unat b + 4095 < 2 ^ 64" by (simp add: word_less_nat_alt)
  moreover have "prog_mem_pages b = (b + mask 12) AND NOT (mask 12)" using False by (simp add: prog_mem_pages_def mask_eq_exp_minus_1)
  ultimately show ?thesis using round_up_nat [of b 12] by simp
qed

lemma pages_dvd: "4096 dvd unat (prog_mem_pages b)"
  by (simp add: pages_nat)

lemma pages_ge: "prog_mem_pages b \<noteq> 0 \<Longrightarrow> unat b \<le> unat (prog_mem_pages b)"
proof -
  assume "prog_mem_pages b \<noteq> 0"
  then have "unat (prog_mem_pages b) \<noteq> 0" by (simp add: unat_eq_0)
  then have "unat (prog_mem_pages b) = (unat b + 4095) div 4096 * 4096" by (simp add: pages_nat split: if_splits)
  then show ?thesis by linarith
qed

lemma pages_same: "4096 dvd unat b \<Longrightarrow> prog_mem_pages b = b"
proof (rule word_unat_eq_iff [THEN iffD2])
  assume d: "4096 dvd unat b"
  then obtain q where q: "unat b = q * 4096" by (auto simp: dvd_def mult.commute)
  have "q < 2 ^ 52" using u64_bound [of b] q by simp
  then have "unat b \<le> 2 ^ 64 - 4096" using q by simp
  then show "unat (prog_mem_pages b) = unat b" using q by (simp add: pages_nat)
qed

lemma reserve_spec:
  assumes "prog_mem_reserve m b heap = Some (va, m')"
  shows "va = (if heap then heap_top m else mmap_cur m)" "prog_mem_pages b \<noteq> 0"
    "unat (va + prog_mem_pages b) = unat va + unat (prog_mem_pages b)"
    "unat va + unat (prog_mem_pages b) \<le> unat (if heap then brk_end m else mmap_end m)"
    "m' = (if heap then m\<lparr>heap_top := va + prog_mem_pages b\<rparr> else m\<lparr>mmap_cur := va + prog_mem_pages b\<rparr>)"
proof -
  let ?l = "if heap then brk_end m else mmap_end m"
  show va: "va = (if heap then heap_top m else mmap_cur m)" and p: "prog_mem_pages b \<noteq> 0"
    and "m' = (if heap then m\<lparr>heap_top := va + prog_mem_pages b\<rparr> else m\<lparr>mmap_cur := va + prog_mem_pages b\<rparr>)"
    using assms by (auto simp: prog_mem_reserve_def Let_def split: if_split_asm)
  have "\<not> va > ?l" "\<not> prog_mem_pages b > ?l - va"
    using assms va by (auto simp: prog_mem_reserve_def Let_def split: if_split_asm)
  then show le: "unat va + unat (prog_mem_pages b) \<le> unat ?l" by (auto simp: word_less_nat_alt unat_sub word_le_nat_alt not_less)
  show "unat (va + prog_mem_pages b) = unat va + unat (prog_mem_pages b)" by (rule unat_add_le [OF le])
qed

lemma chunk_spec:
  assumes "maps_ok m" "prog_mem_chunk m need \<noteq> 0"
  shows "4096 dvd unat (prog_mem_chunk m need)" "unat need \<le> unat (prog_mem_chunk m need)"
proof -
  define room where "room = brk_end m - heap_top m"
  define want where "want = (if heap_top m - brk_base m > PROG_MEM_CHUNK_MIN then heap_top m - brk_base m else PROG_MEM_CHUNK_MIN)"
  have u: "unat room = unat (brk_end m) - unat (heap_top m)" "unat (heap_top m - brk_base m) = unat (heap_top m) - unat (brk_base m)"
    using assms(1) by (auto simp: maps_ok_def room_def unat_sub word_le_nat_alt)
  then have d: "4096 dvd unat room" "4096 dvd unat want"
    using assms(1) by (auto simp: maps_ok_def want_def PROG_MEM_CHUNK_MIN_def)
  have c: "prog_mem_chunk m need \<in> {prog_mem_pages need, want, room}" "prog_mem_pages need \<le> prog_mem_chunk m need" "prog_mem_pages need \<noteq> 0"
    using assms(2) unfolding prog_mem_chunk_def Let_def want_def room_def by (auto split: if_split_asm)
  then show "4096 dvd unat (prog_mem_chunk m need)" using d pages_dvd [of need] by auto
  show "unat need \<le> unat (prog_mem_chunk m need)" using pages_ge [OF c(3)] c(2) by (simp add: word_le_nat_alt)
qed

lemma same_slot: "\<exists>s. m = m\<lparr>slot_next := s\<rparr>" for m :: prog_mem
  by (rule exI [of _ "slot_next m"]) simp

lemma add_spec:
  assumes "pm_add A va b prot heap m w = (ok, m', w')"
  shows "(\<not> ok \<and> (\<exists>s. m' = m\<lparr>slot_next := s\<rparr>)) \<or> (ok \<and> (\<exists>s slot. m' = m\<lparr>slot_next := s, prog_maps := prog_maps m @
    [\<lparr>map_vaddr = va, map_bytes = b, map_slot = slot, map_prot = prot, map_heap = heap\<rparr>]\<rparr>))"
  using assms same_slot
  by (auto simp: pm_add_def prog_mem_take_slot_def prog_mem_record_def Let_def split: option.split_asm prod.split_asm if_split_asm)

lemma apart_append:
  assumes "apart_maps es" "\<And>d. d \<in> set es \<Longrightarrow> rng d \<inter> rng e = {}"
  shows "apart_maps (es @ [e])"
proof -
  have "rng (es ! i) \<inter> rng e = {}" if "i < length es" for i using assms(2) that by simp
  then show ?thesis using assms(1) unfolding apart_maps_def by (auto simp: nth_append less_Suc_eq Int_commute)
qed

lemma heap_cover_append [simp]: "heap_cover (es @ [e]) = heap_cover es \<union> (if map_heap e then rng e else {})"
  by (auto simp: heap_cover_def)

lemma map_range:
  assumes "maps_ok m" "heap_ok m" "e \<in> set (prog_maps m)"
  shows "rng e \<subseteq> (if map_heap e then {unat (brk_base m)..<unat (heap_top m)} else {unat (brk_end m)..<unat (mmap_cur m)})"
  using assms by (auto simp: maps_ok_def heap_ok_def heap_cover_def)

lemma slot_next_ok [simp]:
  "maps_ok (m\<lparr>slot_next := s\<rparr>) = maps_ok m" "heap_ok (m\<lparr>slot_next := s\<rparr>) = heap_ok m"
  by (simp_all add: maps_ok_def heap_ok_def)

lemma grow_map_ok:
  assumes ok: "maps_ok m" "heap_ok m" and e: "map_heap e" "map_vaddr e = heap_top m" "map_bytes e = c"
    and c: "c \<noteq> 0" "4096 dvd unat c" "unat (heap_top m + c) = unat (heap_top m) + unat c" "unat (heap_top m) + unat c \<le> unat (brk_end m)"
  shows "maps_ok (m\<lparr>heap_top := heap_top m + c, slot_next := s, prog_maps := prog_maps m @ [e]\<rparr>)"
    "heap_ok (m\<lparr>heap_top := heap_top m + c, slot_next := s, prog_maps := prog_maps m @ [e]\<rparr>)"
proof -
  have r: "rng e = {unat (heap_top m)..<unat (heap_top m) + unat c}" using e by (simp add: rng_def)
  have "rng d \<inter> rng e = {}" if "d \<in> set (prog_maps m)" for d
    using map_range [OF ok that] r c(4) by (fastforce split: if_splits)
  then have "apart_maps (prog_maps m @ [e])" using ok(1) by (intro apart_append) (simp_all add: maps_ok_def)
  then show "maps_ok (m\<lparr>heap_top := heap_top m + c, slot_next := s, prog_maps := prog_maps m @ [e]\<rparr>)"
    using ok(1) e c by (auto simp: maps_ok_def)
  show "heap_ok (m\<lparr>heap_top := heap_top m + c, slot_next := s, prog_maps := prog_maps m @ [e]\<rparr>)"
    using ok e c r by (auto simp: heap_ok_def maps_ok_def)
qed

lemma grow_ok:
  assumes ok: "maps_ok m" "heap_ok m" and want: "unat want \<le> unat (brk_end m)"
  shows "\<exists>r m' w'. brk_grow A want m w = Some (r, m', w') \<and> maps_ok m' \<and> heap_ok m' \<and>
    brk_cur m' = brk_cur m \<and> brk_base m' = brk_base m \<and> brk_end m' = brk_end m \<and> (r \<longrightarrow> unat want \<le> unat (heap_top m')) \<and>
    filter (\<lambda>e. \<not> map_heap e) (prog_maps m') = filter (\<lambda>e. \<not> map_heap e) (prog_maps m)"
proof (cases "heap_top m < want")
  case False
  then have "brk_grow A want m w = Some (True, m, w)" by (subst brk_grow.simps) simp
  moreover have "unat want \<le> unat (heap_top m)" using False by (simp add: word_le_nat_alt not_less)
  ultimately show ?thesis using ok by blast
next
  case True
  let ?c = "prog_mem_chunk m (want - heap_top m)"
  show ?thesis
  proof (cases "?c = 0 \<or> prog_mem_reserve m ?c True = None")
    case none: True
    then have "brk_grow A want m w = Some (False, m, w)" using True by (subst brk_grow.simps) (auto simp: Let_def)
    then show ?thesis using ok by blast
  next
    case False
    then obtain va m1 where r: "prog_mem_reserve m ?c True = Some (va, m1)" by auto
    have ch: "?c \<noteq> 0" "4096 dvd unat ?c" "unat (want - heap_top m) \<le> unat ?c" using chunk_spec [OF ok(1)] False by auto
    have p: "prog_mem_pages ?c = ?c" by (rule pages_same [OF ch(2)])
    have rs: "va = heap_top m" "m1 = m\<lparr>heap_top := heap_top m + ?c\<rparr>"
      "unat (heap_top m + ?c) = unat (heap_top m) + unat ?c" "unat (heap_top m) + unat ?c \<le> unat (brk_end m)"
      using reserve_spec [OF r] p by auto
    obtain b m2 w2 where a: "pm_add A va ?c PROG_PROT_RW True m1 w = (b, m2, w2)" by (metis prod_cases3)
    have step: "brk_grow A want m w = (if \<not> b then Some (False, m2\<lparr>heap_top := va\<rparr>, w2) else brk_grow A want m2 w2)"
      using True False r a by (subst brk_grow.simps) (simp add: Let_def)
    show ?thesis
    proof (cases b)
      case b: False
      then obtain s where "m2\<lparr>heap_top := va\<rparr> = m\<lparr>slot_next := s\<rparr>" using add_spec [OF a] rs by auto
      then show ?thesis using step b ok by auto
    next
      case b: True
      then obtain s slot where m2: "m2 = m\<lparr>heap_top := heap_top m + ?c, slot_next := s, prog_maps := prog_maps m @
          [\<lparr>map_vaddr = heap_top m, map_bytes = ?c, map_slot = slot, map_prot = PROG_PROT_RW, map_heap = True\<rparr>]\<rparr>"
        using add_spec [OF a] rs by auto
      have "maps_ok m2" "heap_ok m2" unfolding m2 by (rule grow_map_ok [OF ok _ _ _ ch(1,2) rs(3,4)]; simp)+
      moreover have "unat want \<le> unat (heap_top m2)" using ch(3) rs(3) True m2 by (simp add: unat_sub word_le_nat_alt word_less_nat_alt)
      moreover have "brk_grow A want m2 w2 = Some (True, m2, w2)"
        using calculation(3) by (subst brk_grow.simps) (simp add: word_less_nat_alt)
      ultimately show ?thesis using step b m2 by auto
    qed
  qed
qed

text \<open>Forgetting a record: the others stay, in another order.\<close>

lemma forget_nth:
  assumes "i < length (prog_maps m)" "j < length (prog_maps (prog_mem_forget m i))"
  shows "prog_maps (prog_mem_forget m i) ! j = prog_maps m ! (if j = i then length (prog_maps m) - 1 else j)"
  using assms by (cases "prog_maps m = []") (auto simp: prog_mem_forget_def nth_butlast last_conv_nth nth_list_update)

lemma forget_length: "i < length (prog_maps m) \<Longrightarrow> length (prog_maps (prog_mem_forget m i)) = length (prog_maps m) - 1"
  by (simp add: prog_mem_forget_def)

lemma forget_apart:
  assumes "apart_maps (prog_maps m)" "i < length (prog_maps m)"
  shows "apart_maps (prog_maps (prog_mem_forget m i))"
  unfolding apart_maps_def
proof (intro allI impI)
  fix j k assume jk: "j < length (prog_maps (prog_mem_forget m i))" "k < length (prog_maps (prog_mem_forget m i))" "j \<noteq> k"
  let ?f = "\<lambda>j. if j = i then length (prog_maps m) - 1 else j"
  have "?f j \<noteq> ?f k" "?f j < length (prog_maps m)" "?f k < length (prog_maps m)" using jk assms(2) by (auto simp: forget_length)
  then have "rng (prog_maps m ! ?f j) \<inter> rng (prog_maps m ! ?f k) = {}" using assms(1) unfolding apart_maps_def by blast
  then show "rng (prog_maps (prog_mem_forget m i) ! j) \<inter> rng (prog_maps (prog_mem_forget m i) ! k) = {}"
    using forget_nth [OF assms(2) jk(1)] forget_nth [OF assms(2) jk(2)] by simp
qed

lemma forget_set:
  assumes ok: "maps_ok m" and i: "i < length (prog_maps m)"
  shows "set (prog_maps (prog_mem_forget m i)) = set (prog_maps m) - {prog_maps m ! i}"
proof -
  let ?xs = "prog_maps m" and ?ys = "prog_maps (prog_mem_forget m i)"
  have inj: "?xs ! a \<noteq> ?xs ! b" if "a < length ?xs" "b < length ?xs" "a \<noteq> b" for a b
  proof
    assume eq: "?xs ! a = ?xs ! b"
    have "rng (?xs ! a) \<inter> rng (?xs ! b) = {}" using ok that unfolding maps_ok_def apart_maps_def by blast
    moreover have "map_bytes (?xs ! a) \<noteq> 0" using ok that(1) by (simp add: maps_ok_def)
    then have "unat (map_bytes (?xs ! a)) \<noteq> 0" by (simp add: unat_eq_0)
    ultimately show False using eq by (auto simp: rng_def)
  qed
  show ?thesis
  proof (intro equalityI subsetI)
    fix e assume "e \<in> set ?ys"
    then obtain j where j: "j < length ?ys" "e = ?ys ! j" by (metis in_set_conv_nth)
    let ?k = "if j = i then length ?xs - 1 else j"
    have "e = ?xs ! ?k" "?k < length ?xs" "?k \<noteq> i" using forget_nth [OF i j(1)] j i forget_length [OF i] by auto
    then show "e \<in> set ?xs - {?xs ! i}" using inj [of ?k i] i by auto
  next
    fix e assume "e \<in> set ?xs - {?xs ! i}"
    then obtain k where k: "k < length ?xs" "e = ?xs ! k" "k \<noteq> i" by (metis DiffE in_set_conv_nth singletonI)
    let ?j = "if k = length ?xs - 1 then i else k"
    have "?j < length ?ys" using k i forget_length [OF i] by auto
    moreover have "?ys ! ?j = e" using forget_nth [OF i calculation] k by auto
    ultimately show "e \<in> set ?ys" using nth_mem by metis
  qed
qed

lemma forget_fields [simp]:
  "brk_base (prog_mem_forget m i) = brk_base m" "brk_cur (prog_mem_forget m i) = brk_cur m" "brk_end (prog_mem_forget m i) = brk_end m"
  "heap_top (prog_mem_forget m i) = heap_top m" "mmap_cur (prog_mem_forget m i) = mmap_cur m" "mmap_end (prog_mem_forget m i) = mmap_end m"
  by (simp_all add: prog_mem_forget_def)

lemma forget_ok: "maps_ok m \<Longrightarrow> i < length (prog_maps m) \<Longrightarrow> maps_ok (prog_mem_forget m i)"
  using forget_apart [of m i] forget_set [of m i] by (auto simp: maps_ok_def)

lemma find_index_None: "find_index P i xs = None \<longleftrightarrow> (\<forall>x \<in> set xs. \<not> P x)"
  by (induction xs arbitrary: i) auto

text \<open>Shrinking drops the heap's records above the new break and lowers the top to the lowest of them.\<close>

lemma top_ok: "maps_ok m \<Longrightarrow> unat (brk_base m) \<le> unat va \<Longrightarrow> unat va \<le> unat (heap_top m) \<Longrightarrow> 4096 dvd unat va \<Longrightarrow> maps_ok (m\<lparr>heap_top := va\<rparr>)"
  by (auto simp: maps_ok_def)

lemma shrink_spec:
  assumes "maps_ok m" "\<forall>e \<in> set (prog_maps m). map_heap e \<longrightarrow> unat (brk_base m) \<le> unat (map_vaddr e) \<and> 4096 dvd unat (map_vaddr e)"
    and "brk_shrink A want m w = (m', w')"
  shows "maps_ok m' \<and> set (prog_maps m') = {e \<in> set (prog_maps m). \<not> above want e} \<and>
    brk_base m' = brk_base m \<and> brk_cur m' = brk_cur m \<and> brk_end m' = brk_end m \<and>
    unat (heap_top m') \<le> unat (heap_top m) \<and> (\<forall>e \<in> set (prog_maps m). above want e \<longrightarrow> unat (heap_top m') \<le> unat (map_vaddr e)) \<and>
    (heap_top m' = heap_top m \<or> (\<exists>e \<in> set (prog_maps m). above want e \<and> heap_top m' = map_vaddr e))"
  using assms
proof (induction A want m w arbitrary: m' w' rule: brk_shrink.induct)
  case (1 A want m w)
  show ?case
  proof (cases "find_index (above want) 0 (prog_maps m)")
    case None
    then have "m' = m" using 1(4) by (simp add: brk_shrink.simps [of A want m w])
    then show ?thesis using None 1(2) by (auto simp: find_index_None)
  next
    case (Some i)
    define e where "e = prog_maps m ! i"
    define m0 where "m0 = (if map_vaddr e < heap_top m then m\<lparr>heap_top := map_vaddr e\<rparr> else m)"
    have i: "i < length (prog_maps m)" "above want e" using find_index_bound [OF Some] by (auto simp: e_def)
    then have e: "e \<in> set (prog_maps m)" "map_heap e" by (auto simp: e_def above_def)
    obtain m1 w1 where d: "pm_drop A i m0 w = (m1, w1)" by fastforce
    then have m1: "m1 = prog_mem_forget m0 i" by (simp add: pm_drop_def Let_def)
    have ok0: "maps_ok m0" using top_ok [OF 1(2), of "map_vaddr e"] 1(2,3) e by (auto simp: m0_def word_less_nat_alt)
    have maps0: "prog_maps m0 = prog_maps m" "brk_base m0 = brk_base m" "brk_cur m0 = brk_cur m" "brk_end m0 = brk_end m" by (auto simp: m0_def)
    have top0: "unat (heap_top m0) \<le> unat (heap_top m)" "unat (heap_top m0) \<le> unat (map_vaddr e)" "heap_top m0 = heap_top m \<or> heap_top m0 = map_vaddr e"
      by (auto simp: m0_def word_less_nat_alt)
    have set1: "set (prog_maps m1) = set (prog_maps m) - {e}" using forget_set [OF ok0, of i] i(1) maps0(1) by (simp add: m1 e_def)
    have rec: "brk_shrink A want m1 w1 = (m', w')"
      using 1(4) Some d by (simp add: brk_shrink.simps [of A want m w] Let_def flip: e_def m0_def)
    have ok1: "maps_ok m1" unfolding m1 by (rule forget_ok [OF ok0]) (use i(1) maps0(1) in simp)
    have "\<forall>e \<in> set (prog_maps m1). map_heap e \<longrightarrow> unat (brk_base m1) \<le> unat (map_vaddr e) \<and> 4096 dvd unat (map_vaddr e)"
      using 1(3) set1 maps0 by (simp add: m1)
    then have "maps_ok m' \<and> set (prog_maps m') = {e \<in> set (prog_maps m1). \<not> above want e} \<and>
      brk_base m' = brk_base m1 \<and> brk_cur m' = brk_cur m1 \<and> brk_end m' = brk_end m1 \<and>
      unat (heap_top m') \<le> unat (heap_top m1) \<and> (\<forall>e \<in> set (prog_maps m1). above want e \<longrightarrow> unat (heap_top m') \<le> unat (map_vaddr e)) \<and>
      (heap_top m' = heap_top m1 \<or> (\<exists>e \<in> set (prog_maps m1). above want e \<and> heap_top m' = map_vaddr e))"
      using 1(1) [OF Some refl _ refl ok1 _ rec] d unfolding m0_def e_def by simp
    then have h: "maps_ok m'" "set (prog_maps m') = {e \<in> set (prog_maps m1). \<not> above want e}"
      "brk_base m' = brk_base m" "brk_cur m' = brk_cur m" "brk_end m' = brk_end m" "unat (heap_top m') \<le> unat (heap_top m0)"
      "\<forall>e \<in> set (prog_maps m1). above want e \<longrightarrow> unat (heap_top m') \<le> unat (map_vaddr e)"
      "heap_top m' = heap_top m0 \<or> (\<exists>e \<in> set (prog_maps m1). above want e \<and> heap_top m' = map_vaddr e)"
      using maps0 by (simp_all add: m1)
    have "set (prog_maps m') = {e \<in> set (prog_maps m). \<not> above want e}" using h(2) set1 i(2) by blast
    moreover have "\<forall>e \<in> set (prog_maps m). above want e \<longrightarrow> unat (heap_top m') \<le> unat (map_vaddr e)"
      using h(6,7) top0(2) set1 by (metis insertE insert_Diff e(1) le_trans)
    moreover have "heap_top m' = heap_top m \<or> (\<exists>e \<in> set (prog_maps m). above want e \<and> heap_top m' = map_vaddr e)"
      using h(8)
    proof
      assume "heap_top m' = heap_top m0"
      then show ?thesis using top0(3) e(1) i(2) by metis
    qed (use set1 in blast)
    ultimately show ?thesis using h top0(1) by simp
  qed
qed

lemma below_ok:
  assumes ok: "maps_ok m" "heap_ok m" and e: "e \<in> set (prog_maps m)" "map_heap e"
  shows "unat (brk_base m) \<le> unat (map_vaddr e)" "4096 dvd unat (map_vaddr e)"
proof -
  have "map_bytes e \<noteq> 0" using ok(1) e(1) by (simp add: maps_ok_def)
  then have "unat (map_vaddr e) \<in> rng e" by (simp add: rng_def unat_gt_0)
  then show "unat (brk_base m) \<le> unat (map_vaddr e)" using map_range [OF ok e(1)] e(2) by auto
  show "4096 dvd unat (map_vaddr e)" using ok(1) e by (simp add: maps_ok_def)
qed

text \<open>A record below a record it does not overlap ends before it.\<close>

lemma apart_le:
  assumes "maps_ok m" "d \<in> set (prog_maps m)" "e \<in> set (prog_maps m)" "unat (map_vaddr d) < unat (map_vaddr e)" "x \<in> rng d"
  shows "x < unat (map_vaddr e)"
proof (rule ccontr)
  assume "\<not> x < unat (map_vaddr e)"
  then have "unat (map_vaddr e) \<in> rng d" using assms(4,5) by (auto simp: rng_def)
  moreover have "map_bytes e \<noteq> 0" using assms(1,3) by (simp add: maps_ok_def)
  then have "unat (map_vaddr e) \<in> rng e" by (simp add: rng_def unat_gt_0)
  moreover obtain i j where "i < length (prog_maps m)" "d = prog_maps m ! i" "j < length (prog_maps m)" "e = prog_maps m ! j"
    using assms(2,3) by (metis in_set_conv_nth)
  moreover have "i \<noteq> j" using calculation assms(4) by auto
  ultimately show False using assms(1) unfolding maps_ok_def apart_maps_def by blast
qed

lemma shrink_ok:
  assumes ok: "maps_ok m" "heap_ok m" and want: "unat (brk_base m) \<le> unat want" "unat want \<le> unat (brk_cur m)"
    and r: "brk_shrink A want m w = (m', w')"
  shows "maps_ok m'" "heap_ok (m'\<lparr>brk_cur := want\<rparr>)" "{e \<in> set (prog_maps m'). \<not> map_heap e} = {e \<in> set (prog_maps m). \<not> map_heap e}"
proof -
  have "\<forall>e \<in> set (prog_maps m). map_heap e \<longrightarrow> unat (brk_base m) \<le> unat (map_vaddr e) \<and> 4096 dvd unat (map_vaddr e)"
    using below_ok [OF ok] by blast
  from shrink_spec [OF ok(1) this r] have s: "maps_ok m'" "set (prog_maps m') = {e \<in> set (prog_maps m). \<not> above want e}"
    "brk_base m' = brk_base m" "unat (heap_top m') \<le> unat (heap_top m)"
    "\<And>e. e \<in> set (prog_maps m) \<Longrightarrow> above want e \<Longrightarrow> unat (heap_top m') \<le> unat (map_vaddr e)"
    "heap_top m' = heap_top m \<or> (\<exists>e \<in> set (prog_maps m). above want e \<and> heap_top m' = map_vaddr e)" by blast+
  show "maps_ok m'" by (rule s(1))
  show "{e \<in> set (prog_maps m'). \<not> map_heap e} = {e \<in> set (prog_maps m). \<not> map_heap e}" using s(2) by (auto simp: above_def)
  have cover: "heap_cover (prog_maps m) = {unat (brk_base m)..<unat (heap_top m)}" using ok(2) by (simp add: heap_ok_def)
  have "heap_cover (prog_maps m') = {unat (brk_base m)..<unat (heap_top m')}"
  proof (intro equalityI subsetI)
    fix x assume "x \<in> heap_cover (prog_maps m')"
    then obtain d where d: "d \<in> set (prog_maps m)" "\<not> above want d" "map_heap d" "x \<in> rng d" using s(2) by (auto simp: heap_cover_def)
    then have x: "x \<in> heap_cover (prog_maps m)" by (auto simp: heap_cover_def)
    have "x < unat (map_vaddr e)" if "e \<in> set (prog_maps m)" "above want e" for e
      using apart_le [OF ok(1) d(1) that(1) _ d(4)] d(2,3) that(2) by (auto simp: above_def word_less_nat_alt)
    then show "x \<in> {unat (brk_base m)..<unat (heap_top m')}" using s(6) x cover by auto
  next
    fix x assume x: "x \<in> {unat (brk_base m)..<unat (heap_top m')}"
    then have "x \<in> heap_cover (prog_maps m)" using cover s(4) by auto
    then obtain d where d: "d \<in> set (prog_maps m)" "map_heap d" "x \<in> rng d" by (auto simp: heap_cover_def)
    have "\<not> above want d" using s(5) [OF d(1)] d(3) x by (auto simp: rng_def)
    then show "x \<in> heap_cover (prog_maps m')" using d s(2) by (auto simp: heap_cover_def)
  qed
  moreover have "unat want \<le> unat (heap_top m')" using s(6) want(2) ok(2) by (auto simp: heap_ok_def above_def word_less_nat_alt not_less)
  ultimately show "heap_ok (m'\<lparr>brk_cur := want\<rparr>)" using want(1) s(3) by (simp add: heap_ok_def)
qed

lemma brk_cur_ok [simp]: "maps_ok (m\<lparr>brk_cur := c\<rparr>) = maps_ok m"
  by (simp add: maps_ok_def)

lemma filter_set: "filter P xs = filter P ys \<Longrightarrow> {x \<in> set xs. P x} = {x \<in> set ys. P x}"
  by (metis set_filter)

lemma setup_ok:
  assumes "4096 dvd unat b" "unat b + 2 ^ 40 < 2 ^ 64"
  shows "maps_ok (prog_mem_setup b u v lo hi pt)" "heap_ok (prog_mem_setup b u v lo hi pt)"
proof -
  have "unat (b + 0x60000000) = unat b + 0x60000000" "unat (b + 0x70000000) = unat b + 0x70000000"
    using assms(2) by (simp_all add: unat_word_ariths)
  moreover have "4096 dvd unat b + 0x60000000" "4096 dvd unat b + 0x70000000" using assms(1) by (auto intro: dvd_add)
  ultimately show "maps_ok (prog_mem_setup b u v lo hi pt)" "heap_ok (prog_mem_setup b u v lo hi pt)"
    by (simp_all add: maps_ok_def heap_ok_def prog_mem_setup_def apart_maps_def heap_cover_def
        IRIS_PROG_HEAP_OFF_def IRIS_PROG_HEAP_END_OFF_def IRIS_PROG_MMAP_OFF_def)
qed

lemma mmap_ok:
  assumes ok: "maps_ok m" "heap_ok m" and r: "prog_mmap A bytes prot m w = (va, m', w')"
  shows "maps_ok m' \<and> heap_ok m' \<and> ((va = 0 \<and> prog_maps m' = prog_maps m) \<or>
    (\<exists>e. prog_maps m' = prog_maps m @ [e] \<and> map_vaddr e = va \<and> unat bytes \<le> unat (map_bytes e) \<and> map_prot e = prot \<and> \<not> map_heap e))"
proof (cases "prog_mem_pages bytes = 0 \<or> prog_mem_reserve m (prog_mem_pages bytes) False = None")
  case True
  then have "va = 0" "m' = m" using r by (auto simp: prog_mmap_def Let_def split: if_split_asm)
  then show ?thesis using ok by simp
next
  case False
  let ?n = "prog_mem_pages bytes"
  obtain v m1 where rs: "prog_mem_reserve m ?n False = Some (v, m1)" using False by auto
  note p = pages_same [OF pages_dvd [of bytes]]
  have v: "v = mmap_cur m" "m1 = m\<lparr>mmap_cur := v + ?n\<rparr>" "unat (v + ?n) = unat v + unat ?n" using reserve_spec [OF rs] p by auto
  obtain b m2 w2 where a: "pm_add A v ?n prot False m1 w = (b, m2, w2)" by (metis prod_cases3)
  show ?thesis
  proof (cases b)
    case b: False
    then obtain s where "m2\<lparr>mmap_cur := v\<rparr> = m\<lparr>slot_next := s\<rparr>" using add_spec [OF a] v by auto
    moreover have "va = 0" "m' = m2\<lparr>mmap_cur := v\<rparr>" using r False rs a b by (auto simp: prog_mmap_def Let_def)
    ultimately show ?thesis using ok by simp
  next
    case b: True
    then obtain s slot where m2: "m2 = m\<lparr>mmap_cur := v + ?n, slot_next := s, prog_maps := prog_maps m @
        [\<lparr>map_vaddr = v, map_bytes = ?n, map_slot = slot, map_prot = prot, map_heap = False\<rparr>]\<rparr>" (is "m2 = m\<lparr>mmap_cur := _, slot_next := _, prog_maps := _ @ [?e]\<rparr>")
      using add_spec [OF a] v by auto
    have e: "rng ?e = {unat v..<unat v + unat ?n}" by (simp add: rng_def)
    have "rng d \<inter> rng ?e = {}" if "d \<in> set (prog_maps m)" for d
      using map_range [OF ok that] ok(1) v(1) e by (fastforce simp: maps_ok_def split: if_splits)
    then have "apart_maps (prog_maps m @ [?e])" using ok(1) by (intro apart_append) (simp_all add: maps_ok_def)
    moreover have "rng d \<subseteq> {unat (brk_end m)..<unat v + unat ?n}" if "d \<in> set (prog_maps m)" "\<not> map_heap d" for d
      using map_range [OF ok that(1)] that(2) v(1) by auto
    moreover have "unat (brk_end m) \<le> unat v" using ok(1) v(1) by (simp add: maps_ok_def)
    ultimately have "maps_ok m2" using ok(1) v e False by (auto simp: m2 maps_ok_def)
    moreover have "heap_ok m2" using ok(2) by (simp add: m2 heap_ok_def)
    moreover have "va = v" "m' = m2" using r False rs a b by (auto simp: prog_mmap_def Let_def)
    ultimately show ?thesis using m2 pages_ge [of bytes] False by simp
  qed
qed

lemma find_spec:
  assumes "prog_mem_find m va b = Some i"
  shows "i < length (prog_maps m)" "covers va b (prog_maps m ! i)"
  using assms find_index_bound [of "covers va b" 0 "prog_maps m" i] by (auto simp: prog_mem_find_def split: if_splits)

lemma drop_ok:
  assumes ok: "maps_ok m" "heap_ok m" and i: "i < length (prog_maps m)" "\<not> map_heap (prog_maps m ! i)"
  shows "maps_ok (prog_mem_forget m i)" "heap_ok (prog_mem_forget m i)"
proof -
  have "{e \<in> set (prog_maps (prog_mem_forget m i)). map_heap e} = {e \<in> set (prog_maps m). map_heap e}"
    using forget_set [OF ok(1) i(1)] i(2) by auto
  then show "heap_ok (prog_mem_forget m i)" using ok(2) by (simp add: heap_ok_def heap_cover_def)
  show "maps_ok (prog_mem_forget m i)" by (rule forget_ok [OF ok(1) i(1)])
qed

lemma munmap_ok:
  assumes ok: "maps_ok m" "heap_ok m" and r: "prog_munmap A va m w = (st, m', w')"
  shows "maps_ok m' \<and> heap_ok m' \<and> (if st = IRIS_OK
    then \<exists>e \<in> set (prog_maps m). map_vaddr e = va \<and> \<not> map_heap e \<and> set (prog_maps m') = set (prog_maps m) - {e} else m' = m)"
proof (cases "prog_mem_find m va 1")
  case None
  then show ?thesis using r ok by (auto simp: prog_munmap_def)
next
  case (Some i)
  let ?e = "prog_maps m ! i"
  note i = find_spec(1) [OF Some]
  show ?thesis
  proof (cases "map_vaddr ?e = va \<and> \<not> map_heap ?e")
    case True
    then have "st = IRIS_OK" "m' = prog_mem_forget m i" using r Some by (auto simp: prog_munmap_def pm_drop_def Let_def)
    moreover have "\<exists>e \<in> set (prog_maps m). map_vaddr e = va \<and> \<not> map_heap e \<and> set (prog_maps (prog_mem_forget m i)) = set (prog_maps m) - {e}"
      by (rule bexI [of _ ?e]) (use True i forget_set [OF ok(1) i] in simp_all)
    ultimately show ?thesis using drop_ok [OF ok i] True by simp
  qed (use r Some ok in \<open>auto simp: prog_munmap_def split: if_splits\<close>)
qed

lemma protect_same:
  assumes ok: "maps_ok m" "heap_ok m" and i: "i < length (prog_maps m)"
    and m'_def: "m' = m\<lparr>prog_maps := (prog_maps m)[i := (prog_maps m ! i)\<lparr>map_prot := prot\<rparr>]\<rparr>"
  shows "maps_ok m'" "heap_ok m'" "map rng (prog_maps m') = map rng (prog_maps m)"
proof -
  let ?e = "prog_maps m ! i"
  have r: "rng (?e\<lparr>map_prot := prot\<rparr>) = rng ?e" by (simp add: rng_def)
  show ranges: "map rng (prog_maps m') = map rng (prog_maps m)" using i r by (simp add: m'_def map_update list_update_same_conv)
  have n: "rng (prog_maps m' ! j) = rng (prog_maps m ! j)" "map_heap (prog_maps m' ! j) = map_heap (prog_maps m ! j)"
    "map_bytes (prog_maps m' ! j) = map_bytes (prog_maps m ! j)" "map_vaddr (prog_maps m' ! j) = map_vaddr (prog_maps m ! j)"
    if "j < length (prog_maps m)" for j using that r i by (auto simp: m'_def nth_list_update)
  have len: "length (prog_maps m') = length (prog_maps m)" by (simp add: m'_def)
  have all: "(\<forall>e \<in> set (prog_maps m'). P (rng e) (map_heap e) (map_bytes e) (map_vaddr e)) =
    (\<forall>e \<in> set (prog_maps m). P (rng e) (map_heap e) (map_bytes e) (map_vaddr e))" for P
    using n len by (simp add: all_set_conv_all_nth)
  have "x \<in> heap_cover (prog_maps m') \<longleftrightarrow> x \<in> heap_cover (prog_maps m)" for x
    using all [of "\<lambda>r h _ _. h \<longrightarrow> x \<notin> r"] by (auto simp: heap_cover_def)
  then have "heap_cover (prog_maps m') = heap_cover (prog_maps m)" by blast
  then show "heap_ok m'" using ok(2) by (simp add: heap_ok_def m'_def)
  have "apart_maps (prog_maps m')" using ok(1) n len by (simp add: maps_ok_def apart_maps_def)
  then show "maps_ok m'"
    using ok(1) all [of "\<lambda>r h b v. b \<noteq> 0 \<and> (h \<longrightarrow> 4096 dvd unat v) \<and> (\<not> h \<longrightarrow> r \<subseteq> {unat (brk_end m)..<unat (mmap_cur m)})"]
    by (simp add: maps_ok_def m'_def)
qed

lemma mprotect_ok:
  assumes ok: "maps_ok m" "heap_ok m" and r: "prog_mprotect A va b prot m w = (st, m', w')"
  shows "maps_ok m' \<and> (st = IRIS_OK \<longrightarrow> heap_ok m' \<and> map rng (prog_maps m') = map rng (prog_maps m))"
proof (cases "prog_mem_find m va b")
  case None
  then show ?thesis using r ok by (auto simp: prog_mprotect_def)
next
  case (Some i)
  let ?e = "prog_maps m ! i"
  note i = find_spec(1) [OF Some]
  obtain u w1 where u: "inv_unmap A (map_slot ?e) (map_vaddr ?e) w = (u, w1)" by fastforce
  obtain p w2 where p: "inv_map A (map_slot ?e) (map_vaddr ?e) (map_bytes ?e) prot w1 = (p, w2)" by fastforce
  obtain q w3 where q: "inv_map A (map_slot ?e) (map_vaddr ?e) (map_bytes ?e) (map_prot ?e) w2 = (q, w3)" by fastforce
  define n where "n = m\<lparr>prog_maps := (prog_maps m)[i := ?e\<lparr>map_prot := prot\<rparr>]\<rparr>"
  have d: "prog_mprotect A va b prot m w =
     (if va \<noteq> map_vaddr ?e \<or> b \<noteq> map_bytes ?e then (IRIS_ERR_NOT_SUPPORTED, m, w)
      else if prot = map_prot ?e then (IRIS_OK, m, w)
      else if \<not> u then (IRIS_ERR_INVALID_ARG, m, w1)
      else if \<not> p then (IRIS_ERR_INVALID_ARG, if q then m else prog_mem_forget m i, w3)
      else (IRIS_OK, n, w2))"
    by (simp only: prog_mprotect_def Some option.case Let_def u prod.case p q n_def)
  have "maps_ok n" "heap_ok n" "map rng (prog_maps n) = map rng (prog_maps m)" by (rule protect_same [OF ok i n_def])+
  then show ?thesis using r [unfolded d] ok forget_ok [OF ok(1) i] by (simp split: if_split_asm)
qed

subsection \<open>Properties\<close>

text \<open>
  C32.  The break moves and the heap stays covered.  Whatever the calls on the budget and the address
  space answer, moving the break returns: either -1 with the break where it was, or the old break
  with the new one displaced by the amount asked for.  Every address of the heap up to its top, and
  so every address below the break, is in a mapping of the heap, no two mappings overlap, and the
  mappings outside the heap are the ones there were.
\<close>

theorem brk_moves:
  assumes "maps_ok m" "heap_ok m"
  shows "\<exists>r m' w'. prog_brk A delta m w = Some (r, m', w') \<and> maps_ok m' \<and> heap_ok m' \<and>
    (r = - 1 \<and> brk_cur m' = brk_cur m \<or> r = brk_cur m \<and> brk_cur m' = brk_cur m + delta) \<and>
    {e \<in> set (prog_maps m'). \<not> map_heap e} = {e \<in> set (prog_maps m). \<not> map_heap e}"
proof -
  consider (zero) "brk_base m = 0 \<or> delta = 0" | (up) "brk_base m \<noteq> 0" "sint delta > 0" | (down) "brk_base m \<noteq> 0" "sint delta < 0"
    using sint_0 [where ?'a = 64] by (metis linorder_neqE_linordered_idom sint_uint signed_eq_0_iff)
  then show ?thesis
  proof cases
    case zero
    then show ?thesis using assms by (auto simp: prog_brk_def)
  next
    case up
    let ?w = "brk_cur m + delta"
    show ?thesis
    proof (cases "?w < brk_cur m \<or> ?w > brk_end m")
      case True
      then show ?thesis using up assms by (auto simp: prog_brk_def Let_def)
    next
      case False
      then have le: "unat (brk_cur m) \<le> unat ?w" "unat ?w \<le> unat (brk_end m)" by (auto simp: word_less_nat_alt)
      obtain r m1 w1 where g: "brk_grow A ?w m w = Some (r, m1, w1)" "maps_ok m1" "heap_ok m1" "brk_cur m1 = brk_cur m"
        "brk_base m1 = brk_base m" "r \<longrightarrow> unat ?w \<le> unat (heap_top m1)"
        "filter (\<lambda>e. \<not> map_heap e) (prog_maps m1) = filter (\<lambda>e. \<not> map_heap e) (prog_maps m)"
        using grow_ok [OF assms le(2), of A w] by blast
      have "heap_ok (m1\<lparr>brk_cur := ?w\<rparr>)" if r using g that le(1) by (simp add: heap_ok_def)
      then show ?thesis using up False g filter_set [OF g(7)] by (cases r) (auto simp: prog_brk_def Let_def)
    qed
  next
    case down
    let ?w = "brk_cur m - (- delta)"
    show ?thesis
    proof (cases "- delta > brk_cur m - brk_base m")
      case True
      then show ?thesis using down assms by (auto simp: prog_brk_def Let_def)
    next
      case False
      have b: "unat (brk_base m) \<le> unat (brk_cur m)" using assms(2) by (simp add: heap_ok_def)
      then have d: "unat (- delta) \<le> unat (brk_cur m) - unat (brk_base m)" using False by (simp add: word_less_nat_alt unat_sub word_le_nat_alt)
      have "unat ?w = unat (brk_cur m) - unat (- delta)" using d by (intro unat_sub) (simp add: word_le_nat_alt)
      then have le: "unat (brk_base m) \<le> unat ?w" "unat ?w \<le> unat (brk_cur m)" using d b by linarith+
      obtain m1 w1 where g: "brk_shrink A ?w m w = (m1, w1)" by fastforce
      have "prog_brk A delta m w = Some (brk_cur m, m1\<lparr>brk_cur := ?w\<rparr>, w1)"
        using down False g by (simp add: prog_brk_def Let_def)
      then show ?thesis using shrink_ok [OF assms le g] by simp
    qed
  qed
qed

lemma sample_prog_ok: "maps_ok sample_prog" "heap_ok sample_prog"
  unfolding sample_prog_def by (rule setup_ok; simp)+

theorem brk_moves_witness:
  "\<exists>r m' w'. prog_brk sample_calls 100 sample_prog () = Some (r, m', w') \<and> maps_ok m' \<and> heap_ok m'"
  using brk_moves [OF sample_prog_ok, where A = sample_calls and delta = 100 and w = "()"] by blast

text \<open>
  C33.  Mappings are made and dropped one at a time.  A successful \<^verbatim>\<open>mmap\<close> adds one mapping, at the
  address it returns and at least as long as asked, that overlaps no other; a failed one adds none.  A
  successful \<^verbatim>\<open>munmap\<close> removes one mapping that starts at the address and is not the heap's; a failed one
  changes nothing.  A successful \<^verbatim>\<open>mprotect\<close> changes no range.  All keep the mappings apart.
\<close>

theorem mappings_apart:
  assumes "maps_ok m" "heap_ok m"
  shows "(case prog_mmap A bytes prot m w of (va, m', _) \<Rightarrow> maps_ok m' \<and> heap_ok m' \<and>
      ((va = 0 \<and> prog_maps m' = prog_maps m) \<or>
       (\<exists>e. prog_maps m' = prog_maps m @ [e] \<and> map_vaddr e = va \<and> unat bytes \<le> unat (map_bytes e) \<and> map_prot e = prot \<and> \<not> map_heap e))) \<and>
    (case prog_munmap A vaddr m w of (st, m', _) \<Rightarrow> maps_ok m' \<and> heap_ok m' \<and>
      (if st = IRIS_OK then \<exists>e \<in> set (prog_maps m). map_vaddr e = vaddr \<and> \<not> map_heap e \<and> set (prog_maps m') = set (prog_maps m) - {e}
       else m' = m)) \<and>
    (case prog_mprotect A vaddr bytes prot m w of (st, m', _) \<Rightarrow> maps_ok m' \<and>
      (st = IRIS_OK \<longrightarrow> heap_ok m' \<and> map rng (prog_maps m') = map rng (prog_maps m)))"
  using mmap_ok [OF assms, of A bytes prot w] munmap_ok [OF assms, of A vaddr w] mprotect_ok [OF assms, of A vaddr bytes prot w]
  by (cases "prog_mmap A bytes prot m w"; cases "prog_munmap A vaddr m w"; cases "prog_mprotect A vaddr bytes prot m w") simp

theorem mappings_apart_witness:
  "\<exists>va m' w'. prog_mmap sample_calls 5000 0 sample_prog () = (va, m', w') \<and> maps_ok m' \<and> heap_ok m'"
  using mappings_apart [OF sample_prog_ok, where A = sample_calls and bytes = 5000 and prot = 0 and w = "()" and vaddr = 0] by (auto split: prod.splits)

end
