(* ===== verification/Iris_ProgStack.thy ===== *)
theory Iris_ProgStack
  imports Iris_Rights
begin

text \<open>
  The first stack of a program: \<^verbatim>\<open>services/common/prog_stack.c\<close>.  The region is a map from offsets
  to bytes.  A string is the list of its bytes before the terminator, and the counts of the three
  vectors are the lengths of their lists.  The lemmas show that the interleaved writes produce one
  block of strings and one block of words, and that reading them back the way a C runtime does gives
  the arguments.
\<close>

type_synonym bytes = "u8 list"
type_synonym membytes = "nat \<Rightarrow> u8"

definition write_block :: "nat \<Rightarrow> bytes \<Rightarrow> membytes \<Rightarrow> membytes" where
  "write_block off bs mem = (\<lambda>a. if off \<le> a \<and> a < off + length bs then bs ! (a - off) else mem a)"

text \<open>A 64-bit store, lowest byte first.\<close>

definition word_bytes :: "u64 \<Rightarrow> bytes" where
  "word_bytes v = map (\<lambda>b. ucast (drop_bit (8 * b) v)) [0..<8]"

definition store_word :: "nat \<Rightarrow> u64 \<Rightarrow> membytes \<Rightarrow> membytes" where
  "store_word off v mem = write_block off (word_bytes v) mem"

definition str_size :: "bytes list \<Rightarrow> nat" where
  "str_size ss = (\<Sum>s\<leftarrow>ss. length s + 1)"

text \<open>One of the two string loops: the bytes at the cursor, the child's address of them in the vector.\<close>

fun put_strings :: "u64 \<Rightarrow> bytes list \<Rightarrow> nat \<Rightarrow> nat \<Rightarrow> membytes \<Rightarrow> nat \<times> membytes" where
  "put_strings child_base [] cursor slot mem = (cursor, mem)"
| "put_strings child_base (s # ss) cursor slot mem =
     put_strings child_base ss (cursor + (length s + 1)) (slot + 8)
       (store_word slot (child_base + of_nat cursor) (write_block cursor (s @ [0]) mem))"

text \<open>The auxiliary vector is indexed by 32-bit expressions, which wrap.\<close>

definition aux_slot :: "nat \<Rightarrow> u32 \<Rightarrow> nat" where
  "aux_slot auxp j = auxp + 8 * unat j"

fun put_aux :: "u32 \<Rightarrow> (u64 \<times> u64) list \<Rightarrow> nat \<Rightarrow> membytes \<Rightarrow> membytes" where
  "put_aux i [] auxp mem = mem"
| "put_aux i ((ty, val) # aux) auxp mem =
     put_aux (i + 1) aux auxp (store_word (aux_slot auxp (i * 2 + 1)) val (store_word (aux_slot auxp (i * 2)) ty mem))"

text \<open>The body below the pointer tests, on the vectors the pointers and counts denote.\<close>

definition stack_write ::
    "u64 \<Rightarrow> u64 \<Rightarrow> bytes list \<Rightarrow> bytes list \<Rightarrow> (u64 \<times> u64) list \<Rightarrow> membytes \<Rightarrow> u64 \<times> membytes" where
  "stack_write child_base bytes argv envp aux mem =
     (let argc = length argv; envc = length envp; auxc = (of_nat (length aux) :: u32);
          str_bytes = of_nat (str_size argv + str_size envp);
          vec_words = 1 + of_nat argc + 1 + of_nat envc + 1 + (of_nat (length aux) + 1) * 2;
          vec_bytes = vec_words * 8 in
      if str_bytes > bytes then (0, mem)
      else let str_off = (bytes - str_bytes) AND NOT 7 in
        if vec_bytes > str_off then (0, mem)
        else let rsp_off = (str_off - vec_bytes) AND NOT 15;
                 argp = unat rsp_off + 8;
                 envpp = argp + 8 * (argc + 1);
                 auxp = envpp + 8 * (envc + 1);
                 (cursor1, mem1) = put_strings child_base argv (unat str_off) argp mem;
                 mem2 = store_word (argp + 8 * argc) 0 mem1;
                 (cursor2, mem3) = put_strings child_base envp cursor1 envpp mem2;
                 mem4 = store_word (envpp + 8 * envc) 0 mem3;
                 mem5 = put_aux 0 aux auxp mem4;
                 mem6 = store_word (aux_slot auxp (auxc * 2)) 0 mem5;
                 mem7 = store_word (aux_slot auxp (auxc * 2 + 1)) 0 mem6;
                 mem8 = store_word (unat rsp_off) (of_nat argc) mem7
             in (child_base + rsp_off, mem8))"

text \<open>
  A pointer is \<^verbatim>\<open>None\<close> when it is null; with its count it denotes a vector, unless it is null and the count is not zero.
\<close>

definition vector :: "u32 \<Rightarrow> 'a list option \<Rightarrow> 'a list option" where
  "vector n v = (case v of None \<Rightarrow> if n \<noteq> 0 then None else Some [] | Some xs \<Rightarrow> Some (take (unat n) xs))"

definition prog_stack_build ::
    "bool \<Rightarrow> u64 \<Rightarrow> u64 \<Rightarrow> bytes list option \<Rightarrow> u32 \<Rightarrow> bytes list option \<Rightarrow> u32 \<Rightarrow>
     (u64 \<times> u64) list option \<Rightarrow> u32 \<Rightarrow> membytes \<Rightarrow> u64 \<times> membytes" where
  "prog_stack_build map_base child_base bytes argv argc envp envc aux auxc mem =
     (if \<not> map_base \<or> bytes < 64 then (0, mem)
      else case vector argc argv of None \<Rightarrow> (0, mem)
      | Some as \<Rightarrow> (case vector envc envp of None \<Rightarrow> (0, mem)
        | Some es \<Rightarrow> (case vector auxc aux of None \<Rightarrow> (0, mem)
          | Some xs \<Rightarrow> stack_write child_base bytes as es xs mem)))"

text \<open>What the entry point of a program reads: a word, and a string up to its terminator.\<close>

definition load_word :: "membytes \<Rightarrow> nat \<Rightarrow> u64" where
  "load_word mem off = foldr (\<lambda>b w. push_bit 8 w OR ucast (mem (off + b))) [0..<8] 0"

primrec load_string :: "nat \<Rightarrow> membytes \<Rightarrow> nat \<Rightarrow> bytes" where
  "load_string 0 mem off = []"
| "load_string (Suc n) mem off = (if mem off = 0 then [] else mem off # load_string n mem (Suc off))"

text \<open>
  The entry point's walk: a vector of addresses up to its null word, the auxiliary vector up to its null
  type, the first argument bounding the walk and every string.  An address is the child's.
\<close>

primrec read_strings :: "nat \<Rightarrow> nat \<Rightarrow> u64 \<Rightarrow> membytes \<Rightarrow> nat \<Rightarrow> bytes list" where
  "read_strings 0 n child_base mem slot = []"
| "read_strings (Suc k) n child_base mem slot =
     (let w = load_word mem slot in
      if w = 0 then [] else load_string n mem (unat (w - child_base)) # read_strings k n child_base mem (slot + 8))"

primrec read_aux :: "nat \<Rightarrow> membytes \<Rightarrow> nat \<Rightarrow> (u64 \<times> u64) list" where
  "read_aux 0 mem slot = []"
| "read_aux (Suc k) mem slot =
     (let t = load_word mem slot in if t = 0 then [] else (t, load_word mem (slot + 8)) # read_aux k mem (slot + 16))"

definition stack_read :: "nat \<Rightarrow> u64 \<Rightarrow> membytes \<Rightarrow> nat \<Rightarrow> u64 \<times> bytes list \<times> bytes list \<times> (u64 \<times> u64) list" where
  "stack_read n child_base mem r =
     (let argv = read_strings n n child_base mem (r + 8); e = r + 8 + 8 * (length argv + 1);
          envp = read_strings n n child_base mem e; a = e + 8 * (length envp + 1)
      in (load_word mem r, argv, envp, read_aux n mem a))"

text \<open>A zeroed page and a program called with one argument and one variable.\<close>

definition sample_argv :: "bytes list" where "sample_argv = [[115, 104], [45]]"
definition sample_envp :: "bytes list" where "sample_envp = [[65, 61, 49]]"

subsection \<open>The layout\<close>

text \<open>The bytes of a vector of words, of a block of strings, and the child's addresses of the strings.\<close>

definition words :: "u64 list \<Rightarrow> bytes" where
  "words ws = concat (map word_bytes ws)"

definition strings :: "bytes list \<Rightarrow> bytes" where
  "strings ss = concat (map (\<lambda>s. s @ [0]) ss)"

primrec addresses :: "u64 \<Rightarrow> nat \<Rightarrow> bytes list \<Rightarrow> u64 list" where
  "addresses child_base cursor [] = []"
| "addresses child_base cursor (s # ss) = (child_base + of_nat cursor) # addresses child_base (cursor + (length s + 1)) ss"

text \<open>What fits in the region, and the words of the vectors from the stack pointer up.\<close>

definition vec_size :: "bytes list \<Rightarrow> bytes list \<Rightarrow> (u64 \<times> u64) list \<Rightarrow> nat" where
  "vec_size argv envp aux = 8 * (length argv + length envp + 2 * length aux + 5)"

definition str_start :: "u64 \<Rightarrow> bytes list \<Rightarrow> bytes list \<Rightarrow> nat" where
  "str_start bytes argv envp = (unat bytes - (str_size argv + str_size envp)) div 8 * 8"

definition rsp_start :: "u64 \<Rightarrow> bytes list \<Rightarrow> bytes list \<Rightarrow> (u64 \<times> u64) list \<Rightarrow> nat" where
  "rsp_start bytes argv envp aux = (str_start bytes argv envp - vec_size argv envp aux) div 16 * 16"

definition fits :: "u64 \<Rightarrow> bytes list \<Rightarrow> bytes list \<Rightarrow> (u64 \<times> u64) list \<Rightarrow> bool" where
  "fits bytes argv envp aux \<longleftrightarrow> str_size argv + str_size envp \<le> unat bytes \<and>
     vec_size argv envp aux \<le> str_start bytes argv envp"

definition stack_words :: "u64 \<Rightarrow> u64 \<Rightarrow> bytes list \<Rightarrow> bytes list \<Rightarrow> (u64 \<times> u64) list \<Rightarrow> u64 list" where
  "stack_words child_base bytes argv envp aux =
     (let off = str_start bytes argv envp in
      of_nat (length argv) # addresses child_base off argv @ 0 # addresses child_base (off + str_size argv) envp @ 0 #
        concat (map (\<lambda>(t, v). [t, v]) aux) @ [0, 0])"

text \<open>Counts are 32-bit, the indices of the auxiliary vector do not wrap, and the strings lie in memory.\<close>

definition stack_args :: "bytes list \<Rightarrow> bytes list \<Rightarrow> (u64 \<times> u64) list \<Rightarrow> bool" where
  "stack_args argv envp aux \<longleftrightarrow> length argv < 2 ^ 32 \<and> length envp < 2 ^ 32 \<and> length aux < 2 ^ 31 - 1 \<and>
     str_size argv + str_size envp < 2 ^ 64"

subsection \<open>Blocks\<close>

lemma length_word_bytes [simp]: "length (word_bytes v) = 8"
  by (simp add: word_bytes_def)

lemma write_append: "write_block (off + length as) bs (write_block off as mem) = write_block off (as @ bs) mem"
  by (auto simp: write_block_def nth_append fun_eq_iff)

lemma write_commute:
  "off + length as \<le> off' \<Longrightarrow> write_block off' bs (write_block off as mem) = write_block off as (write_block off' bs mem)"
  by (auto simp: write_block_def fun_eq_iff)

lemma write_empty [simp]: "write_block off [] mem = mem"
  by (auto simp: write_block_def fun_eq_iff)

lemma words_simps [simp]: "words [] = []" "words (w # ws) = word_bytes w @ words ws" "words (ws @ vs) = words ws @ words vs"
  "length (words ws) = 8 * length ws"
  by (simp_all add: words_def length_concat comp_def sum_list_triv)

lemma strings_simps [simp]: "strings [] = []" "strings (s # ss) = s @ 0 # strings ss" "strings (ss @ ts) = strings ss @ strings ts"
  "length (strings ss) = str_size ss"
  by (simp_all add: strings_def str_size_def length_concat comp_def)

lemma str_size_simps [simp]: "str_size [] = 0" "str_size (s # ss) = length s + 1 + str_size ss"
  by (simp_all add: str_size_def)

lemma length_addresses [simp]: "length (addresses b c ss) = length ss"
  by (induction ss arbitrary: c) auto

text \<open>The interleaved loop writes one block of strings and one block of addresses below it.\<close>

lemma put_strings_spec:
  "slot + 8 * length ss \<le> cursor \<Longrightarrow> put_strings b ss cursor slot mem =
     (cursor + str_size ss, write_block slot (words (addresses b cursor ss)) (write_block cursor (strings ss) mem))"
proof (induction ss arbitrary: cursor slot mem)
  case (Cons s ss)
  let ?c = "cursor + (length s + 1)"
  let ?a = "word_bytes (b + of_nat cursor)" and ?as = "words (addresses b ?c ss)"
  let ?m = "write_block cursor (s @ [0]) mem"
  have "put_strings b (s # ss) cursor slot mem =
    (?c + str_size ss, write_block (slot + 8) ?as (write_block ?c (strings ss) (write_block slot ?a ?m)))"
    using Cons.IH [of "slot + 8" ?c] Cons.prems by (simp add: store_word_def)
  also have "write_block ?c (strings ss) (write_block slot ?a ?m) = write_block slot ?a (write_block ?c (strings ss) ?m)"
    using Cons.prems by (intro write_commute) simp
  also have "write_block ?c (strings ss) ?m = write_block cursor (strings (s # ss)) mem"
    using write_append [of cursor "s @ [0]" "strings ss" mem] by simp
  also have "write_block (slot + 8) ?as (write_block slot ?a (write_block cursor (strings (s # ss)) mem)) =
    write_block slot (words (addresses b cursor (s # ss))) (write_block cursor (strings (s # ss)) mem)"
    using write_append [of slot ?a ?as] by simp
  finally show ?case by simp
qed simp

lemma aux_slots:
  assumes "unat i < 2 ^ 31 - 1"
  shows "unat (i + 1 :: u32) = unat i + 1" "aux_slot auxp (i * 2) = auxp + 16 * unat i" "aux_slot auxp (i * 2 + 1) = auxp + 16 * unat i + 8"
proof -
  have d: "unat (i * 2) = unat i * 2" using assms by (simp add: unat_word_ariths)
  then show "aux_slot auxp (i * 2) = auxp + 16 * unat i" by (simp add: aux_slot_def)
  have "unat (i * 2 + 1) = unat i * 2 + 1" using assms d by (subst unat_word_ariths) simp
  then show "aux_slot auxp (i * 2 + 1) = auxp + 16 * unat i + 8" by (simp add: aux_slot_def)
  show "unat (i + 1) = unat i + 1" using assms by (subst unat_word_ariths) simp
qed

lemma put_aux_spec:
  "unat i + length aux \<le> 2 ^ 31 - 1 \<Longrightarrow> put_aux i aux auxp mem =
     write_block (auxp + 16 * unat i) (words (concat (map (\<lambda>(t, v). [t, v]) aux))) mem"
proof (induction aux arbitrary: i mem)
  case (Cons a aux)
  obtain t v where a: "a = (t, v)" by fastforce
  let ?s = "auxp + 16 * unat i" and ?w = "words (concat (map (\<lambda>(t, v). [t, v]) aux))"
  have "unat i < 2 ^ 31 - 1" using Cons.prems by simp
  note sl = aux_slots [OF this]
  have "put_aux (i + 1) aux auxp m = write_block (?s + 16) ?w m" for m
    using Cons.IH [of "i + 1" m] Cons.prems sl(1) by (simp add: algebra_simps)
  then show ?case using write_append [of ?s "word_bytes t" "word_bytes v" mem]
      write_append [of ?s "word_bytes t @ word_bytes v" ?w mem] sl
    by (simp add: a store_word_def)
qed simp

lemma length_aux [simp]: "length (concat (map (\<lambda>(t, v). [t, v]) aux)) = 2 * length aux"
  by (induction aux) auto

lemma length_stack_words: "8 * length (stack_words b bytes argv envp aux) = vec_size argv envp aux"
  by (simp add: stack_words_def vec_size_def Let_def)

lemma size_words:
  assumes "stack_args argv envp aux"
  shows "unat (of_nat (str_size argv + str_size envp) :: u64) = str_size argv + str_size envp"
    "unat ((1 + of_nat (length argv) + 1 + of_nat (length envp) + 1 + (of_nat (length aux) + 1) * 2) * 8 :: u64) = vec_size argv envp aux"
proof -
  show "unat (of_nat (str_size argv + str_size envp) :: u64) = str_size argv + str_size envp"
    using assms by (simp only: unat_of_nat stack_args_def) simp
  have "vec_size argv envp aux < 2 ^ 64" using assms by (simp add: vec_size_def stack_args_def)
  moreover have "((1 + of_nat (length argv) + 1 + of_nat (length envp) + 1 + (of_nat (length aux) + 1) * 2) * 8 :: u64) =
      of_nat (vec_size argv envp aux)" by (simp add: vec_size_def algebra_simps)
  ultimately show "unat ((1 + of_nat (length argv) + 1 + of_nat (length envp) + 1 + (of_nat (length aux) + 1) * 2) * 8 :: u64) = vec_size argv envp aux"
    by (simp only: unat_of_nat) simp
qed

lemma write_next: "write_block off' bs (write_block off as mem) = write_block off (as @ bs) mem" if "off' = off + length as"
  using write_append that by simp

text \<open>The writes of the body, in order, from the offsets it computes.\<close>

lemma build_writes:
  assumes "r + vec_size argv envp aux \<le> off" "length aux < 2 ^ 31 - 1"
  defines "argp \<equiv> r + 8"
  defines "envpp \<equiv> argp + 8 * (length argv + 1)"
  defines "auxp \<equiv> envpp + 8 * (length envp + 1)"
  assumes "put_strings b argv off argp mem = (c1, m1)"
    and "put_strings b envp c1 envpp (store_word (argp + 8 * length argv) 0 m1) = (c2, m3)"
  shows "store_word r (of_nat (length argv)) (store_word (aux_slot auxp (of_nat (length aux) * 2 + 1)) 0 (store_word (aux_slot auxp (of_nat (length aux) * 2)) 0
      (put_aux 0 aux auxp (store_word (envpp + 8 * length envp) 0 m3)))) =
    write_block r (words (of_nat (length argv) # addresses b off argv @ 0 # addresses b (off + str_size argv) envp @ 0 #
      concat (map (\<lambda>(t, v). [t, v]) aux) @ [0, 0])) (write_block off (strings (argv @ envp)) mem)"
proof -
  let ?a = "words (addresses b off argv @ [0])" and ?e = "words (addresses b c1 envp)"
  let ?M = "write_block off (strings (argv @ envp)) mem"
  have al: "unat (of_nat (length aux) :: u32) = length aux" using assms(2) by (simp add: unat_of_nat)
  then have "unat (of_nat (length aux) :: u32) < 2 ^ 31 - 1" using assms(2) by simp
  note sl = aux_slots(2,3) [OF this, unfolded al]
  have pa: "put_aux 0 aux auxp m = write_block auxp (words (concat (map (\<lambda>(t, v). [t, v]) aux))) m" for m
    using put_aux_spec [of 0 aux auxp m] assms(2) by simp
  have m1: "c1 = off + str_size argv" "m1 = write_block argp (words (addresses b off argv)) (write_block off (strings argv) mem)"
    using put_strings_spec [of argp argv off b mem] assms(1,6) by (auto simp: argp_def vec_size_def)
  have m2: "store_word (argp + 8 * length argv) 0 m1 = write_block argp ?a (write_block off (strings argv) mem)"
    unfolding m1(2) store_word_def by (subst write_next) simp_all
  have "m3 = write_block envpp ?e (write_block c1 (strings envp) (write_block argp ?a (write_block off (strings argv) mem)))"
    using put_strings_spec [of envpp envp c1 b] assms(1,7) m1(1) m2 by (simp add: envpp_def argp_def vec_size_def)
  also have "write_block c1 (strings envp) (write_block argp ?a (write_block off (strings argv) mem)) = write_block argp ?a ?M"
    using assms(1) m1(1) by (subst write_commute) (simp_all add: argp_def vec_size_def write_append [of off "strings argv", simplified])
  finally have m3: "m3 = write_block argp (?a @ ?e) ?M" by (simp add: write_next envpp_def)
  have "store_word (aux_slot auxp (of_nat (length aux) * 2 + 1)) 0 (store_word (aux_slot auxp (of_nat (length aux) * 2)) 0
      (put_aux 0 aux auxp (store_word (envpp + 8 * length envp) 0 m3))) =
    write_block argp (?a @ ?e @ words (0 # concat (map (\<lambda>(t, v). [t, v]) aux) @ [0, 0])) ?M"
    unfolding m3 sl pa store_word_def by (simp add: write_next envpp_def auxp_def)
  then show ?thesis unfolding store_word_def m1(1)
    by (simp add: argp_def write_commute [of r "word_bytes (of_nat (length argv))" "r + 8", symmetric] write_next [of "r + 8" r])
qed

lemma fits_bounds:
  assumes "fits bytes argv envp aux"
  shows "rsp_start bytes argv envp aux + vec_size argv envp aux \<le> str_start bytes argv envp"
    "str_start bytes argv envp + (str_size argv + str_size envp) \<le> unat bytes"
proof -
  have "vec_size argv envp aux \<le> str_start bytes argv envp" "str_size argv + str_size envp \<le> unat bytes"
    using assms by (simp_all add: fits_def)
  moreover have "rsp_start bytes argv envp aux \<le> str_start bytes argv envp - vec_size argv envp aux"
    "str_start bytes argv envp \<le> unat bytes - (str_size argv + str_size envp)"
    by (simp_all add: rsp_start_def str_start_def)
  ultimately show "rsp_start bytes argv envp aux + vec_size argv envp aux \<le> str_start bytes argv envp"
    "str_start bytes argv envp + (str_size argv + str_size envp) \<le> unat bytes" by linarith+
qed

lemma build_spec:
  assumes "stack_args argv envp aux"
  shows "stack_write b bytes argv envp aux mem =
    (if fits bytes argv envp aux
     then (b + of_nat (rsp_start bytes argv envp aux),
       write_block (rsp_start bytes argv envp aux) (words (stack_words b bytes argv envp aux))
         (write_block (str_start bytes argv envp) (strings (argv @ envp)) mem))
     else (0, mem))"
proof -
  define sb where "sb = (of_nat (str_size argv + str_size envp) :: u64)"
  define vb where "vb = ((1 + of_nat (length argv) + 1 + of_nat (length envp) + 1 + (of_nat (length aux) + 1) * 2) * 8 :: u64)"
  define so where "so = (bytes - sb) AND NOT 7"
  define ro where "ro = (so - vb) AND NOT 15"
  have u: "unat sb = str_size argv + str_size envp" "unat vb = vec_size argv envp aux"
    using size_words [OF assms] by (simp_all add: sb_def vb_def)
  have m: "(7 :: u64) = mask 3" "(15 :: u64) = mask 4" by (simp_all add: mask_eq_exp_minus_1)
  have so: "unat so = str_start bytes argv envp" if "\<not> sb > bytes"
    using that u unfolding so_def m clear_low_nat by (simp add: str_start_def unat_sub word_le_nat_alt not_less)
  have ro: "unat ro = rsp_start bytes argv envp aux" if "\<not> sb > bytes" "\<not> vb > so"
    using that u so unfolding ro_def m clear_low_nat by (simp add: rsp_start_def unat_sub word_le_nat_alt not_less)
  have f: "fits bytes argv envp aux \<longleftrightarrow> \<not> sb > bytes \<and> \<not> vb > so"
    using u so by (auto simp: fits_def word_less_nat_alt)
  show ?thesis
  proof (cases "fits bytes argv envp aux")
    case False
    then show ?thesis unfolding f stack_write_def Let_def sb_def [symmetric] vb_def [symmetric] so_def [symmetric] by auto
  next
    case True
    let ?p = "unat ro + 8"
    let ?q = "?p + 8 * (length argv + 1)"
    obtain c1 m1 where s1: "put_strings b argv (unat so) ?p mem = (c1, m1)" by fastforce
    obtain c2 m3 where s2: "put_strings b envp c1 ?q (store_word (?p + 8 * length argv) 0 m1) = (c2, m3)" by fastforce
    have le: "unat ro + vec_size argv envp aux \<le> unat so"
      using True so ro f fits_bounds(1) by simp
    have al: "length aux < 2 ^ 31 - 1" using assms by (simp add: stack_args_def)
    have r: "unat ro = rsp_start bytes argv envp aux" "unat so = str_start bytes argv envp" using True f so ro by auto
    have "stack_write b bytes argv envp aux mem = (b + ro, write_block (unat ro) (words (stack_words b bytes argv envp aux))
        (write_block (unat so) (strings (argv @ envp)) mem))"
      using True build_writes [OF le al s1 s2] r(2)
      unfolding f stack_write_def Let_def sb_def [symmetric] vb_def [symmetric] so_def [symmetric] ro_def [symmetric]
        s1 prod.case s2 by (simp add: stack_words_def Let_def)
    then show ?thesis using True by (simp add: r [symmetric])
  qed
qed

subsection \<open>Reading it back\<close>

lemma load_word_bytes:
  assumes "\<And>i. i < 8 \<Longrightarrow> mem (off + i) = word_bytes v ! i"
  shows "load_word mem off = v"
proof -
  have telescope: "push_bit 8 (drop_bit (8 + n) v) OR ucast (ucast (drop_bit n v) :: u8) = drop_bit n v" for n
    by (rule bit_word_eqI) (auto simp: bit_simps not_less add.commute add.left_commute)
  have "foldr (\<lambda>b w. push_bit 8 w OR ucast (mem (off + b))) [k..<8] 0 = drop_bit (8 * k) v" if "k \<le> 8" for k
    using that
  proof (induction k rule: inc_induct)
    case base
    have "drop_bit 64 v = 0" by (rule bit_word_eqI) (auto simp: bit_simps dest: bit_imp_le_length)
    then show ?case by simp
  next
    case (step k)
    then show ?case using assms [of k] telescope [of "8 * k"] by (simp add: upt_rec [of k] word_bytes_def)
  qed
  from this [of 0] show ?thesis by (simp add: load_word_def)
qed

lemma words_nth: "j < length ws \<Longrightarrow> i < 8 \<Longrightarrow> words ws ! (8 * j + i) = word_bytes (ws ! j) ! i"
proof (induction ws arbitrary: j)
  case (Cons w ws)
  show ?case
  proof (cases j)
    case 0
    then show ?thesis using Cons.prems by (simp add: nth_append)
  next
    case (Suc k)
    then show ?thesis using Cons by (simp add: nth_append)
  qed
qed simp

lemma load_words:
  assumes "j < length ws"
  shows "load_word (write_block off (words ws) mem) (off + 8 * j) = ws ! j"
  by (rule load_word_bytes) (use assms words_nth [OF assms] in \<open>simp add: write_block_def algebra_simps\<close>)

lemma load_string_spec:
  assumes "\<And>i. i < length s \<Longrightarrow> mem (off + i) = s ! i" "0 \<notin> set s" "mem (off + length s) = 0" "length s < n"
  shows "load_string n mem off = s"
  using assms
proof (induction s arbitrary: off n)
  case Nil
  then show ?case by (cases n) auto
next
  case (Cons x s)
  obtain k where n: "n = Suc k" using Cons.prems(4) by (cases n) auto
  have "mem off = x" using Cons.prems(1) [of 0] by simp
  moreover have "load_string k mem (Suc off) = s"
    using Cons.prems(1) [of "Suc _"] Cons.prems(2-4) n by (intro Cons.IH) auto
  ultimately show ?case using Cons.prems(2) n by auto
qed

lemma read_strings_spec:
  assumes "\<And>i. i < length ss \<Longrightarrow> load_word mem (slot + 8 * i) = addresses b c ss ! i"
    and "load_word mem (slot + 8 * length ss) = 0" and "\<And>i. i < str_size ss \<Longrightarrow> mem (c + i) = strings ss ! i"
    and "\<forall>s\<in>set ss. 0 \<notin> set s" "length ss < k" "str_size ss \<le> n" "0 < c" "unat b + c + str_size ss \<le> 2 ^ 64"
  shows "read_strings k n b mem slot = ss"
  using assms
proof (induction ss arbitrary: slot c k)
  case Nil
  then show ?case by (cases k) auto
next
  case (Cons s ss)
  obtain j where k: "k = Suc j" using Cons.prems(5) by (cases k) auto
  have w: "load_word mem slot = b + of_nat c" using Cons.prems(1) [of 0] by simp
  have c: "unat (of_nat c :: u64) = c" using Cons.prems(8) by (simp add: unat_of_nat)
  have "unat (b + of_nat c) = unat b + c" using Cons.prems(8) c by (subst unat_plus_if') auto
  then have nz: "b + of_nat c \<noteq> 0" using Cons.prems(7) by (metis add_is_0 not_gr_zero unat_0)
  have m: "mem (c + i) = s ! i" if "i < length s" for i using Cons.prems(3) [of i] that by (simp add: nth_append)
  have z: "mem (c + length s) = 0" using Cons.prems(3) [of "length s"] by (simp add: nth_append)
  have "load_string n mem c = s" using m z Cons.prems(4,6) by (intro load_string_spec) auto
  moreover have "read_strings j n b mem (slot + 8) = ss"
  proof (rule Cons.IH [of _ "c + (length s + 1)"])
    show "load_word mem (slot + 8 + 8 * i) = addresses b (c + (length s + 1)) ss ! i" if "i < length ss" for i
      using Cons.prems(1) [of "Suc i"] that by (simp add: algebra_simps)
    show "mem (c + (length s + 1) + i) = strings ss ! i" if "i < str_size ss" for i
      using Cons.prems(3) [of "length s + 1 + i"] that by (simp add: nth_append algebra_simps)
  qed (use Cons.prems(2,4-8) k in \<open>auto simp: algebra_simps\<close>)
  ultimately show ?case using nz c by (simp add: k w Let_def)
qed

lemma read_aux_spec:
  assumes "\<And>i. i < 2 * length aux + 1 \<Longrightarrow> load_word mem (slot + 8 * i) = (concat (map (\<lambda>(t, v). [t, v]) aux) @ [0]) ! i"
    and "0 \<notin> fst ` set aux" "length aux < k"
  shows "read_aux k mem slot = aux"
  using assms
proof (induction aux arbitrary: slot k)
  case Nil
  then show ?case by (cases k) auto
next
  case (Cons a aux)
  obtain t v where a: "a = (t, v)" by fastforce
  obtain j where k: "k = Suc j" using Cons.prems(3) by (cases k) auto
  have "read_aux j mem (slot + 16) = aux"
  proof (rule Cons.IH)
    show "load_word mem (slot + 16 + 8 * i) = (concat (map (\<lambda>(t, v). [t, v]) aux) @ [0]) ! i" if "i < 2 * length aux + 1" for i
      using Cons.prems(1) [of "i + 2"] that by (simp add: a algebra_simps)
  qed (use Cons.prems(2,3) k in auto)
  then show ?case using Cons.prems(1) [of 0] Cons.prems(1) [of 1] Cons.prems(2) by (auto simp: a k Let_def)
qed

lemma load_words_at:
  assumes "W = us @ ws @ vs" "i < length ws"
  shows "load_word (write_block off (words W) mem) (off + 8 * length us + 8 * i) = ws ! i"
  using load_words [of "length us + i" W off mem] assms by (simp add: nth_append algebra_simps del: words_simps)

lemma stack_read_back:
  assumes "fits bytes argv envp aux" "\<forall>s\<in>set (argv @ envp). 0 \<notin> set s" "0 \<notin> fst ` set aux" "unat b + unat bytes \<le> 2 ^ 64"
  defines "r \<equiv> rsp_start bytes argv envp aux" and "off \<equiv> str_start bytes argv envp" and "W \<equiv> stack_words b bytes argv envp aux"
  shows "stack_read (unat bytes) b (write_block r (words W) (write_block off (strings (argv @ envp)) mem)) r =
    (of_nat (length argv), argv, envp, aux)"
proof -
  define m where "m = write_block r (words W) (write_block off (strings (argv @ envp)) mem)"
  let ?n = "unat bytes" and ?A = "addresses b off argv" and ?E = "addresses b (off + str_size argv) envp"
    and ?X = "concat (map (\<lambda>(t, v). [t, v]) aux) @ [0]"
  have W: "W = of_nat (length argv) # ?A @ 0 # ?E @ 0 # ?X @ [0]" by (simp add: W_def stack_words_def off_def Let_def)
  have at: "load_word m (r + 8 * length us + 8 * i) = ws ! i" if "W = us @ ws @ vs" "i < length ws" for us ws vs i
    unfolding m_def by (rule load_words_at [OF that])
  have A: "load_word m (r + 8 + 8 * i) = (?A @ [0]) ! i" if "i < length argv + 1" for i
    using at [of "[of_nat (length argv)]" "?A @ [0]" "?E @ 0 # ?X @ [0]" i] that W by simp
  have E: "load_word m (r + 8 + 8 * (length argv + 1) + 8 * i) = (?E @ [0]) ! i" if "i < length envp + 1" for i
    using at [of "of_nat (length argv) # ?A @ [0]" "?E @ [0]" "?X @ [0]" i] that W by (simp add: algebra_simps)
  have X: "load_word m (r + 8 + 8 * (length argv + 1) + 8 * (length envp + 1) + 8 * i) = ?X ! i" if "i < 2 * length aux + 1" for i
    using at [of "of_nat (length argv) # ?A @ 0 # ?E @ [0]" ?X "[0]" i] that W by (simp add: algebra_simps)
  have le: "r + vec_size argv envp aux \<le> off" "off + (str_size argv + str_size envp) \<le> ?n"
    using fits_bounds [OF assms(1)] by (simp_all add: r_def off_def)
  have S: "m (off + i) = strings (argv @ envp) ! i" if "i < str_size argv + str_size envp" for i
    using that le(1) length_stack_words [of b bytes argv envp aux] by (simp add: m_def write_block_def W_def)
  have len: "length argv < ?n" "length envp < ?n" "length aux < ?n" "0 < off" using le by (auto simp: vec_size_def)
  have a: "read_strings ?n ?n b m (r + 8) = argv"
  proof (rule read_strings_spec [where c = off])
    show "load_word m (r + 8 + 8 * i) = ?A ! i" if "i < length argv" for i using A [of i] that by (simp add: nth_append)
    show "m (off + i) = strings argv ! i" if "i < str_size argv" for i using S [of i] that by (simp add: nth_append)
  qed (use A [of "length argv"] assms(2,4) le len in \<open>auto simp: nth_append\<close>)
  have e: "read_strings ?n ?n b m (r + 8 + 8 * (length argv + 1)) = envp"
  proof (rule read_strings_spec [where c = "off + str_size argv"])
    show "load_word m (r + 8 + 8 * (length argv + 1) + 8 * i) = ?E ! i" if "i < length envp" for i
      using E [of i] that by (simp add: nth_append)
    show "m (off + str_size argv + i) = strings envp ! i" if "i < str_size envp" for i
      using S [of "str_size argv + i"] that by (simp add: nth_append algebra_simps)
  qed (use E [of "length envp"] assms(2,4) le len in \<open>auto simp: nth_append\<close>)
  have x: "read_aux ?n m (r + 8 + 8 * (length argv + 1) + 8 * (length envp + 1)) = aux"
    by (rule read_aux_spec) (use X assms(3) len in auto)
  have "load_word m r = of_nat (length argv)" using at [of "[]" "[of_nat (length argv)]" "?A @ 0 # ?E @ 0 # ?X @ [0]" 0] W by simp
  then show ?thesis unfolding stack_read_def Let_def m_def [symmetric] a e x by simp
qed

text \<open>
  C34.  The stack builder, with its two interleaved string loops and its 32-bit indices, returns zero and
  writes nothing when the region is missing, is under 64 bytes or cannot hold the strings and the vectors;
  otherwise it writes exactly the strings at the top and the System V vectors below them, and returns the
  child's address of the argument count.
\<close>

theorem stack_layout:
  assumes "vector argc argv = Some as" "vector envc envp = Some es" "vector auxc aux = Some xs" "stack_args as es xs"
  shows "prog_stack_build map_base child_base bytes argv argc envp envc aux auxc mem =
    (if map_base \<and> 64 \<le> bytes \<and> fits bytes as es xs
     then (child_base + of_nat (rsp_start bytes as es xs),
       write_block (rsp_start bytes as es xs) (words (stack_words child_base bytes as es xs))
         (write_block (str_start bytes as es) (strings (as @ es)) mem))
     else (0, mem))"
  using assms(1-3) build_spec [OF assms(4)] by (auto simp: prog_stack_build_def not_less)

theorem stack_layout_witness:
  "fst (prog_stack_build True 28672 4096 (Some sample_argv) 2 (Some sample_envp) 1 (Some [(6, 4096)]) 1 (\<lambda>_. 0)) = 32672 \<and>
   prog_stack_build True 28672 64 (Some sample_argv) 2 (Some sample_envp) 1 (Some [(6, 4096)]) 1 (\<lambda>_. 0) = (0, \<lambda>_. 0)"
proof -
  have v: "vector 2 (Some sample_argv) = Some sample_argv" "vector 1 (Some sample_envp) = Some sample_envp"
    "vector 1 (Some [(6 :: u64, 4096 :: u64)]) = Some [(6, 4096)]"
    by (simp_all add: vector_def sample_argv_def sample_envp_def)
  have "stack_args sample_argv sample_envp [(6, 4096)]" by (simp add: stack_args_def sample_argv_def sample_envp_def)
  note stack_layout [OF v this]
  then show ?thesis by (simp add: fits_def rsp_start_def str_start_def vec_size_def sample_argv_def sample_envp_def)
qed

text \<open>
  C35.  A program that starts on the stack built for it and walks the vectors the way a C runtime does
  finds the count, the arguments, the environment and the auxiliary vector it was given, through addresses
  of its own address space; the stack pointer lies at a multiple of sixteen from the base of the region, and
  no byte above the region is written.
\<close>

theorem stack_roundtrip:
  assumes "vector argc argv = Some as" "vector envc envp = Some es" "vector auxc aux = Some xs" "stack_args as es xs"
    and "64 \<le> bytes" "fits bytes as es xs" "unat child_base + unat bytes \<le> 2 ^ 64"
    and "\<forall>s\<in>set (as @ es). 0 \<notin> set s" "0 \<notin> fst ` set xs"
    and "prog_stack_build True child_base bytes argv argc envp envc aux auxc mem = (rsp, mem')"
  shows "stack_read (unat bytes) child_base mem' (unat (rsp - child_base)) = (of_nat (length as), as, es, xs) \<and>
    16 dvd unat (rsp - child_base) \<and> (\<forall>a. unat bytes \<le> a \<longrightarrow> mem' a = mem a)"
proof -
  define r where "r = rsp_start bytes as es xs"
  have pb: "prog_stack_build True child_base bytes argv argc envp envc aux auxc mem = stack_write child_base bytes as es xs mem"
    using assms(1-3,5) by (simp add: prog_stack_build_def not_less [symmetric])
  have m: "rsp = child_base + of_nat r" "mem' = write_block r (words (stack_words child_base bytes as es xs))
      (write_block (str_start bytes as es) (strings (as @ es)) mem)"
    using assms(6,10) pb build_spec [OF assms(4), of child_base bytes mem] by (simp_all add: r_def)
  note b = fits_bounds [OF assms(6), folded r_def]
  have "r < 2 ^ 64" using b u64_bound [of bytes] by simp
  then have r: "unat (rsp - child_base) = r" by (simp add: m(1) unat_of_nat)
  have "mem' a = mem a" if "unat bytes \<le> a" for a
    using that b length_stack_words [of child_base bytes as es xs] by (simp add: m(2) write_block_def)
  moreover have "16 dvd r" by (simp add: r_def rsp_start_def)
  ultimately show ?thesis using stack_read_back [OF assms(6,8,9,7)] by (simp add: r m(2) r_def)
qed

theorem stack_roundtrip_witness:
  "let (rsp, mem') = prog_stack_build True 28672 4096 (Some sample_argv) 2 (Some sample_envp) 1 (Some [(6, 4096)]) 1 (\<lambda>_. 0)
   in stack_read 4096 28672 mem' (unat (rsp - 28672)) = (2, sample_argv, sample_envp, [(6, 4096)])"
proof -
  have v: "vector 2 (Some sample_argv) = Some sample_argv" "vector 1 (Some sample_envp) = Some sample_envp"
    "vector 1 (Some [(6 :: u64, 4096 :: u64)]) = Some [(6, 4096)]"
    by (simp_all add: vector_def sample_argv_def sample_envp_def)
  have a: "stack_args sample_argv sample_envp [(6, 4096)]" by (simp add: stack_args_def sample_argv_def sample_envp_def)
  have f: "fits 4096 sample_argv sample_envp [(6, 4096)]"
    by (simp add: fits_def str_start_def vec_size_def sample_argv_def sample_envp_def)
  have z: "\<forall>s\<in>set (sample_argv @ sample_envp). 0 \<notin> set s" "0 \<notin> fst ` set [(6 :: u64, 4096 :: u64)]"
    by (simp_all add: sample_argv_def sample_envp_def)
  obtain rsp m where p: "prog_stack_build True 28672 4096 (Some sample_argv) 2 (Some sample_envp) 1 (Some [(6, 4096)]) 1 (\<lambda>_. 0) = (rsp, m)"
    by fastforce
  show ?thesis using stack_roundtrip [OF v a _ f _ z p] by (simp add: p) (simp add: sample_argv_def)
qed

end
