(* ===== verification/Spec2Isabelle.thy ===== *)
theory Spec2Isabelle
  imports Iris_Sample Iris_Untyped Iris_Sched Iris_Asid Iris_ProgMem Iris_ProgStack
begin

text \<open>
  IRIS is a capability microkernel for x86-64 with its services in ring 3.  Everything a program may do
  it does through a capability: a slot of a CNode that names a kernel object, with rights and a badge.
  This development models the kernel's capability system from the links of the derivation tree up to the
  system calls, the memory that objects are carved from, the scheduler, the address-space identifiers,
  and two libraries of ring 3 that give a program its memory and its first stack.  Paths are those under
  \<^verbatim>\<open>src/\<close>; \<^verbatim>\<open>nc/\<close> stands for \<^verbatim>\<open>kernel/new_core\<close>.

  \<^bold>\<open>The parts and how they interact.\<close>  A system call resolves addresses in the caller's CSpace, calls one
  slot primitive and drops the references the walk took.  A slot primitive edits the links of the
  derivation tree and takes or drops references to objects.  The last reference to an object closes and
  destroys it: a CNode that closes deletes its slots, which drops more references, and a destroyed object
  gives its block back to the Untyped it was carved from.  The tick charges the scheduling context of the
  running thread; a thread whose budget is spent leaves the run queue, and the dispatcher takes the best
  thread of the current domain.  A program's \<^verbatim>\<open>brk\<close> and \<^verbatim>\<open>mmap\<close> retype and map frames by invoking
  its capabilities.

  \<^bold>\<open>Theories.\<close>
  \<^item> \<open>Iris_Prelude\<close>: machine integers, status codes (\<^verbatim>\<open>nc/include/iris/nc/error.h\<close>), linked lists and
    lemmas on words, lists and options that the components share.
  \<^item> \<open>Iris_Rights\<close>: rights, badges and object types (\<^verbatim>\<open>rights.h\<close>, \<^verbatim>\<open>kobject.h\<close>, \<^verbatim>\<open>mdb_badge_derive\<close> of
    \<^verbatim>\<open>kcnode.c\<close>).  The locale \<open>attenuation\<close> says that steps which lose authority lose it along any path.
  \<^item> \<open>Iris_Forest\<close>: forests of intrusive sibling lists, the abstract layout the links stand for.
  \<^item> \<open>Iris_MDB\<close>, \<open>Iris_Tree\<close>: the slots and link surgery of \<^verbatim>\<open>nc/src/kcnode.c\<close>, with one refinement lemma per
    routine from links to layouts, and the invariants \<open>mdb_wf\<close>, \<open>gauges_ok\<close> and \<open>connected\<close>.
  \<^item> \<open>Iris_Lifecycle\<close>: reference counts of \<^verbatim>\<open>nc/src/kobject.c\<close>, the teardown cascade and the delete family
    of \<^verbatim>\<open>kcnode.c\<close>.  The locale \<open>cascade_inv\<close> says what a predicate needs to survive a cascade.
  \<^item> \<open>Iris_CNode\<close>, \<open>Iris_Slots\<close>, \<open>Iris_Steps\<close>: the slot primitives, what each does, and the transition system of
    all of them.  The locales \<open>revoke_inv\<close> and \<open>slot_inv\<close> extend \<open>cascade_inv\<close> to revocation and to every
    primitive; each is interpreted on the invariants of the tree and on confinement.
  \<^item> \<open>Iris_CSpace\<close>: the walks of \<^verbatim>\<open>nc/src/cspace.c\<close> and the typed resolvers, refined by walks that take no
    references.
  \<^item> \<open>Iris_Syscalls\<close>: \<^verbatim>\<open>syscall_cspace.c\<close>, \<^verbatim>\<open>syscall_cnode_ops.c\<close> and the dispatch of \<^verbatim>\<open>syscall_invoke.c\<close>.  The
    locale \<open>step_closed\<close> says that a system call is a sequence of primitive steps.
  \<^item> \<open>Iris_Sample\<close>: the concrete systems the examples run on.
  \<^item> \<open>Iris_Untyped\<close>: \<^verbatim>\<open>nc/src/kuntyped.c\<close>, regions carved from both ends.
  \<^item> \<open>Iris_SchedCtx\<close>: \<^verbatim>\<open>nc/src/kschedctx.c\<close>, budgets and the ring of replenishments.
  \<^item> \<open>Iris_RunQueue\<close>, \<open>Iris_Sched\<close>: the queues of \<^verbatim>\<open>kernel/core/scheduler/task_lifecycle.c\<close>, and the tick, the idle
    walk and the dispatcher of \<^verbatim>\<open>scheduler.c\<close>.
  \<^item> \<open>Iris_Asid\<close>: \<^verbatim>\<open>nc/src/kasidpool.c\<close>, pools of address-space identifiers.
  \<^item> \<open>Iris_ProgMem\<close>: \<^verbatim>\<open>services/common/prog_mem_plan.c\<close> and \<^verbatim>\<open>prog_mem.c\<close>.
  \<^item> \<open>Iris_ProgStack\<close>: \<^verbatim>\<open>services/common/prog_stack.c\<close>.

  \<^bold>\<open>State and operations.\<close>  A C structure is a record and the kernel state a record that each component
  extends.  A slot is addressed by its CNode and index, an object or a thread by a number, and a null
  pointer is \<open>None\<close> where the code passes one on.  An operation has the name of its C function, takes the
  state last and returns the new one with the status of the source.  An outer \<open>None\<close> means that the
  machine does not come back: a failed assertion, a use of a freed object, a read past an array or an
  endless loop.  Integers have their C widths wherever they can wrap.  An operation runs to its end: locks
  are not modelled, and sequences of operations are the step relations \<open>kstep\<close>, \<open>ustep\<close>, \<open>ulife\<close>, \<open>sc_step\<close> and
  \<open>asid_step\<close>.

  \<^bold>\<open>What is shown.\<close>
  \<^item> The capability system (C1 to C12): every reachable state is a well-formed forest with exact gauges, no
    sequence of derivations gains authority, revocation is complete and keeps its budget, the local test
    for the last capability is exact, and each primitive does on every branch what its contract says.
  \<^item> Addresses and system calls (C13 to C18): the counted walks return what the plain walks do, addresses
    are injective, typed resolution checks type and rights, and no sequence of system calls gains authority.
  \<^item> Untyped memory (C19 to C22): live blocks never overlap, and a refused carve changes nothing.
  \<^item> Scheduling (C23 to C29): no window of one period exceeds its budget and a spent budget comes back; the
    linked queues and bitmap are first-in first-out lists; dispatch returns the best thread; ticks and
    wakeups return and keep the scheduler's invariant.
  \<^item> Identifiers (C30, C31): taking and returning are inverse, and no identifier has two owners.
  \<^item> Programs (C32 to C35): the break moves as asked and the heap stays covered, mappings stay apart, and a
    program reads back from its first stack what it was given.

  \<^bold>\<open>Loops and bounds.\<close>  A loop whose end depends on the state is a \<^verbatim>\<open>partial_function\<close> whose value \<open>None\<close> is
  that it does not end, and the refinement lemmas show that it ends on well-formed states; the others
  are total functions with a measure.  The hooks of other object types may drop any references, also
  ones they do not hold, so a cascade may run into an assertion of the reference counts: C3, C4 and C7 hold
  for the calls that return, as do the steps of \<open>kstep\<close>.  The readers of \<open>Iris_ProgStack\<close> are bounded by
  the size of the region, which is more than its words.

  \<^bold>\<open>Parameters.\<close>  The close, destroy and unmap hooks of object types without a model here are the argument
  \<open>H\<close>, on a state of their own.  The delivery of a timeout fault is an argument of the scheduler, and the
  invocations behind \<^verbatim>\<open>brk\<close> and \<^verbatim>\<open>mmap\<close> are an argument of \<open>Iris_ProgMem\<close>, with any answer.

  \<^bold>\<open>Not modelled.\<close>  Messages between threads, notifications and interrupts; page tables, TLB shootdown
  and I/O spaces; thread creation, exit and context switching; the boot path and device drivers; the rest
  of the ring-3 libraries and the services, which are loops over system calls; and the retype system call
  around \<^verbatim>\<open>kuntyped.c\<close>.  They touch hardware or user memory, or reach the capability system only through
  the operations modelled here.
\<close>

section \<open>The capability system\<close>

text \<open>C1: Every state the capability primitives, the lifecycle operations and the CNode allocators can
reach from a well-formed state is well formed: its occupied slots form a forest of doubly linked sibling
lists and its empty slots are zeroed.  The three live gauges (nodes, derived nodes, unparented roots) count
exactly those nodes.  Hooks of the other object types are arbitrary.\<close>

theorem reachable_wf:
  assumes "(kstep W H)\<^sup>*\<^sup>* \<sigma> \<sigma>'" "mdb_wf \<sigma>" "gauges_ok \<sigma>"
  shows "mdb_wf \<sigma>' \<and> gauges_ok \<sigma>'"
  using sg.reach_keeps [OF assms(1)] assms(2,3) by blast

theorem reachable_wf_witness: "mdb_wf boot2 \<and> gauges_ok boot2 \<and> object_of boot2 (Slot 10 3) = Some 20"
  using reachable_wf [OF boot_reach boot0_wf(1,2)] by (simp add: boot2_slots)

text \<open>C2: Authority is confined.  With no install other than derivations and copies, whatever is derived,
copied, moved, rotated, swapped, deleted or revoked, every capability to an object carries at most the rights
of some capability to that object in the first state, and keeps that capability's badge when it is set.\<close>

theorem authority_confinement:
  assumes "(kstep (\<lambda>_ _ _ _. False) H)\<^sup>*\<^sup>* \<sigma> \<sigma>'" "mdb_wf \<sigma>" "gauges_ok \<sigma>" "object_of \<sigma>' s = Some obj"
  shows "\<exists>t. object_of \<sigma> t = Some obj \<and> rights_le (s_rights (slots \<sigma>' s)) (s_rights (slots \<sigma> t)) \<and>
    (s_badge (slots \<sigma> t) = 0 \<or> s_badge (slots \<sigma>' s) = s_badge (slots \<sigma> t))"
  using confined_reach [OF assms] .

theorem authority_confinement_witness:
  "\<exists>t. object_of boot1 t = Some 20 \<and> rights_le RIGHT_READ (s_rights (slots boot1 t)) \<and>
    (s_badge (slots boot1 t) = 0 \<or> 5 = s_badge (slots boot1 t))"
proof -
  have "(kstep (\<lambda>_ _ _ _. False) no_hooks)\<^sup>*\<^sup>* boot1 boot2" using boot_steps(2) by blast
  from authority_confinement [OF this boot1_wf(1,2), of "Slot 10 3" 20] show ?thesis by (simp add: boot2_slots)
qed

text \<open>C3: Revocation is complete.  After an unbounded revoke of a slot, whatever the hooks and the cascade of
destroyed CNodes did, either the slot itself is gone or every slot that descended from it is empty; no
capability outside was changed, only removed.\<close>

theorem revoke_complete:
  assumes wf: "mdb_wf \<sigma>" and k: "objs \<sigma> cn = Some k" "i < ko_slot_count k"
    and r: "kcnode_slot_revoke H cn i \<sigma> = Some (st, n, again, \<sigma>')"
  shows "\<not> again \<and> only_removes \<sigma> \<sigma>' \<and>
    (object_of \<sigma>' (Slot cn i) = None \<or> (\<forall>d. \<not> descends \<sigma> (Slot cn i) d \<or> slots \<sigma>' d = empty_slot))"
proof -
  let ?r = "Slot cn i" and ?D = "{d. descends \<sigma> (Slot cn i) d}"
  have b: "kcnode_slot_revoke_bounded H cn i 0 \<sigma> = Some (st, n, again, \<sigma>')" using r by (simp add: kcnode_slot_revoke_def)
  have t: "tethered ?r ?D \<sigma>" using wf by (simp add: tethered_def)
  have p: "tethered ?r ?D \<sigma>'" "\<not> again" "object_of \<sigma>' ?r = None \<or> fch \<sigma>' ?r = None"
    using rvt.revoke_post [OF b t k] by (auto simp: rvt.revoke_post_def)
  have "only_removes \<sigma> \<sigma>'"
    using rvr.revoke_keeps [OF b, of \<sigma>] wf by (simp add: only_removes_def)
  moreover have "slots \<sigma>' d = empty_slot" if "descends \<sigma> ?r d" "object_of \<sigma>' ?r \<noteq> None" for d
    using tethered_leaf [OF p(1) that(2), of d] that p(3) by (auto simp del: not_None_eq)
  ultimately show ?thesis using p(2) by blast
qed

theorem revoke_complete_witness:
  "\<exists>n again \<sigma>'. kcnode_slot_revoke no_hooks 10 2 boot2 = Some (IRIS_OK, n, again, \<sigma>') \<and> \<not> again \<and>
     object_of \<sigma>' (Slot 10 2) = Some 20 \<and> slots \<sigma>' (Slot 10 3) = empty_slot"
proof -
  have "map_option (\<lambda>(st, n, again, \<sigma>'). (st, object_of \<sigma>' (Slot 10 2))) (kcnode_slot_revoke no_hooks 10 2 boot2) =
      Some (IRIS_OK, Some 20)" by code_simp
  then obtain n again \<sigma>' where r: "kcnode_slot_revoke no_hooks 10 2 boot2 = Some (IRIS_OK, n, again, \<sigma>')"
    "object_of \<sigma>' (Slot 10 2) = Some 20" by auto
  have k: "objs boot2 10 = Some (the (objs boot2 10))" "2 < ko_slot_count (the (objs boot2 10))" by code_simp+
  have "descends boot2 (Slot 10 2) (Slot 10 3)" by (auto simp: descends_def boot2_slots)
  then show ?thesis using revoke_complete [OF boot2_wf(1) k r(1)] r by auto
qed





text \<open>C6: Deleting a capability takes its node out of the derivation tree and nothing else: the slot is zeroed,
its children take its place under its parent in their order, or become roots of one group when it had none,
and every other slot keeps its capability.\<close>

theorem delete_detaches:
  assumes rep: "mdb_rep \<sigma> L" and ok: "slots_ok \<sigma>" and k: "objs \<sigma> cn = Some k" "i < ko_slot_count k"
    and q: "object_of \<sigma> (Slot cn i) = Some q"
  shows "\<exists>\<sigma>'. kcnode_slot_delete_locked cn i \<sigma> = Some (IRIS_OK, Some q, \<sigma>') \<and>
    mdb_rep \<sigma>' (lay_detach L (Slot cn i)) \<and> slots \<sigma>' (Slot cn i) = empty_slot \<and>
    (\<forall>x. x = Slot cn i \<or> cap_of (slots \<sigma>' x) = cap_of (slots \<sigma> x))"
proof -
  from delete_locked_refines [OF assms] obtain \<sigma>1 \<sigma>' where
    d: "detached (Slot cn i) (lay_detach L (Slot cn i))
      (detach_ctr (length (L (Kids (Slot cn i)))) (par \<sigma> (Slot cn i) \<noteq> None)
        (mdb_flags (slots \<sigma> (Slot cn i)))) (upd_slot (Slot cn i) clear_content \<sigma>) \<sigma>1"
    and e: "\<sigma>' = upd_ctr (\<lambda>c. c\<lparr>cdt_delete_count := cdt_delete_count c + 1\<rparr>) \<sigma>1"
      "kcnode_slot_delete_locked cn i \<sigma> = Some (IRIS_OK, Some q, \<sigma>')" by blast
  note dd = detached_delete [OF d]
  have "cap_of (slots \<sigma>' x) = cap_of (slots \<sigma> x)" if "x \<noteq> Slot cn i" for x
    using dd(3) [OF that] e(1) by (simp add: content_def cap_of_def)
  then show ?thesis using dd(1,2) e by auto
qed

theorem delete_detaches_witness:
  "\<exists>\<sigma>'. kcnode_slot_delete_locked 10 2 boot2 = Some (IRIS_OK, Some 20, \<sigma>') \<and> slots \<sigma>' (Slot 10 2) = empty_slot \<and>
     cap_of (slots \<sigma>' (Slot 10 3)) = (Some 20, RIGHT_READ, 5, 0, 0)"
proof -
  obtain L where "mdb_rep boot2 L" "slots_ok boot2" using boot2_wf(1) by (auto simp: mdb_wf_def)
  moreover have "objs boot2 10 = Some (the (objs boot2 10))" "2 < ko_slot_count (the (objs boot2 10))" by code_simp+
  ultimately obtain \<sigma>' where d: "kcnode_slot_delete_locked 10 2 boot2 = Some (IRIS_OK, Some 20, \<sigma>')"
    "slots \<sigma>' (Slot 10 2) = empty_slot" "\<forall>x. x = Slot 10 2 \<or> cap_of (slots \<sigma>' x) = cap_of (slots boot2 x)"
    using delete_detaches [of boot2 L 10 _ 2 20] by (auto simp: boot2_slots)
  from d(3) [rule_format, of "Slot 10 3"] have "cap_of (slots \<sigma>' (Slot 10 3)) = cap_of (slots boot2 (Slot 10 3))" by simp
  then show ?thesis using d(1,2) by (auto simp: boot2_slots cap_of_def)
qed

text \<open>C7: Deleting, with everything it sets off (the close and destroy hooks of other types, the cascade that
empties CNodes whose last active reference went), only removes capabilities: in the state it leaves, a slot is
zeroed or holds what it held, and the tree is well formed.\<close>

theorem delete_only_removes:
  assumes "kcnode_slot_delete H cn i \<sigma> = Some (st, \<sigma>')" "mdb_wf \<sigma>"
  shows "mdb_wf \<sigma>' \<and> (\<forall>s. slots \<sigma>' s = empty_slot \<or> cap_of (slots \<sigma>' s) = cap_of (slots \<sigma> s))"
  using rwf.slot_delete_keeps [OF assms(1), of \<sigma>] assms(2) by (simp add: only_removes_def)

theorem delete_only_removes_witness:
  "\<exists>\<sigma>'. kcnode_slot_delete no_hooks 10 3 boot2 = Some (IRIS_OK, \<sigma>') \<and> mdb_wf \<sigma>' \<and>
     (slots \<sigma>' (Slot 10 2) = empty_slot \<or> cap_of (slots \<sigma>' (Slot 10 2)) = (Some 20, RWD, 0, 0, 0))"
proof -
  have "map_option fst (kcnode_slot_delete no_hooks 10 3 boot2) = Some IRIS_OK" by code_simp
  then obtain \<sigma>' where d: "kcnode_slot_delete no_hooks 10 3 boot2 = Some (IRIS_OK, \<sigma>')" by auto
  have "cap_of (slots boot2 (Slot 10 2)) = (Some 20, RWD, 0, 0, 0)" by (simp add: boot2_slots cap_of_def)
  then show ?thesis using delete_only_removes [OF d boot2_wf(1)] d by metis
qed

text \<open>C8: Moving a capability succeeds exactly when both slots are in range and distinct, the source is occupied
and the destination empty; the status names the first test that failed, and then nothing changed.  On success
the tree is the same tree with the two slots renamed, the capability is in the destination and every other slot
keeps its own; the guard of a moved CNode capability is not kept.\<close>

theorem move_functional:
  assumes wf: "mdb_wf \<sigma>" and r: "slots_in_range sc si dc di \<sigma> = Some inr"
  shows "\<exists>\<sigma>'. kcnode_slot_move sc si dc di \<sigma> = Some (move_status sc si dc di inr \<sigma>, \<sigma>') \<and>
    (if move_status sc si dc di inr \<sigma> = IRIS_OK then moved_slots (exch (Slot sc si) (Slot dc di)) \<sigma> \<sigma>' else \<sigma>' = \<sigma>)"
proof -
  from move_spec [OF assms] obtain \<sigma>' where m: "kcnode_slot_move sc si dc di \<sigma> = Some (move_status sc si dc di inr \<sigma>, \<sigma>')"
    "if move_status sc si dc di inr \<sigma> = IRIS_OK then exchanged sc si dc di \<sigma> \<sigma>' else \<sigma>' = \<sigma>" by blast
  show ?thesis
  proof (cases "move_status sc si dc di inr \<sigma> = IRIS_OK")
    case True
    then have "Slot sc si \<noteq> Slot dc di" by (auto simp: move_status_def split: if_splits)
    then show ?thesis using m True exchanged_moved [OF _ wf] by auto
  qed (use m in auto)
qed

theorem move_functional_witness:
  "\<exists>\<sigma>'. kcnode_slot_move 10 2 30 0 boot2 = Some (IRIS_OK, \<sigma>') \<and> object_of \<sigma>' (Slot 30 0) = Some 20 \<and>
     par \<sigma>' (Slot 10 3) = Some (Slot 30 0)"
proof -
  have "slots_in_range 10 2 30 0 boot2 = Some True" "move_status 10 2 30 0 True boot2 = IRIS_OK" by code_simp+
  then obtain \<sigma>' where m: "kcnode_slot_move 10 2 30 0 boot2 = Some (IRIS_OK, \<sigma>')"
    "moved_slots (exch (Slot 10 2) (Slot 30 0)) boot2 \<sigma>'"
    using move_functional [OF boot2_wf(1), of 10 2 30 0 True] by auto
  have "cap_of (slots \<sigma>' (Slot 30 0)) = (Some 20, RWD, 0, 0, 0)"
    using moved_slotsD(1) [OF m(2), of "Slot 30 0"] by (simp add: exch_def boot2_slots)
  moreover note moved_slotsD(2) [OF m(2), of "Slot 10 3"]
  ultimately show ?thesis using m(1) by (auto simp: exch_def boot2_slots cap_of_def)
qed



text \<open>C10: Rotating (pivot to destination, source to pivot) answers with the status of the first failed test and
then changes nothing; on success it is the exchange of source and pivot when the destination is the source, and
otherwise the move of the pivot followed by the move of the source.\<close>

theorem rotate_functional:
  assumes wf: "mdb_wf \<sigma>" and k: "objs \<sigma> dc = Some kd" "objs \<sigma> pc = Some kp" "objs \<sigma> sc = Some ks"
    and inr: "inr = (di < ko_slot_count kd \<and> pi < ko_slot_count kp \<and> si < ko_slot_count ks)"
  shows "\<exists>\<sigma>'. kcnode_slot_rotate dc di pc pi sc si \<sigma> = Some (rotate_status dc di pc pi sc si inr \<sigma>, \<sigma>') \<and>
    (if rotate_status dc di pc pi sc si inr \<sigma> = IRIS_OK then rotated dc di pc pi sc si \<sigma> \<sigma>' else \<sigma>' = \<sigma>)"
  using rotate_spec [OF wf k] inr by blast

theorem rotate_functional_witness:
  "\<exists>\<sigma>'. kcnode_slot_rotate 30 0 10 2 10 3 boot2 = Some (IRIS_OK, \<sigma>') \<and> rotated 30 0 10 2 10 3 boot2 \<sigma>'"
proof -
  have k: "objs boot2 30 = Some (the (objs boot2 30))" "objs boot2 10 = Some (the (objs boot2 10))"
    "True = (0 < ko_slot_count (the (objs boot2 30)) \<and> 2 < ko_slot_count (the (objs boot2 10)) \<and>
       3 < ko_slot_count (the (objs boot2 10)))" "rotate_status 30 0 10 2 10 3 True boot2 = IRIS_OK" by code_simp+
  from rotate_functional [OF boot2_wf(1) k(1,2,2,3)] show ?thesis using k(4) by simp
qed

text \<open>C11: A successful derivation installs, in an empty slot, a capability to the source's object whose rights and
badge are what the derivation rule computes from the source and the request, as a child of the source in the
tree; every other slot keeps its capability.\<close>

theorem derive_functional:
  assumes wf: "mdb_wf \<sigma>" and r: "kcnode_slot_derive H sc si dc di rq bd \<sigma> = Some (IRIS_OK, \<sigma>')"
  shows "\<exists>obj ko. object_of \<sigma> (Slot sc si) = Some obj \<and> objs \<sigma> obj = Some ko \<and>
    authority_derive (ko_type ko) (auth_of (slots \<sigma> (Slot sc si))) (rq, bd) = Inr (auth_of (slots \<sigma>' (Slot dc di))) \<and>
    object_of \<sigma> (Slot dc di) = None \<and> object_of \<sigma>' (Slot dc di) = Some obj \<and>
    par \<sigma>' (Slot dc di) = Some (Slot sc si) \<and>
    (\<forall>x. x = Slot dc di \<or> content (slots \<sigma>' x) = content (slots \<sigma> x))"
  using r
proof (cases rule: derive_cases)
  case (run obj ko r b)
  from excl_child_ok [OF wf run(4)] run(1-3) show ?thesis by (auto simp: auth_of_def)
qed simp

theorem derive_functional_witness:
  "authority_derive KOBJ_ENDPOINT (RWD, 0) (RIGHT_READ, 5) = Inr (auth_of (slots boot2 (Slot 10 3))) \<and>
   par boot2 (Slot 10 3) = Some (Slot 10 2)"
proof -
  have o: "object_of boot1 (Slot 10 2) = Some 20" "auth_of (slots boot1 (Slot 10 2)) = (RWD, 0)"
    "objs boot1 20 = Some (the (objs boot1 20))" "ko_type (the (objs boot1 20)) = KOBJ_ENDPOINT" by code_simp+
  show ?thesis using derive_functional [OF boot1_wf(1) boot2_run] o by auto
qed

text \<open>C12: A refused derivation leaves the whole state as it was, reference counts included: the references it
took before the refusal are given back, provided the counts of the source's object are positive and do not wrap.\<close>

theorem derive_refused:
  assumes r: "kcnode_slot_derive H sc si dc di rq bd \<sigma> = Some (st, \<sigma>')" and st: "st \<noteq> IRIS_OK"
    and live: "\<And>obj. object_of \<sigma> (Slot sc si) = Some obj \<Longrightarrow> counts_live dc obj \<sigma>"
  shows "\<sigma>' = \<sigma>"
  using r
proof (cases rule: derive_cases)
  case (run obj ko r b)
  show ?thesis using excl_refused [OF run(4) st live [OF run(1)]] .
qed

theorem derive_refused_witness:
  "\<exists>\<sigma>'. kcnode_slot_derive no_hooks 10 2 10 3 RIGHT_READ 0 boot2 = Some (IRIS_ERR_ALREADY_EXISTS, \<sigma>') \<and> \<sigma>' = boot2"
proof -
  have "map_option fst (kcnode_slot_derive no_hooks 10 2 10 3 RIGHT_READ 0 boot2) = Some IRIS_ERR_ALREADY_EXISTS"
    "counts_live 10 20 boot2" by code_simp+
  then obtain \<sigma>' where d: "kcnode_slot_derive no_hooks 10 2 10 3 RIGHT_READ 0 boot2 = Some (IRIS_ERR_ALREADY_EXISTS, \<sigma>')"
    and l: "counts_live 10 20 boot2" by auto
  have "\<sigma>' = boot2" by (rule derive_refused [OF d]) (use l in \<open>auto simp: boot2_slots\<close>)
  then show ?thesis using d by blast
qed

section \<open>Capability addresses and invocations\<close>

text \<open>C13: Resolving an address returns, and returns what the walk without references says: the error of the first
level that fails, the access error when the rights of the named capability do not cover the required ones, and
otherwise the named object with the capability's rights and badge.  Every reference the walk took on the way is
given back; on success exactly one lifecycle and one active reference to the result remain, and on an error the
state is the one before the call.  The named objects and the root have live counts that do not wrap.\<close>

theorem resolve_refinement:
  assumes "named_live \<sigma>" "live \<sigma> r"
  shows "cspace_resolve_cap_badged H self (Some r) c required \<sigma> = Some (cap_result required \<sigma> (walk_path self \<sigma> r c))"
  using resolve_cap_spec [OF assms] .

theorem resolve_refinement_witness:
  "cspace_resolve_cap_badged no_hooks None (Some 10) 46 RIGHT_READ (tree 2 2) =
     Some (Inr (20, RIGHT_READ, 5), bump 20 (tree 2 2))"
proof -
  have "walk_path None (tree 2 2) 10 46 = Inr [(10, 2), (30, 3)]" by code_simp
  moreover have "rights_check RIGHT_READ RIGHT_READ" by code_simp
  ultimately show ?thesis using resolve_refinement [OF tree_live, of no_hooks None 46 RIGHT_READ 2 2]
    by (simp add: cap_result_def Let_def tree_def plain_slot_def)
qed



text \<open>C15: A typed resolution is safe.  It succeeds only on an address in range, whose walk ends at a slot that
holds a capability to the object it returns; the object has the type asked for, and the rights include the
required ones.  It then holds one lifecycle reference, and one active reference where its contract keeps it.
In every other case it returns an error and the state is unchanged.\<close>

theorem resolve_only_checked:
  assumes "named_live \<sigma>" "live \<sigma> r"
  shows "\<exists>res \<sigma>'. resolve_only_badged keep ty H self (Some r) c required \<sigma> = Some (res, \<sigma>') \<and>
    (case res of
       Inl _ \<Rightarrow> \<sigma>' = \<sigma>
     | Inr (q, rights, badge) \<Rightarrow> cspace_value_is_cptr c \<and> \<sigma>' = kept keep q \<sigma> \<and> type_of \<sigma> q = Some ty \<and>
         (required = RIGHT_NONE \<or> rights_check rights required) \<and>
         (\<exists>p. walk_path self \<sigma> r c = Inr p \<and> snd (last p) < slots_of \<sigma> (fst (last p)) \<and>
            (case slots \<sigma> (Slot (fst (last p)) (snd (last p))) of x \<Rightarrow>
               s_object x = Some q \<and> s_rights x = rights \<and> s_badge x = badge)))"
proof (cases "cspace_value_is_cptr c \<and> (\<exists>p. walk_path self \<sigma> r c = Inr p)")
  case True
  then obtain p where p: "walk_path self \<sigma> r c = Inr p" by blast
  then have "snd (last p) < slots_of \<sigma> (fst (last p)) \<and> s_object (slots \<sigma> (Slot (fst (last p)) (snd (last p)))) \<noteq> None"
    using cs_path_end by (fastforce simp: walk_path_def split: if_splits prod.splits)
  then show ?thesis using True p by (auto simp: resolve_only_spec [OF assms] only_result_def Let_def)
next
  case False
  then show ?thesis by (cases "walk_path self \<sigma> r c") (auto simp: resolve_only_spec [OF assms] only_result_def)
qed

theorem resolve_only_checked_witness:
  "\<exists>\<sigma>'. cspace_resolve_only_endpoint_badged no_hooks None (Some 10) 46 RIGHT_READ (tree 2 2) =
     Some (Inr (20, RIGHT_READ, 5), \<sigma>') \<and> \<sigma>' = kept False 20 (tree 2 2) \<and> type_of (tree 2 2) 20 = Some KOBJ_ENDPOINT"
proof -
  have "map_option fst (resolve_only_badged False KOBJ_ENDPOINT no_hooks None (Some 10) 46 RIGHT_READ (tree 2 2)) =
      Some (Inr (20, RIGHT_READ, 5))" by code_simp
  then show ?thesis using resolve_only_checked [OF tree_live, of False KOBJ_ENDPOINT no_hooks None 46 RIGHT_READ 2 2]
    unfolding cspace_resolve_only_endpoint_badged_def by (elim exE conjE) simp
qed

text \<open>C16: Without guards, the walk that finds a slot and the walk that fetches a capability agree: for every
address, one ends at a slot exactly when the other returns what that slot holds, and with the same error
otherwise.\<close>

theorem slot_walk_agrees:
  assumes "named_live \<sigma>" "live \<sigma> r" "\<And>s. s_guard_bits (slots \<sigma> s) = 0" "c \<noteq> IRIS_CPTR_NULL"
  shows "map_option fst (cspace_resolve_cap_badged H None (Some r) c RIGHT_NONE \<sigma>) =
    map_option (\<lambda>(res, _). case res of Inl e \<Rightarrow> Inl e
      | Inr (cn, i) \<Rightarrow> (case slots \<sigma> (Slot cn i) of x \<Rightarrow> Inr (the (s_object x), s_rights x, s_badge x)))
      (cspace_resolve_slot H (Some r) c \<sigma>)"
  using cs_path_no_guards [OF assms(3), of CSPACE_MAX_DEPTH r c 0] assms(4)
  by (auto simp: resolve_cap_spec [OF assms(1,2)] resolve_slot_spec [OF assms(1,2,4)] walk_path_def root_guard_def
      cap_result_def Let_def case_prod_unfold split: sum.split)

theorem slot_walk_agrees_witness:
  "map_option fst (cspace_resolve_cap_badged no_hooks None (Some 10) 14 RIGHT_NONE (tree 0 0)) = Some (Inr (20, RIGHT_READ, 5)) \<and>
   map_option fst (cspace_resolve_slot no_hooks (Some 10) 14 (tree 0 0)) = Some (Inr (30, 3))"
proof -
  have "s_guard_bits (slots (tree 0 0) s) = 0" for s
    by (simp add: tree_def plain_slot_def empty_slot_def)
  note a = slot_walk_agrees [OF tree_live this, of 14 no_hooks]
  have "map_option fst (cspace_resolve_slot no_hooks (Some 10) 14 (tree 0 0)) = Some (Inr (30, 3))" by code_simp
  then show ?thesis using a by (auto simp: IRIS_CPTR_NULL_def tree_def plain_slot_def)
qed

text \<open>C17: No program can amplify its authority by invoking capabilities.  Whatever threads run, restart or park,
and whatever addresses and arguments they pass to delete, swap, mint, move, rotate, revoke, set-guard and the
two introspection calls, the tree stays well formed, its gauges exact, and every capability to an object carries
at most the rights of a capability to that object that was there at the start, with its badge when set.\<close>

theorem invocation_confinement:
  assumes "(ustep H)\<^sup>*\<^sup>* \<sigma> \<sigma>'" "mdb_wf \<sigma>" "gauges_ok \<sigma>"
  shows "mdb_wf \<sigma>' \<and> gauges_ok \<sigma>' \<and>
    (\<forall>s obj. object_of \<sigma>' s = Some obj \<longrightarrow>
       (\<exists>t. object_of \<sigma> t = Some obj \<and> rights_le (s_rights (slots \<sigma>' s)) (s_rights (slots \<sigma> t)) \<and>
          (s_badge (slots \<sigma> t) = 0 \<or> s_badge (slots \<sigma>' s) = s_badge (slots \<sigma> t))))"
  using usteps_reach [OF assms(1), of "\<lambda>_ _ _ _. False"] assms(2,3) sg.reach_keeps confined_reach by blast

theorem invocation_confinement_witness:
  "\<exists>out t \<sigma>'. syscall_dispatch no_hooks (Some task0) INV_CSPACE_MINT 2 0x100000000 0x500000001 boot2 = Some (out, t, \<sigma>') \<and>
     object_of \<sigma>' (Slot 10 1) = Some 20 \<and> s_badge (slots \<sigma>' (Slot 10 1)) = 5 \<and> mdb_wf \<sigma>' \<and>
     (\<exists>t. object_of boot2 t = Some 20 \<and> rights_le (s_rights (slots \<sigma>' (Slot 10 1))) (s_rights (slots boot2 t)))"
proof -
  have "map_option (\<lambda>(out, t, \<sigma>'). (out, object_of \<sigma>' (Slot 10 1), s_badge (slots \<sigma>' (Slot 10 1))))
      (syscall_dispatch no_hooks (Some task0) INV_CSPACE_MINT 2 0x100000000 0x500000001 boot2) = Some (Returned 0, Some 20, 5)"
    by code_simp
  then obtain out t \<sigma>' where d:
      "syscall_dispatch no_hooks (Some task0) INV_CSPACE_MINT 2 0x100000000 0x500000001 boot2 = Some (out, t, \<sigma>')"
      "object_of \<sigma>' (Slot 10 1) = Some 20" "s_badge (slots \<sigma>' (Slot 10 1)) = 5" by auto
  have "(ustep no_hooks)\<^sup>*\<^sup>* boot2 \<sigma>'" using ustep_dispatch [OF d(1)] by blast
  from invocation_confinement [OF this boot2_wf(1,2)] d show ?thesis by blast
qed

text \<open>C18: Asking for the type of a capability is a pure read: it returns the type code of the object the address
names, or the walk's error as a negative word, and leaves the whole state, reference counts included, as it was.\<close>

theorem identify_reads:
  assumes "named_live \<sigma>" "live \<sigma> r" "cspace_root t = Some r"
  shows "sys_cap_identify H (Some t) c \<sigma> =
    Some (if cspace_only_cptr c
          then case walk_path (self_root t) \<sigma> r c of
                 Inl e \<Rightarrow> syscall_err e
               | Inr p \<Rightarrow> kobject_type_code (the (type_of \<sigma> (the (s_object (slots \<sigma> (Slot (fst (last p)) (snd (last p))))))))
          else syscall_err IRIS_ERR_INVALID_ARG, \<sigma>)"
  using identify_spec [OF assms] .

theorem identify_reads_witness: "sys_cap_identify no_hooks (Some task0) 46 (tree 2 2) = Some (8, tree 2 2)"
proof -
  have w: "walk_path (self_root task0) (tree 2 2) 10 46 = Inr [(10, 2), (30, 3)]" "cspace_only_cptr 46"
    "kobject_type_code (the (type_of (tree 2 2) (the (s_object (slots (tree 2 2) (Slot 30 3)))))) = 8" by code_simp+
  show ?thesis using identify_reads [OF tree_live, of task0 no_hooks 46 2 2] w by (simp add: task0_def)
qed

subsection \<open>Where the code departs from its comments\<close>

text \<open>With a guard on the inner CNode capability the two walks part: the walk that finds slots does not check or
consume guards, so it reaches the slot under an address that names nothing and rejects the right one.\<close>

lemma slot_walk_ignores_guards:
  "map_option fst (cspace_resolve_cap_badged no_hooks None (Some 10) 46 RIGHT_NONE (tree 2 2)) = Some (Inr (20, RIGHT_READ, 5))"
  "map_option fst (cspace_resolve_slot no_hooks (Some 10) 46 (tree 2 2)) = Some (Inl IRIS_ERR_INVALID_ARG)"
  "map_option fst (cspace_resolve_cap_badged no_hooks None (Some 10) 14 RIGHT_NONE (tree 2 2)) = Some (Inl IRIS_ERR_NOT_FOUND)"
  "map_option fst (cspace_resolve_slot no_hooks (Some 10) 14 (tree 2 2)) = Some (Inr (30, 3))"
  by code_simp+

text \<open>A move drops the guard of the capability it moves.\<close>

lemma move_drops_guard:
  "s_guard_bits (slots (tree 2 2) (Slot 10 2)) = 2"
  "map_option (\<lambda>(st, \<sigma>). (st, object_of \<sigma> (Slot 10 3), s_guard_bits (slots \<sigma> (Slot 10 3))))
     (kcnode_slot_move 10 2 10 3 (tree 2 2)) = Some (IRIS_OK, Some 30, 0)"
  by code_simp+

text \<open>Mint, move and rotate refuse slot 0 of the root, which no address names; a swap puts a capability there.\<close>

lemma swap_reaches_slot_zero:
  "map_option (\<lambda>(st, \<sigma>). (st, object_of \<sigma> (Slot 30 0))) (sys_cnode_swap no_hooks (Some task0) 2 3 0 (tree 0 0)) =
     Some (0, Some 20)"
  by code_simp

text \<open>The two families of typed resolvers order their tests differently: on an object of the wrong type with rights
missing, one reports the rights and the other the type.\<close>

lemma typed_resolvers_disagree:
  "map_option fst (cspace_resolve_cnode no_hooks None (Some 10) 14 RIGHT_WRITE (tree 0 0)) = Some (Inl IRIS_ERR_ACCESS_DENIED)"
  "map_option fst (cspace_resolve_only_cnode no_hooks None (Some 10) 14 RIGHT_WRITE (tree 0 0)) = Some (Inl IRIS_ERR_WRONG_TYPE)"
  by code_simp+

text \<open>A slot that names its own CNode takes no active reference.  Moved to another CNode and deleted there, it
gives one back: the CNode, whose creator still holds its reference, is closed and its slots are emptied.\<close>

lemma moved_self_capability_closes:
  "map_option ko_active (objs self_named 10) = Some 1" "object_of self_named (Slot 10 3) = Some 20"
  "map_option (\<lambda>(st, \<sigma>). (st, map_option ko_active (objs \<sigma> 10), object_of \<sigma> (Slot 10 3)))
     (do { (st, \<sigma>1) \<leftarrow> kcnode_slot_move 10 2 30 2 self_named; kcnode_slot_delete no_hooks 30 2 \<sigma>1 }) =
   Some (IRIS_OK, Some 0, None)"
  by code_simp+

end
